(* ===== verification/Prelude.thy ===== *)
theory Prelude
  imports Main "HOL-Library.Word" "HOL-Library.Monad_Syntax" "HOL-Library.Signed_Division"
begin

text \<open>
  The vocabulary shared by every component theory: the byte and word types, C integers at
  their width, the memory model and the lemma collections.

  Memory. A C array (or the memory a pointer points into) is a list; a pointer into it is an
  integer offset from its start. rd and wr read and write one cell,
  rd_blk and wr_blk are the two sides of a memcpy. All return
  None when a cell outside the list is touched. A model function that returns
  None is C code whose behaviour is undefined on that input; a theorem that it
  returns Some is a memory-safety statement.

  Integers. A C int is an int; i32 is the two's complement wrap to 32 bits
  and is written at the operations whose result can leave the range. Where the code shifts and
  masks, the value is a machine word.
\<close>

unbundle bit_operations_syntax

type_synonym u8 = "8 word"
type_synonym u16 = "16 word"
type_synonym u32 = "32 word"
type_synonym u64 = "64 word"

named_theorems mem \<open>facts about reads and writes of the memory model\<close>
named_theorems cint \<open>facts about C integers at their width\<close>

section \<open>C integers\<close>

definition i32 :: "int \<Rightarrow> int" where
  "i32 x = (x + 2147483648) mod 4294967296 - 2147483648"

definition uw32 :: "int \<Rightarrow> int" where
  "uw32 x = x mod 4294967296"

lemma i32_id [cint]: "-2147483648 \<le> x \<Longrightarrow> x < 2147483648 \<Longrightarrow> i32 x = x"
  by (simp add: i32_def)

lemma i32_range: "-2147483648 \<le> i32 x" "i32 x < 2147483648"
  by (simp_all add: i32_def)

lemma i32_uw32 [cint]: "i32 (uw32 x) = i32 x"
  by (simp add: i32_def uw32_def mod_simps)

lemma uw32_i32 [cint, simp]: "uw32 (i32 x) = uw32 x"
  by (simp add: i32_def uw32_def mod_simps)

lemma uw32_id [cint]: "0 \<le> x \<Longrightarrow> x < 4294967296 \<Longrightarrow> uw32 x = x"
  by (simp add: uw32_def)

lemma i32_i32 [cint, simp]: "i32 (i32 x) = i32 x"
  by (rule i32_id) (rule i32_range)+

lemma i32_sint: "i32 x = sint (word_of_int x :: u32)"
proof -
  have "sint (word_of_int x :: u32) = signed_take_bit 31 x"
    by (simp add: sint_sbintrunc')
  also have "\<dots> = (x + 2147483648) mod 4294967296 - 2147483648"
    by (simp add: signed_take_bit_eq_take_bit_shift take_bit_eq_mod)
  finally show ?thesis by (simp add: i32_def)
qed

text \<open>C division truncates towards zero; the divisor must not be zero.\<close>

definition cdiv :: "int \<Rightarrow> int \<Rightarrow> int option" where
  "cdiv a b = (if b = 0 then None else Some (a sdiv b))"

lemma sdiv_nonneg [cint]: "0 \<le> (a::int) \<Longrightarrow> 0 < b \<Longrightarrow> a sdiv b = a div b"
  by (simp add: signed_divide_int_def sgn_if)

lemma bit_word_beyond [simp]: "LENGTH('a) \<le> n \<Longrightarrow> \<not> bit (w :: 'a::len word) n"
  using bit_imp_le_length leD by blast

lemma byte_position_cases:
  fixes n :: nat
  assumes "n < 32"
  obtains "n < 8" | "8 \<le> n" "n < 16" | "16 \<le> n" "n < 24" | "24 \<le> n"
  using assms by linarith

lemma u32_eqI_bytes:
  fixes x y :: u32
  assumes "\<And>n. n < 8 \<Longrightarrow> bit x n = bit y n" "\<And>n. 8 \<le> n \<Longrightarrow> n < 16 \<Longrightarrow> bit x n = bit y n"
    "\<And>n. 16 \<le> n \<Longrightarrow> n < 24 \<Longrightarrow> bit x n = bit y n" "\<And>n. 24 \<le> n \<Longrightarrow> n < 32 \<Longrightarrow> bit x n = bit y n"
  shows "x = y"
proof (rule bit_word_eqI)
  fix n assume "n < LENGTH(32)"
  then have n: "n < 32" by simp
  then show "bit x n = bit y n" by (rule byte_position_cases) (use assms n in auto)
qed

section \<open>Memory\<close>

definition rd :: "'a list \<Rightarrow> int \<Rightarrow> 'a option" where
  "rd m i = (if 0 \<le> i \<and> i < int (length m) then Some (m ! nat i) else None)"

definition wr :: "'a list \<Rightarrow> int \<Rightarrow> 'a \<Rightarrow> 'a list option" where
  "wr m i x = (if 0 \<le> i \<and> i < int (length m) then Some (m[nat i := x]) else None)"

definition rd_blk :: "'a list \<Rightarrow> int \<Rightarrow> int \<Rightarrow> 'a list option" where
  "rd_blk m i n = (if 0 \<le> i \<and> 0 \<le> n \<and> i + n \<le> int (length m)
                   then Some (take (nat n) (drop (nat i) m)) else None)"

definition put_at :: "'a list \<Rightarrow> nat \<Rightarrow> 'a list \<Rightarrow> 'a list" where
  "put_at m i xs = take i m @ xs @ drop (i + length xs) m"

definition wr_blk :: "'a list \<Rightarrow> int \<Rightarrow> 'a list \<Rightarrow> 'a list option" where
  "wr_blk m i xs = (if 0 \<le> i \<and> i + int (length xs) \<le> int (length m)
                    then Some (put_at m (nat i) xs) else None)"

lemma rd_eq_Some [mem]: "rd m i = Some x \<longleftrightarrow> 0 \<le> i \<and> i < int (length m) \<and> m ! nat i = x"
  by (auto simp: rd_def)

lemma rd_in_range [mem]: "0 \<le> i \<Longrightarrow> i < int (length m) \<Longrightarrow> rd m i = Some (m ! nat i)"
  by (simp add: rd_def)

lemma rd_of_nat [simp]: "rd m (int i) = (if i < length m then Some (m ! i) else None)"
  by (simp add: rd_def)

lemma rd_0 [simp]: "rd m 0 = (if m = [] then None else Some (m ! 0))"
  by (simp add: rd_def)

lemma rd_1 [simp]: "rd m 1 = (if 1 < length m then Some (m ! 1) else None)"
  by (simp add: rd_def)

lemma rd_numeral [simp]: "rd m (numeral k) = (if numeral k < length m then Some (m ! numeral k) else None)"
  by (auto simp: rd_def)

lemma rd_out_of_range [mem]: "i < 0 \<or> int (length m) \<le> i \<Longrightarrow> rd m i = None"
  by (auto simp: rd_def)

lemma rd_is_None: "rd m i = None \<longleftrightarrow> i < 0 \<or> int (length m) \<le> i"
  by (auto simp: rd_def)

lemma rd_append_left [mem]: "i < int (length a) \<Longrightarrow> rd (a @ b) i = rd a i"
  by (auto simp: rd_def nth_append nat_less_iff)

lemma rd_append_right [mem]: "int (length a) \<le> i \<Longrightarrow> rd (a @ b) i = rd b (i - int (length a))"
  by (auto simp: rd_def nth_append nat_less_iff nat_diff_distrib)

lemma wr_in_range [mem]: "0 \<le> i \<Longrightarrow> i < int (length m) \<Longrightarrow> wr m i x = Some (m[nat i := x])"
  by (simp add: wr_def)

lemma rd_blk_in_range [mem]:
  "0 \<le> i \<Longrightarrow> 0 \<le> n \<Longrightarrow> i + n \<le> int (length m) \<Longrightarrow> rd_blk m i n = Some (take (nat n) (drop (nat i) m))"
  by (simp add: rd_blk_def)

lemma rd_blk_length: "rd_blk m i n = Some xs \<Longrightarrow> int (length xs) = n"
  by (auto simp: rd_blk_def split: if_splits)

lemma rd_blk_nth: "rd_blk m i n = Some xs \<Longrightarrow> j < length xs \<Longrightarrow> xs ! j = m ! (nat i + j)"
  by (auto simp: rd_blk_def split: if_splits)

lemma length_put_at [simp]: "i + length xs \<le> length m \<Longrightarrow> length (put_at m i xs) = length m"
  by (simp add: put_at_def)

lemma nth_put_at:
  "i + length xs \<le> length m \<Longrightarrow> j < length m \<Longrightarrow>
   put_at m i xs ! j = (if i \<le> j \<and> j < i + length xs then xs ! (j - i) else m ! j)"
  by (auto simp: put_at_def nth_append min_def)

lemma put_at_Nil [simp]: "put_at m i [] = m"
  by (simp add: put_at_def)

lemma wr_blk_in_range [mem]:
  "0 \<le> i \<Longrightarrow> i + int (length xs) \<le> int (length m) \<Longrightarrow> wr_blk m i xs = Some (put_at m (nat i) xs)"
  by (simp add: wr_blk_def)

lemma wr_blk_length: "wr_blk m i xs = Some m' \<Longrightarrow> length m' = length m"
  by (auto simp: wr_blk_def split: if_splits)

text \<open>memcmp of a constant pattern against memory: all its bytes must be readable.\<close>

definition mem_match :: "'a list \<Rightarrow> int \<Rightarrow> 'a list \<Rightarrow> bool option" where
  "mem_match m i pat = map_option (\<lambda>xs. xs = pat) (rd_blk m i (int (length pat)))"

lemma mem_match_in_range [mem]:
  "0 \<le> i \<Longrightarrow> i + int (length pat) \<le> int (length m) \<Longrightarrow>
   mem_match m i pat = Some (take (length pat) (drop (nat i) m) = pat)"
  by (simp add: mem_match_def rd_blk_def)

lemma mem_match_defined: "mem_match m i pat = Some b \<Longrightarrow> 0 \<le> i \<and> i + int (length pat) \<le> int (length m)"
  by (auto simp: mem_match_def rd_blk_def split: if_splits)

section \<open>Lists and options\<close>

lemma bind_eq_Some_iff: "Option.bind x f = Some y \<longleftrightarrow> (\<exists>a. x = Some a \<and> f a = Some y)"
  by (cases x) auto

lemma take_Suc_nth: "i < length xs \<Longrightarrow> take (Suc i) xs = take i xs @ [xs ! i]"
  by (rule take_Suc_conv_app_nth)

lemma take_drop_nth_eqI:
  assumes "length ys = n" "i + n \<le> length xs" "\<And>j. j < n \<Longrightarrow> xs ! (i + j) = ys ! j"
  shows "take n (drop i xs) = ys"
  by (rule nth_equalityI) (use assms in auto)

end
