(* ===== verification/Byte_Access.thy ===== *)
theory Byte_Access
  imports Prelude
begin

text \<open>
  The byte accessors of Include/get.h: little- and big-endian reads from a byte
  pointer. c is the memory, i the offset of the pointer in it; the result
  is None when one of the bytes lies outside. Unsigned results are words; the signed
  readers shift the value to the top of a 32-bit int and back, as the code does.

  The lemmas relate them to the byte layout they decode: be32 is the word with four
  given bytes, most significant first, injective in its bytes, and every reader inverts the
  corresponding layout.
\<close>

definition get8 :: "u8 list \<Rightarrow> int \<Rightarrow> u8 option" where
  "get8 c i = rd c i"

definition get16LE :: "u8 list \<Rightarrow> int \<Rightarrow> u32 option" where
  "get16LE c i = do {
     b0 \<leftarrow> rd c i;
     b1 \<leftarrow> rd c (i + 1);
     let ui = ucast b0;
     Some (ui + push_bit 8 (ucast b1)) }"

definition getS16LE :: "u8 list \<Rightarrow> int \<Rightarrow> int option" where
  "getS16LE c i = do {
     b0 \<leftarrow> rd c i;
     b1 \<leftarrow> rd c (i + 1);
     let ui = (push_bit 16 (ucast b0) :: u32);
     let ui = ui + push_bit 24 (ucast b1);
     Some (sint (signed_drop_bit 16 ui)) }"

definition get24LE :: "u8 list \<Rightarrow> int \<Rightarrow> u32 option" where
  "get24LE c i = do {
     b0 \<leftarrow> rd c i;
     b1 \<leftarrow> rd c (i + 1);
     b2 \<leftarrow> rd c (i + 2);
     let ui = ucast b0;
     let ui = ui + push_bit 8 (ucast b1);
     Some (ui + push_bit 16 (ucast b2)) }"

definition getS24LE :: "u8 list \<Rightarrow> int \<Rightarrow> int option" where
  "getS24LE c i = do {
     b0 \<leftarrow> rd c i;
     b1 \<leftarrow> rd c (i + 1);
     b2 \<leftarrow> rd c (i + 2);
     let ui = (push_bit 8 (ucast b0) :: u32);
     let ui = ui + push_bit 16 (ucast b1);
     let ui = ui + push_bit 24 (ucast b2);
     Some (sint (signed_drop_bit 8 ui)) }"

definition get32LE :: "u8 list \<Rightarrow> int \<Rightarrow> u32 option" where
  "get32LE c i = do {
     b0 \<leftarrow> rd c i;
     b1 \<leftarrow> rd c (i + 1);
     b2 \<leftarrow> rd c (i + 2);
     b3 \<leftarrow> rd c (i + 3);
     let ui = ucast b0;
     let ui = ui + push_bit 8 (ucast b1);
     let ui = ui + push_bit 16 (ucast b2);
     Some (ui + push_bit 24 (ucast b3)) }"

definition getS32LE :: "u8 list \<Rightarrow> int \<Rightarrow> int option" where
  "getS32LE c i = do {
     b0 \<leftarrow> rd c i;
     b1 \<leftarrow> rd c (i + 1);
     b2 \<leftarrow> rd c (i + 2);
     b3 \<leftarrow> rd c (i + 3);
     let ui = (ucast b0 :: u32);
     let ui = ui + push_bit 8 (ucast b1);
     let ui = ui + push_bit 16 (ucast b2);
     let ui = ui + push_bit 24 (ucast b3);
     Some (sint ui) }"

definition get16BE :: "u8 list \<Rightarrow> int \<Rightarrow> u32 option" where
  "get16BE c i = do {
     b0 \<leftarrow> rd c i;
     let size = ucast b0;
     b1 \<leftarrow> rd c (i + 1);
     Some (push_bit 8 size OR ucast b1) }"

definition get24BE :: "u8 list \<Rightarrow> int \<Rightarrow> u32 option" where
  "get24BE c i = do {
     b0 \<leftarrow> rd c i;
     let size = ucast b0;
     b1 \<leftarrow> rd c (i + 1);
     let size = push_bit 8 size OR ucast b1;
     b2 \<leftarrow> rd c (i + 2);
     Some (push_bit 8 size OR ucast b2) }"

definition get32BE :: "u8 list \<Rightarrow> int \<Rightarrow> u32 option" where
  "get32BE c i = do {
     b0 \<leftarrow> rd c i;
     let size = ucast b0;
     b1 \<leftarrow> rd c (i + 1);
     let size = push_bit 8 size OR ucast b1;
     b2 \<leftarrow> rd c (i + 2);
     let size = push_bit 8 size OR ucast b2;
     b3 \<leftarrow> rd c (i + 3);
     Some (push_bit 8 size OR ucast b3) }"

definition get64BE :: "u8 list \<Rightarrow> int \<Rightarrow> u64 option" where
  "get64BE c i = do {
     b0 \<leftarrow> rd c i;
     let size = ucast b0;
     b1 \<leftarrow> rd c (i + 1);
     let size = push_bit 8 size OR ucast b1;
     b2 \<leftarrow> rd c (i + 2);
     let size = push_bit 8 size OR ucast b2;
     b3 \<leftarrow> rd c (i + 3);
     let size = push_bit 8 size OR ucast b3;
     b4 \<leftarrow> rd c (i + 4);
     let size = push_bit 8 size OR ucast b4;
     b5 \<leftarrow> rd c (i + 5);
     let size = push_bit 8 size OR ucast b5;
     b6 \<leftarrow> rd c (i + 6);
     let size = push_bit 8 size OR ucast b6;
     b7 \<leftarrow> rd c (i + 7);
     Some (push_bit 8 size OR ucast b7) }"

section \<open>Byte layouts\<close>

definition byte_of :: "nat \<Rightarrow> 'a::len word \<Rightarrow> u8" where
  "byte_of k w = ucast (drop_bit (8 * k) w)"

definition be32 :: "u8 \<Rightarrow> u8 \<Rightarrow> u8 \<Rightarrow> u8 \<Rightarrow> u32" where
  "be32 a b c d = push_bit 8 (push_bit 8 (push_bit 8 (ucast a) OR ucast b) OR ucast c) OR ucast d"

lemma be32_bytes:
  "byte_of 3 (be32 a b c d) = a" "byte_of 2 (be32 a b c d) = b"
  "byte_of 1 (be32 a b c d) = c" "byte_of 0 (be32 a b c d) = d"
  by (auto intro!: bit_word_eqI simp: byte_of_def be32_def bit_simps)

lemma be32_inject [simp]:
  "be32 a b c d = be32 a' b' c' d' \<longleftrightarrow> a = a' \<and> b = b' \<and> c = c' \<and> d = d'"
  by (metis be32_bytes)

lemma be32_shift: "push_bit 8 (be32 a b c d) OR ucast e = be32 b c d e"
  by (rule bit_word_eqI) (auto simp: be32_def bit_simps dest: bit_imp_le_length)

lemma be32_surj: "be32 (byte_of 3 w) (byte_of 2 w) (byte_of 1 w) (byte_of 0 w) = w"
  by (rule u32_eqI_bytes) (auto simp: be32_def byte_of_def bit_simps)

text \<open>
  The little-endian readers add shifted bytes. Bytes at distinct positions do not overlap, so
  the sum is the disjunction, and each reader gives back the word whose bytes lie at the
  pointer.
\<close>

definition le_bytes :: "nat \<Rightarrow> 'a::len word \<Rightarrow> u8 list" where
  "le_bytes n w = map (\<lambda>k. byte_of k w) [0..<n]"

definition be_bytes :: "nat \<Rightarrow> 'a::len word \<Rightarrow> u8 list" where
  "be_bytes n w = rev (le_bytes n w)"

lemma le_bytes_code [simp]:
  "le_bytes 2 w = [byte_of 0 w, byte_of 1 w]"
  "le_bytes 3 w = [byte_of 0 w, byte_of 1 w, byte_of 2 w]"
  "le_bytes 4 w = [byte_of 0 w, byte_of 1 w, byte_of 2 w, byte_of 3 w]"
  "be_bytes 2 w = [byte_of 1 w, byte_of 0 w]"
  "be_bytes 3 w = [byte_of 2 w, byte_of 1 w, byte_of 0 w]"
  "be_bytes 4 w = [byte_of 3 w, byte_of 2 w, byte_of 1 w, byte_of 0 w]"
  by (simp_all add: le_bytes_def be_bytes_def upt_rec numeral_eq_Suc)

lemma rd_layout:
  "rd (pre @ x # post) (int (length pre)) = Some x"
  "rd (pre @ x # y # post) (int (length pre) + 1) = Some y"
  "rd (pre @ x # y # z # post) (int (length pre) + 2) = Some z"
  "rd (pre @ x # y # z # t # post) (int (length pre) + 3) = Some t"
  by (simp_all add: rd_append_right)

lemma disjoint_bytes_sum:
  fixes a b c d :: u8
  shows "(push_bit j (ucast a) + push_bit (j + 8) (ucast b) :: u32) =
           push_bit j (ucast a) OR push_bit (j + 8) (ucast b)"
    and "(push_bit j (ucast a) OR push_bit (j + 8) (ucast b)) + (push_bit (j + 16) (ucast c) :: u32) =
           (push_bit j (ucast a) OR push_bit (j + 8) (ucast b)) OR push_bit (j + 16) (ucast c)"
    and "((push_bit j (ucast a) OR push_bit (j + 8) (ucast b)) OR push_bit (j + 16) (ucast c))
           + (push_bit (j + 24) (ucast d) :: u32) =
         ((push_bit j (ucast a) OR push_bit (j + 8) (ucast b)) OR push_bit (j + 16) (ucast c))
           OR push_bit (j + 24) (ucast d)"
  by (rule disjunctive_add_eq_or, rule bit_word_eqI, (auto simp: bit_simps)[1])+

lemmas disjoint_bytes_sum_0 = disjoint_bytes_sum [where j = 0, simplified]
lemmas disjoint_bytes_sum_8 = disjoint_bytes_sum [where j = 8, simplified]
lemmas disjoint_bytes_sum_16 = disjoint_bytes_sum [where j = 16, simplified]

lemma bytes_join:
  fixes w2 :: u16 and w3 :: "24 word" and w4 :: u32
  shows "(ucast (byte_of 0 w2) OR push_bit 8 (ucast (byte_of 1 w2)) :: u32) = ucast w2"
    and "((ucast (byte_of 0 w3) OR push_bit 8 (ucast (byte_of 1 w3))) OR push_bit 16 (ucast (byte_of 2 w3)) :: u32)
         = ucast w3"
    and "(((ucast (byte_of 0 w4) OR push_bit 8 (ucast (byte_of 1 w4))) OR push_bit 16 (ucast (byte_of 2 w4)))
          OR push_bit 24 (ucast (byte_of 3 w4)) :: u32) = w4"
  by (rule u32_eqI_bytes; auto simp: byte_of_def bit_simps)+

lemma get32BE_eq:
  "rd c i = Some b0 \<Longrightarrow> rd c (i + 1) = Some b1 \<Longrightarrow> rd c (i + 2) = Some b2 \<Longrightarrow> rd c (i + 3) = Some b3 \<Longrightarrow>
   get32BE c i = Some (be32 b0 b1 b2 b3)"
  by (simp add: get32BE_def be32_def)

lemma get32BE_defined: "get32BE c i = Some w \<longleftrightarrow> 0 \<le> i \<and> i + 4 \<le> int (length c) \<and>
    w = be32 (c ! nat i) (c ! nat (i + 1)) (c ! nat (i + 2)) (c ! nat (i + 3))"
  by (auto simp: get32BE_def be32_def bind_eq_Some_iff rd_eq_Some)

section \<open>The readers invert the layouts\<close>

lemma signed_shift_16:
  "sint (signed_drop_bit 16 (push_bit 16 (ucast (byte_of 0 w)) OR push_bit 24 (ucast (byte_of 1 w)) :: u32)) = sint w"
  for w :: u16
proof -
  have "push_bit 16 (ucast (byte_of 0 w)) OR push_bit 24 (ucast (byte_of 1 w)) = (push_bit 16 (ucast w) :: u32)"
    by (rule u32_eqI_bytes) (auto simp: byte_of_def bit_simps)
  moreover have "signed_drop_bit 16 (push_bit 16 (ucast w)) = (scast w :: u32)"
    by (rule bit_word_eqI) (auto simp: bit_simps)
  ultimately show ?thesis by (simp add: sint_up_scast is_up)
qed

lemma signed_shift_8:
  "sint (signed_drop_bit 8 ((push_bit 8 (ucast (byte_of 0 w)) OR push_bit 16 (ucast (byte_of 1 w)))
     OR push_bit 24 (ucast (byte_of 2 w)) :: u32)) = sint w" for w :: "24 word"
proof -
  have "(push_bit 8 (ucast (byte_of 0 w)) OR push_bit 16 (ucast (byte_of 1 w)))
     OR push_bit 24 (ucast (byte_of 2 w)) = (push_bit 8 (ucast w) :: u32)"
    by (rule u32_eqI_bytes) (auto simp: byte_of_def bit_simps)
  moreover have "signed_drop_bit 8 (push_bit 8 (ucast w)) = (scast w :: u32)"
    by (rule bit_word_eqI) (auto simp: bit_simps)
  ultimately show ?thesis by (simp add: sint_up_scast is_up)
qed

text \<open>
  Every little-endian reader of get.h inverts the little-endian byte layout: at a pointer
  where the bytes of a 16-, 24- or 32-bit value lie, least significant first, the unsigned
  readers return the value zero-extended to an unsigned int and the signed readers return it
  as a two's complement number.
\<close>

theorem little_endian_readers:
  fixes w2 :: u16 and w3 :: "24 word" and w4 :: u32
  shows "get16LE (pre @ le_bytes 2 w2 @ post) (int (length pre)) = Some (ucast w2) \<and>
         get24LE (pre @ le_bytes 3 w3 @ post) (int (length pre)) = Some (ucast w3) \<and>
         get32LE (pre @ le_bytes 4 w4 @ post) (int (length pre)) = Some w4 \<and>
         getS16LE (pre @ le_bytes 2 w2 @ post) (int (length pre)) = Some (sint w2) \<and>
         getS24LE (pre @ le_bytes 3 w3 @ post) (int (length pre)) = Some (sint w3) \<and>
         getS32LE (pre @ le_bytes 4 w4 @ post) (int (length pre)) = Some (sint w4)"
  by (simp add: get16LE_def get24LE_def get32LE_def getS16LE_def getS24LE_def getS32LE_def
     rd_layout disjoint_bytes_sum_0 disjoint_bytes_sum_8 disjoint_bytes_sum_16 bytes_join signed_shift_16 signed_shift_8
     del: One_nat_def)

end
