(* ===== verification/Bits.thy ===== *)
theory Bits
  imports Byte_Access "HOL-Library.Sublist"
begin

text \<open>
  The bit reader of Source/bits.c. The record is struct BITS: byte is the
  offset of the pointer ctx->byte from ctx->start in the memory
  bmem that starts there, bitm the mask of the current bit (0x80 first),
  h264 the flag that asks for the removal of H.264 emulation prevention bytes and
  zero_count the unsigned char that counts zero bytes for it.

  The abstract content of a reader is the list of bits still readable from it
  (readable). The locale bit_source is the contract the parsers rely on:
  reading one bit takes the head of that list. Its lemmas give the value of a multi-bit read
  and of an exp-Golomb code for any such reader.
\<close>

record bits =
  bmem :: "u8 list"
  byte :: int
  bitm :: int
  bit_index :: int
  bits_size :: int
  h264 :: bool
  zero_count :: u8

definition BITS_init :: "u8 list \<Rightarrow> int \<Rightarrow> bits" where
  "BITS_init data sz =
     \<lparr>bmem = data, byte = 0, bitm = 128, bit_index = 0, bits_size = sz, h264 = False, zero_count = 0\<rparr>"

definition BITS_init_h264 :: "u8 list \<Rightarrow> int \<Rightarrow> bits option" where
  "BITS_init_h264 data sz = do {
     c \<leftarrow> rd data 0;
     Some \<lparr>bmem = data, byte = 0, bitm = 128, bit_index = 0, bits_size = sz, h264 = True,
           zero_count = (if c \<noteq> 0 then 0 else 1)\<rparr> }"

definition BITS_align :: "bits \<Rightarrow> bits" where
  "BITS_align ctx =
     (if bitm ctx \<noteq> 128 then ctx\<lparr>byte := byte ctx + 1, bitm := 128\<rparr> else ctx)"

definition BITS_get1 :: "bits \<Rightarrow> (u32 \<times> bits) option" where
  "BITS_get1 ctx = do {
     c \<leftarrow> rd (bmem ctx) (byte ctx);
     let b = (if uint c AND bitm ctx \<noteq> 0 then 1 else 0);
     let ctx = ctx\<lparr>bitm := bitm ctx div 2, bit_index := bit_index ctx + 1\<rparr>;
     if bitm ctx = 0 then do {
       let ctx = ctx\<lparr>bitm := 128, byte := byte ctx + 1\<rparr>;
       if h264 ctx then do {
         c \<leftarrow> rd (bmem ctx) (byte ctx);
         if c = 0 then Some (b, ctx\<lparr>zero_count := zero_count ctx + 1\<rparr>)
         else Some (b, (if zero_count ctx = 2 \<and> c = 3 then ctx\<lparr>byte := byte ctx + 1\<rparr> else ctx)
                         \<lparr>zero_count := 0\<rparr>) }
       else Some (b, ctx) }
     else Some (b, ctx) }"

text \<open>
  The loop of BITS_get counts down to zero; a negative count would run until the
  reader leaves the memory, and is modelled as a failing read.
\<close>

fun BITS_get_loop :: "bits \<Rightarrow> nat \<Rightarrow> u32 \<Rightarrow> (u32 \<times> bits) option" where
  "BITS_get_loop ctx 0 b = Some (b, ctx)"
| "BITS_get_loop ctx (Suc count) b = do {
     (x, ctx) \<leftarrow> BITS_get1 ctx;
     BITS_get_loop ctx count (push_bit 1 b OR x) }"

definition BITS_get :: "bits \<Rightarrow> int \<Rightarrow> (u32 \<times> bits) option" where
  "BITS_get ctx count = (if count < 0 then None else BITS_get_loop ctx (nat count) 0)"

text \<open>The three phases of BITS_skip.\<close>

definition skip1 :: "bits \<Rightarrow> bits" where
  "skip1 ctx =
     (let ctx = ctx\<lparr>bitm := bitm ctx div 2, bit_index := bit_index ctx + 1\<rparr>
      in if bitm ctx = 0 then ctx\<lparr>byte := byte ctx + 1, bitm := 128\<rparr> else ctx)"

fun skip_unaligned :: "bits \<Rightarrow> nat \<Rightarrow> nat \<times> bits" where
  "skip_unaligned ctx 0 = (0, ctx)"
| "skip_unaligned ctx (Suc count) =
     (if bitm ctx \<noteq> 128 then skip_unaligned (skip1 ctx) count else (Suc count, ctx))"

definition BITS_skip :: "bits \<Rightarrow> nat \<Rightarrow> bits" where
  "BITS_skip ctx count =
     (let (count, ctx) = skip_unaligned ctx count;
          (count, ctx) = (if 8 \<le> count
            then (count - (count div 8) * 8,
                  ctx\<lparr>byte := byte ctx + int (count div 8), bit_index := bit_index ctx + 8\<rparr>)
            else (count, ctx))
      in (skip1 ^^ count) ctx)"

definition BITS_peek1 :: "bits \<Rightarrow> u32 option" where
  "BITS_peek1 ctx = do {
     c \<leftarrow> rd (bmem ctx) (byte ctx);
     Some (if uint c AND bitm ctx \<noteq> 0 then 1 else 0) }"

definition BITS_poke1 :: "bits \<Rightarrow> int \<Rightarrow> bits option" where
  "BITS_poke1 ctx b = do {
     c \<leftarrow> rd (bmem ctx) (byte ctx);
     let byt = (c AND word_of_int (NOT (bitm ctx)));
     let byt = (if b \<noteq> 0 then byt OR word_of_int (bitm ctx) else byt);
     m \<leftarrow> wr (bmem ctx) (byte ctx) byt;
     Some (ctx\<lparr>bmem := m\<rparr>) }"

definition BITS_offset :: "bits \<Rightarrow> u32" where
  "BITS_offset ctx = word_of_int (byte ctx)"

definition BITS_current :: "bits \<Rightarrow> int \<times> int" where
  "BITS_current ctx = (byte ctx, bitm ctx)"

section \<open>The bits a reader can still deliver\<close>

definition byte_bits :: "u8 \<Rightarrow> bool list" where
  "byte_bits c = map (\<lambda>k. bit c (7 - k)) [0..<8]"

definition mask_pos :: "int \<Rightarrow> nat" where
  "mask_pos m = length (takeWhile (\<lambda>k. m \<noteq> 2 ^ (7 - k)) [0..<8])"

text \<open>
  h264_stream zc cur rest: the bits delivered when cur are the unread bits
  of the current byte, rest the bytes after it and zc the zero counter.
  Consuming the last bit of a byte looks at the next byte, so that bit is not readable at the
  end of the memory.
\<close>

fun h264_stream :: "u8 \<Rightarrow> bool list \<Rightarrow> u8 list \<Rightarrow> bool list" where
  "h264_stream zc cur [] = butlast cur"
| "h264_stream zc cur (c # cs) = cur @
     (if c = 0 then h264_stream (zc + 1) (byte_bits c) cs
      else if zc = 2 \<and> c = 3 then
        (case cs of [] \<Rightarrow> [] | d # ds \<Rightarrow> h264_stream 0 (byte_bits d) ds)
      else h264_stream 0 (byte_bits c) cs)"

definition readable :: "bits \<Rightarrow> bool list" where
  "readable ctx =
     (if byte ctx < int (length (bmem ctx)) then
        let cur = drop (mask_pos (bitm ctx)) (byte_bits (bmem ctx ! nat (byte ctx)));
            rest = drop (Suc (nat (byte ctx))) (bmem ctx)
        in if h264 ctx then h264_stream (zero_count ctx) cur rest
           else cur @ concat (map byte_bits rest)
      else [])"

definition bits_ok :: "bits \<Rightarrow> bool" where
  "bits_ok ctx \<longleftrightarrow> 0 \<le> byte ctx \<and> bitm ctx \<in> {128, 64, 32, 16, 8, 4, 2, 1}"

definition bval :: "bool list \<Rightarrow> nat" where
  "bval bs = foldl (\<lambda>n b. 2 * n + of_bool b) 0 bs"

lemma bval_snoc: "bval (bs @ [b]) = 2 * bval bs + of_bool b"
  by (simp add: bval_def)

lemma bval_Nil [simp]: "bval [] = 0"
  by (simp add: bval_def)

lemma bval_append: "bval (xs @ ys) = bval xs * 2 ^ length ys + bval ys"
proof (induction ys rule: rev_induct)
  case (snoc y ys)
  then show ?case
    by (simp add: bval_snoc flip: append_assoc)
qed simp

lemma bval_bound: "bval bs < 2 ^ length bs"
  by (induction bs rule: rev_induct) (auto simp: bval_snoc)

lemma byte_bits_code: "byte_bits c = [bit c 7, bit c 6, bit c 5, bit c 4, bit c 3, bit c 2, bit c 1, bit c 0]"
  by (simp add: byte_bits_def upt_rec)

lemma length_byte_bits [simp]: "length (byte_bits c) = 8"
  by (simp add: byte_bits_def)

lemma mask_pos_simps [simp]:
  "mask_pos 128 = 0" "mask_pos 64 = 1" "mask_pos 32 = 2" "mask_pos 16 = 3"
  "mask_pos 8 = 4" "mask_pos 4 = 5" "mask_pos 2 = 6" "mask_pos 1 = 7"
  by (simp_all add: mask_pos_def upt_rec)

lemma bits_ok_cases:
  assumes "bits_ok ctx"
  obtains k where "k < 8" "bitm ctx = 2 ^ (7 - k)" "mask_pos (bitm ctx) = k"
proof -
  from assms consider "bitm ctx = 128" | "bitm ctx = 64" | "bitm ctx = 32" | "bitm ctx = 16"
    | "bitm ctx = 8" | "bitm ctx = 4" | "bitm ctx = 2" | "bitm ctx = 1"
    by (auto simp: bits_ok_def)
  then show thesis
    by cases (rule that [of "mask_pos (bitm ctx)"]; simp)+
qed

section \<open>One bit at a time\<close>

lemma mask_test: "uint c AND 2 ^ n \<noteq> 0 \<longleftrightarrow> bit c n" for c :: u8
  by (auto simp: and_exp_eq_0_iff_not_bit bit_uint_iff intro: ccontr)

lemma drop_byte_bits: "k < 8 \<Longrightarrow> drop k (byte_bits c) = bit c (7 - k) # drop (Suc k) (byte_bits c)"
  by (simp add: Cons_nth_drop_Suc [symmetric] byte_bits_def)

lemma mask_pos_pow: "k < 8 \<Longrightarrow> mask_pos (2 ^ (7 - k)) = k"
  by (auto simp: less_Suc_eq numeral_eq_Suc mask_pos_def)

lemma bits_ok_pow: "bits_ok ctx \<longleftrightarrow> 0 \<le> byte ctx \<and> (\<exists>k<8. bitm ctx = 2 ^ (7 - k))"
proof
  assume ok: "bits_ok ctx"
  then show "0 \<le> byte ctx \<and> (\<exists>k<8. bitm ctx = 2 ^ (7 - k))"
    by (rule bits_ok_cases) (use ok in \<open>auto simp: bits_ok_def\<close>)
next
  assume *: "0 \<le> byte ctx \<and> (\<exists>k<8. bitm ctx = 2 ^ (7 - k))"
  then obtain k where "k < 8" "bitm ctx = 2 ^ (7 - k)" by blast
  then have "bitm ctx \<in> {128, 64, 32, 16, 8, 4, 2, 1}"
    by (auto simp: less_Suc_eq numeral_eq_Suc)
  with * show "bits_ok ctx" by (simp add: bits_ok_def)
qed

lemma BITS_get1_inside:
  assumes "0 \<le> byte ctx" "byte ctx < int (length (bmem ctx))" "k < 7" "bitm ctx = 2 ^ (7 - k)"
  shows "BITS_get1 ctx = Some (of_bool (bit (bmem ctx ! nat (byte ctx)) (7 - k)),
     ctx\<lparr>bitm := 2 ^ (6 - k), bit_index := bit_index ctx + 1\<rparr>)"
proof -
  have "(2::int) ^ (7 - k) div 2 = 2 ^ (6 - k)"
    using assms(3) Suc_diff_le [of k 6] by simp
  then show ?thesis
    using assms by (simp add: BITS_get1_def rd_in_range mask_test Let_def)
qed

lemma BITS_get1_last:
  assumes "0 \<le> byte ctx" "byte ctx < int (length (bmem ctx))" "bitm ctx = 1"
  defines "ctx' \<equiv> ctx\<lparr>bitm := 128, byte := byte ctx + 1, bit_index := bit_index ctx + 1\<rparr>"
  shows "BITS_get1 ctx = (let b = of_bool (bit (bmem ctx ! nat (byte ctx)) 0) in
     if h264 ctx then
       if byte ctx + 1 < int (length (bmem ctx)) then
         let c = bmem ctx ! nat (byte ctx + 1) in
         Some (b, if c = 0 then ctx'\<lparr>zero_count := zero_count ctx + 1\<rparr>
           else if zero_count ctx = 2 \<and> c = 3 then ctx'\<lparr>byte := byte ctx + 2, zero_count := 0\<rparr>
           else ctx'\<lparr>zero_count := 0\<rparr>)
       else None
     else Some (b, ctx'))"
  using assms mask_test [of "bmem ctx ! nat (byte ctx)" 0]
  by (auto simp: BITS_get1_def rd_def Let_def)

lemma readable_unfold:
  assumes "0 \<le> byte ctx" "byte ctx < int (length (bmem ctx))" "k < 8" "bitm ctx = 2 ^ (7 - k)"
  shows "readable ctx =
    (let c = bmem ctx ! nat (byte ctx); rest = drop (Suc (nat (byte ctx))) (bmem ctx);
         cur = bit c (7 - k) # drop (Suc k) (byte_bits c)
     in if h264 ctx then h264_stream (zero_count ctx) cur rest else cur @ concat (map byte_bits rest))"
  using assms by (simp add: readable_def mask_pos_pow drop_byte_bits Let_def)

lemma h264_stream_Cons:
  "cur \<noteq> [] \<Longrightarrow> h264_stream zc (b # cur) rest = b # h264_stream zc cur rest"
  by (cases rest) auto

lemma BITS_get1_step_inside:
  assumes "0 \<le> byte ctx" "byte ctx < int (length (bmem ctx))" "k < 7" "bitm ctx = 2 ^ (7 - k)"
    and "readable ctx = b # bs"
  shows "\<exists>ctx'. BITS_get1 ctx = Some (of_bool b, ctx') \<and> readable ctx' = bs \<and> bits_ok ctx'"
proof -
  define ctx' where "ctx' = ctx\<lparr>bitm := 2 ^ (6 - k), bit_index := bit_index ctx + 1\<rparr>"
  let ?c = "bmem ctx ! nat (byte ctx)" and ?r = "drop (Suc (nat (byte ctx))) (bmem ctx)"
  have "drop (Suc k) (byte_bits ?c) \<noteq> []" using assms(3) by simp
  moreover have "readable ctx' = (if h264 ctx then h264_stream (zero_count ctx) (drop (Suc k) (byte_bits ?c)) ?r
      else drop (Suc k) (byte_bits ?c) @ concat (map byte_bits ?r))"
    using assms by (subst readable_unfold [where k = "Suc k"]) (auto simp: ctx'_def Let_def drop_byte_bits)
  ultimately have "readable ctx = bit ?c (7 - k) # readable ctx'"
    using assms by (subst readable_unfold [where k = k]) (auto simp: Let_def h264_stream_Cons)
  moreover have "bits_ok ctx'"
    using assms by (auto simp: bits_ok_pow ctx'_def intro!: exI [of _ "Suc k"])
  ultimately show ?thesis
    using assms BITS_get1_inside [of ctx k] by (auto simp: ctx'_def)
qed

lemma drop_Suc_nth: "i < length xs \<Longrightarrow> drop i xs = xs ! i # drop (Suc i) xs"
  by (simp add: Cons_nth_drop_Suc)

lemma readable_fresh:
  assumes "0 \<le> byte ctx" "bitm ctx = 128"
  shows "readable ctx = (case drop (nat (byte ctx)) (bmem ctx) of [] \<Rightarrow> []
     | c # cs \<Rightarrow> if h264 ctx then h264_stream (zero_count ctx) (byte_bits c) cs
                else byte_bits c @ concat (map byte_bits cs))"
  using assms by (auto simp: readable_def Let_def drop_Suc_nth nat_less_iff split: list.split)

lemma BITS_get1_step_last:
  assumes "0 \<le> byte ctx" "byte ctx < int (length (bmem ctx))" "bitm ctx = 1"
    and "readable ctx = b # bs"
  shows "\<exists>ctx'. BITS_get1 ctx = Some (of_bool b, ctx') \<and> readable ctx' = bs \<and> bits_ok ctx'"
proof -
  let ?i = "nat (byte ctx)" and ?m = "bmem ctx"
  have ne: "drop 7 (byte_bits (?m ! ?i)) = [bit (?m ! ?i) 0]" by (simp add: byte_bits_code)
  have rdbl: "readable ctx = (if h264 ctx then h264_stream (zero_count ctx) [bit (?m ! ?i) 0] (drop (Suc ?i) ?m)
      else bit (?m ! ?i) 0 # concat (map byte_bits (drop (Suc ?i) ?m)))"
    using assms(1-3) by (simp add: readable_def Let_def ne)
  have next_i: "nat (byte ctx + 1) = Suc ?i" "nat (byte ctx + 2) = Suc (Suc ?i)"
    using assms(1) by auto
  show ?thesis
  proof (cases "h264 ctx")
    case False
    then show ?thesis
      using assms rdbl
      by (auto simp: BITS_get1_last Let_def readable_fresh bits_ok_def next_i split: list.split)
  next
    case True
    with rdbl assms(4) have "drop (Suc ?i) ?m \<noteq> []" by auto
    then have "Suc ?i < length ?m" by simp
    with True rdbl assms show ?thesis
      by (auto simp: BITS_get1_last Let_def readable_fresh bits_ok_def next_i drop_Suc_nth [of "Suc ?i"]
          split: list.split if_splits)
  qed
qed

lemma BITS_get1_Nil:
  assumes "bits_ok ctx" "readable ctx = []"
  shows "BITS_get1 ctx = None"
proof (cases "byte ctx < int (length (bmem ctx))")
  case False
  then show ?thesis by (simp add: BITS_get1_def rd_def)
next
  case True
  from assms(1) obtain k where k: "k < 8" "bitm ctx = 2 ^ (7 - k)" and b0: "0 \<le> byte ctx"
    by (auto simp: bits_ok_pow)
  let ?c = "bmem ctx ! nat (byte ctx)" and ?r = "drop (Suc (nat (byte ctx))) (bmem ctx)"
  have h: "h264 ctx" "h264_stream (zero_count ctx) (bit ?c (7 - k) # drop (Suc k) (byte_bits ?c)) ?r = []"
    using assms(2) readable_unfold [OF b0 True k] by (auto simp: Let_def split: if_splits)
  then have "?r = []" "drop (Suc k) (byte_bits ?c) = []"
    by (cases ?r; auto split: if_splits)+
  then have "k = 7" "\<not> byte ctx + 1 < int (length (bmem ctx))"
    using k(1) b0 by auto
  with k b0 True h(1) show ?thesis
    by (simp add: BITS_get1_last)
qed

lemma BITS_get1_Cons:
  assumes "bits_ok ctx" "readable ctx = b # bs"
  shows "\<exists>ctx'. BITS_get1 ctx = Some (of_bool b, ctx') \<and> readable ctx' = bs \<and> bits_ok ctx'"
proof -
  from assms(2) have inside: "byte ctx < int (length (bmem ctx))"
    by (auto simp: readable_def split: if_splits)
  from assms(1) obtain k where k: "k < 8" "bitm ctx = 2 ^ (7 - k)" and b0: "0 \<le> byte ctx"
    by (auto simp: bits_ok_pow)
  show ?thesis
  proof (cases "k = 7")
    case True
    with k b0 inside assms(2) show ?thesis by (intro BITS_get1_step_last) auto
  next
    case False
    with k have "k < 7" by simp
    with k b0 inside assms(2) show ?thesis by (intro BITS_get1_step_inside) auto
  qed
qed

section \<open>The contract of a bit reader\<close>

locale bit_source =
  fixes get1 :: "'s \<Rightarrow> (u32 \<times> 's) option"
    and getn :: "'s \<Rightarrow> int \<Rightarrow> (u32 \<times> 's) option"
    and strm :: "'s \<Rightarrow> bool list"
    and ok :: "'s \<Rightarrow> bool"
  assumes get1_Cons: "ok s \<Longrightarrow> strm s = b # bs \<Longrightarrow> \<exists>s'. get1 s = Some (of_bool b, s') \<and> strm s' = bs \<and> ok s'"
    and get1_Nil: "ok s \<Longrightarrow> strm s = [] \<Longrightarrow> get1 s = None"
    and getn_zero: "getn s 0 = Some (0, s)"
    and getn_Suc: "getn s (int (Suc n)) =
      do { (x, s) \<leftarrow> getn s (int n); (b, s) \<leftarrow> get1 s; Some (push_bit 1 x OR b, s) }"
begin

lemma shift_in_bit: "push_bit 1 (word_of_nat n) OR of_bool b = (word_of_nat (2 * n + of_bool b) :: u32)"
proof -
  have "push_bit 1 (word_of_nat n :: u32) OR of_bool b = push_bit 1 (word_of_nat n) + of_bool b"
    by (rule disjunctive_add_eq_or [symmetric], rule bit_eqI) (simp only: bit_simps, auto)
  then show ?thesis by (simp add: push_bit_eq_mult)
qed

lemma getn_value:
  assumes "ok s" "n \<le> length (strm s)"
  shows "\<exists>s'. getn s (int n) = Some (word_of_nat (bval (take n (strm s))), s')
           \<and> strm s' = drop n (strm s) \<and> ok s'"
  using assms(2)
proof (induction n)
  case 0
  then show ?case using assms(1) getn_zero by simp
next
  case (Suc n)
  then obtain s1 where s1: "getn s (int n) = Some (word_of_nat (bval (take n (strm s))), s1)"
    "strm s1 = drop n (strm s)" "ok s1" by auto
  have "drop n (strm s) = strm s ! n # drop (Suc n) (strm s)"
    using Suc.prems by (simp add: Cons_nth_drop_Suc)
  with s1 obtain s2 where "get1 s1 = Some (of_bool (strm s ! n), s2)"
    "strm s2 = drop (Suc n) (strm s)" "ok s2"
    using get1_Cons by metis
  with s1 Suc.prems show ?case
    unfolding getn_Suc
    by (simp only: bind.bind_lunit prod.case shift_in_bit take_Suc_conv_app_nth bval_snoc) simp
qed

lemma getn_short:
  assumes "ok s" "length (strm s) < n"
  shows "getn s (int n) = None"
  using assms(2)
proof (induction n)
  case (Suc n)
  show ?case
  proof (cases "length (strm s) < n")
    case True
    then show ?thesis using Suc.IH by (simp only: getn_Suc) simp
  next
    case False
    then have n: "n = length (strm s)" using Suc.prems by simp
    then obtain s1 where "getn s (int n) = Some (word_of_nat (bval (take n (strm s))), s1)"
      "strm s1 = []" "ok s1" using getn_value [OF assms(1), of n] by auto
    then show ?thesis using get1_Nil by (simp only: getn_Suc) simp
  qed
qed simp

lemma getn_1: "getn s 1 = get1 s"
  using getn_Suc [of s 0] getn_zero [of s] by (cases "get1 s") auto

lemma getn_exact:
  assumes "ok s" "strm s = bs @ rest" "n = int (length bs)"
  shows "\<exists>s'. getn s n = Some (word_of_nat (bval bs), s') \<and> strm s' = rest \<and> ok s'"
  using getn_value [OF assms(1), of "length bs"] assms(2,3) by simp

end

lemma BITS_get_loop_snoc:
  "BITS_get_loop ctx (Suc n) b =
     do { (x, ctx) \<leftarrow> BITS_get_loop ctx n b; (y, ctx) \<leftarrow> BITS_get1 ctx; Some (push_bit 1 x OR y, ctx) }"
proof (induction n arbitrary: ctx b)
  case 0
  then show ?case by (cases "BITS_get1 ctx") auto
next
  case (Suc n)
  show ?case
  proof (cases "BITS_get1 ctx")
    case (Some p)
    then have "BITS_get_loop ctx (Suc (Suc n)) b = BITS_get_loop (snd p) (Suc n) (push_bit 1 b OR fst p)"
      by (subst BITS_get_loop.simps(2)) (simp only: case_prod_beta bind.bind_lunit)
    also have "\<dots> = do { (x, ctx) \<leftarrow> BITS_get_loop (snd p) n (push_bit 1 b OR fst p);
        (y, ctx) \<leftarrow> BITS_get1 ctx; Some (push_bit 1 x OR y, ctx) }"
      by (rule Suc.IH)
    also have "\<dots> = do { (x, ctx) \<leftarrow> BITS_get_loop ctx (Suc n) b; (y, ctx) \<leftarrow> BITS_get1 ctx;
        Some (push_bit 1 x OR y, ctx) }"
      by (subst BITS_get_loop.simps(2)) (simp only: Some case_prod_beta bind.bind_lunit)
    finally show ?thesis .
  qed simp
qed

interpretation br: bit_source BITS_get1 BITS_get readable bits_ok
proof
  show "BITS_get s (int (Suc n)) = do { (x, s) \<leftarrow> BITS_get s (int n); (b, s) \<leftarrow> BITS_get1 s;
      Some (push_bit 1 x OR b, s) }" for s n
    unfolding BITS_get_def by (simp only: BITS_get_loop_snoc nat_int) simp
qed (auto simp: BITS_get1_Cons BITS_get1_Nil BITS_get_def)

section \<open>Reading several bits\<close>

lemma bits_ok_init: "bits_ok (BITS_init data sz)"
  by (simp add: bits_ok_def BITS_init_def)

lemma readable_init: "readable (BITS_init data sz) = concat (map byte_bits data)"
  by (cases data) (auto simp: readable_def BITS_init_def)

text \<open>
  C15. On a well-formed reader BITS_get of n bits succeeds exactly when n bits are left before
  the end of the memory; it then returns those bits as a number, most significant first, modulo
  the 32 bits of the result, and leaves the reader exactly behind them. With fewer bits left it
  reads outside the memory.
\<close>

theorem BITS_get_value:
  assumes "bits_ok ctx"
  shows "(n \<le> length (readable ctx) \<longrightarrow>
      (\<exists>ctx'. BITS_get ctx (int n) = Some (word_of_nat (bval (take n (readable ctx))), ctx')
        \<and> readable ctx' = drop n (readable ctx) \<and> bits_ok ctx'))
    \<and> (length (readable ctx) < n \<longrightarrow> BITS_get ctx (int n) = None)"
  using br.getn_value [OF assms] br.getn_short [OF assms] by blast

theorem BITS_get_value_witness:
  "\<exists>ctx'. BITS_get (BITS_init [0xA5, 0x3C] 2) 12 = Some (0xA53, ctx') \<and> readable ctx' = [True, True, False, False]"
proof -
  have r: "readable (BITS_init [0xA5, 0x3C] 2)
      = [True, False, True, False, False, True, False, True, False, False, True, True, True, True, False, False]"
    unfolding readable_init by (simp add: byte_bits_code)
  show ?thesis
    using BITS_get_value [OF bits_ok_init [of "[0xA5, 0x3C]" 2], where n = 12]
    unfolding r by (auto simp: bval_def)
qed

section \<open>Emulation prevention\<close>

text \<open>
  The decoding rule of the H.264 specification: in a NAL unit a byte 3 after two (or more) zero
  bytes is dropped.
\<close>

fun unescape :: "nat \<Rightarrow> u8 list \<Rightarrow> u8 list" where
  "unescape z [] = []"
| "unescape z (c # cs) = (if 2 \<le> z \<and> c = 3 then unescape 0 cs
     else c # unescape (if c = 0 then Suc z else 0) cs)"

lemma suffix_replicate_snoc: "suffix (xs @ replicate z x) pre \<Longrightarrow> suffix (xs @ replicate (Suc z) x) (pre @ [x])"
  by (auto simp: suffix_def replicate_append_same)

lemma sublist_of_suffix: "suffix xs pre \<Longrightarrow> sublist xs (pre @ cs)"
  by (metis sublist_appendI sublist_order.order.trans suffix_imp_sublist sublist_append_rightI)

text \<open>
  track zc z pre: after the bytes pre the reader counts zc zeros
  and the specification z; they differ by the uncounted byte behind a dropped 3.
\<close>

definition track :: "nat \<Rightarrow> nat \<Rightarrow> u8 list \<Rightarrow> bool" where
  "track zc z pre \<longleftrightarrow> z \<le> 2 \<and> (zc = z \<and> suffix (replicate z 0) pre
     \<or> z = Suc zc \<and> suffix ([0, 0, 3] @ replicate z 0) pre)"

lemma track_zero: "track 0 0 pre"
  by (simp add: track_def)

lemma track_zeros: "track zc z pre \<Longrightarrow> suffix (replicate z 0) pre"
  unfolding track_def suffix_def by (auto intro: exI [of _ "_ @ [0, 0, 3]"])

lemma track_step:
  assumes "track zc z pre" "\<not> sublist [0, 0, 0] (pre @ 0 # cs)"
  shows "track (Suc zc) (Suc z) (pre @ [0])"
proof -
  have "z \<noteq> 2"
  proof
    assume "z = 2"
    with assms(1) have "suffix ([] @ replicate (Suc 2) 0) (pre @ [0])"
      by (intro suffix_replicate_snoc) (simp add: track_zeros)
    then have "sublist [0, 0, 0] ((pre @ [0]) @ cs)" by (intro sublist_of_suffix) (simp add: numeral_eq_Suc)
    with assms(2) show False by simp
  qed
  with assms(1) show ?thesis
    using suffix_replicate_snoc [of "[]" z 0 pre] suffix_replicate_snoc [of "[0, 0, 3]" z 0 pre]
    by (auto simp: track_def)
qed

lemma track_drop:
  assumes "track zc z pre" "\<not> sublist [0, 0, 3, 0, 0, 3] (pre @ 3 # cs)" "z = 2"
  shows "zc = 2" and "suffix [0, 0, 3] (pre @ [3])"
proof -
  show "zc = 2"
  proof (rule ccontr)
    assume "zc \<noteq> 2"
    with assms(1,3) have "suffix [0, 0, 3, 0, 0, 3] (pre @ [3])"
      by (auto simp: track_def suffix_def numeral_eq_Suc)
    then have "sublist [0, 0, 3, 0, 0, 3] ((pre @ [3]) @ cs)" by (rule sublist_of_suffix)
    with assms(2) show False by simp
  qed
  show "suffix [0, 0, 3] (pre @ [3])"
    using track_zeros [OF assms(1)] assms(3) by (auto simp: suffix_def numeral_eq_Suc)
qed

lemma butlast_append_ne: "ys \<noteq> [] \<Longrightarrow> butlast (xs @ ys) = xs @ butlast ys"
  by (simp add: butlast_append)

lemma byte_bits_ne [simp]: "byte_bits c \<noteq> []"
  by (simp add: byte_bits_code)

lemma h264_stream_unescape:
  assumes "track zc z pre" "\<not> sublist [0, 0, 0] (pre @ cs)" "\<not> sublist [0, 0, 3, 0, 0, 3] (pre @ cs)"
    "\<not> suffix [0, 0, 3] (pre @ cs)" "cur \<noteq> []"
  shows "h264_stream (of_nat zc) cur cs = butlast (cur @ concat (map byte_bits (unescape z cs)))"
  using assms
proof (induction "length cs" arbitrary: zc z pre cur cs rule: less_induct)
  case less
  have z2: "z \<le> 2" "zc \<le> z" using less.prems(1) by (auto simp: track_def)
  have unfold_step: "h264_stream (of_nat zc') (byte_bits c) cs' = butlast (byte_bits c @ concat (map byte_bits (unescape z' cs')))"
    if "track zc' z' pre'" "pre' @ cs' = pre @ cs" "length cs' < length cs" for zc' z' pre' cs' c
    by (rule less.hyps [OF that(3), of zc' z' pre']) (use that less.prems in auto)
  show ?case
  proof (cases cs)
    case Nil
    then show ?thesis by simp
  next
    case (Cons c cs')
    consider "c = 0" | "c = 3" "z = 2" | "c \<noteq> 0" "c = 3 \<longrightarrow> z \<noteq> 2" by auto
    then show ?thesis
    proof cases
      case 1
      have "track (Suc zc) (Suc z) (pre @ [0])"
        using track_step [OF less.prems(1)] less.prems(2) Cons 1 by simp
      moreover have "(0::u8) \<noteq> 3" by simp
      ultimately show ?thesis using unfold_step [of "Suc zc" "Suc z" "pre @ [0]" cs'] Cons 1
        by (simp only: h264_stream.simps unescape.simps) (simp add: butlast_append_ne add.commute)
    next
      case 2
      note d = track_drop [OF less.prems(1), of cs', OF _ 2(2)]
      have zc: "zc = 2" "suffix [0, 0, 3] (pre @ [3])" using d less.prems(3) Cons 2 by auto
      then obtain e es where cs': "cs' = e # es"
        using less.prems(4) Cons 2(1) by (cases cs') auto
      have "track 0 (if e = 0 then 1 else 0) (pre @ [3, e])"
        using zc(2) suffix_replicate_snoc [of "[0, 0, 3]" 0 0 "pre @ [3]"] by (auto simp: track_def)
      from unfold_step [OF this, of es] zc Cons cs' 2 show ?thesis
        by (simp add: butlast_append_ne)
    next
      case 3
      have "h264_stream (of_nat 0) (byte_bits c) cs' = butlast (byte_bits c @ concat (map byte_bits (unescape 0 cs')))"
        by (rule unfold_step [OF track_zero, of "pre @ [c]"]) (use Cons in auto)
      moreover have "\<not> (of_nat zc = (2::u8) \<and> c = 3)"
        using 3 z2 by (auto simp: le_Suc_eq numeral_eq_Suc)
      moreover have "\<not> (2 \<le> z \<and> c = 3)" using 3 z2 by auto
      ultimately show ?thesis
        using Cons 3 by (simp only: h264_stream.simps unescape.simps) (cases "c = 3"; simp add: butlast_append_ne)
    qed
  qed
qed

text \<open>A sequence of reads, and the values of consecutive fields of a bit list.\<close>

fun BITS_gets :: "bits \<Rightarrow> nat list \<Rightarrow> (u32 list \<times> bits) option" where
  "BITS_gets ctx [] = Some ([], ctx)"
| "BITS_gets ctx (n # ns) = do {
     (v, ctx) \<leftarrow> BITS_get ctx (int n);
     (vs, ctx) \<leftarrow> BITS_gets ctx ns;
     Some (v # vs, ctx) }"

fun bit_fields :: "nat list \<Rightarrow> bool list \<Rightarrow> u32 list" where
  "bit_fields [] bs = []"
| "bit_fields (n # ns) bs = word_of_nat (bval (take n bs)) # bit_fields ns (drop n bs)"

lemma BITS_gets_fields:
  assumes "bits_ok ctx"
  shows "map_option fst (BITS_gets ctx ns) = (if sum_list ns \<le> length (readable ctx) then Some (bit_fields ns (readable ctx)) else None)"
  using assms
proof (induction ns arbitrary: ctx)
  case (Cons n ns)
  show ?case
  proof (cases "n \<le> length (readable ctx)")
    case True
    then obtain c where c: "BITS_get ctx (int n) = Some (word_of_nat (bval (take n (readable ctx))), c)"
      "readable c = drop n (readable ctx)" "bits_ok c"
      using br.getn_value [OF Cons.prems] by blast
    then show ?thesis using Cons.IH [OF c(3)] True
      by (cases "BITS_gets c ns") (auto split: if_splits)
  next
    case False
    then show ?thesis using br.getn_short [OF Cons.prems] by auto
  qed
qed simp

lemma length_concat_bytes: "length (concat (map byte_bits cs)) = 8 * length cs"
  by (induction cs) simp_all

lemma bit_fields_take: "sum_list ns \<le> k \<Longrightarrow> bit_fields ns (take k bs) = bit_fields ns bs"
  by (induction ns arbitrary: k bs) (auto simp: drop_take min_def)

text \<open>
  C14. Emulation prevention. On a NAL unit without three consecutive zero bytes, not ending in
  0 0 3 and without two emulation prevention bytes in the same run of zeros (0 0 3 0 0 3), the
  H.264 reader set up by BITS_init_h264 returns, for every sequence of BITS_get calls, what the plain reader
  returns on the bytes that remain when the specification's emulation prevention bytes are
  dropped: the fields of their bits. Only a read up to the very last bit fails: taking the last bit of a byte reads the
  byte behind it.
\<close>

theorem h264_reader_unescapes:
  assumes "data \<noteq> []" "\<not> sublist [0, 0, 0] data" "\<not> sublist [0, 0, 3, 0, 0, 3] data" "\<not> suffix [0, 0, 3] data"
  defines "raw \<equiv> unescape 0 data"
  shows "\<exists>ctx. BITS_init_h264 data sz = Some ctx \<and> (\<forall>ns.
    if sum_list ns < 8 * length raw
    then map_option fst (BITS_gets ctx ns) = Some (bit_fields ns (concat (map byte_bits raw)))
      \<and> map_option fst (BITS_gets ctx ns) = map_option fst (BITS_gets (BITS_init raw sz) ns)
    else BITS_gets ctx ns = None)"
proof -
  obtain c cs where data: "data = c # cs" using assms(1) by (cases data) auto
  have "track (if c = 0 then 1 else 0) (if c = 0 then 1 else 0) [c]"
    by (simp add: track_def suffix_def)
  from h264_stream_unescape [OF this, of cs "byte_bits c"] assms data
  have "\<exists>ctx. BITS_init_h264 data sz = Some ctx \<and> bits_ok ctx \<and> readable ctx = butlast (concat (map byte_bits raw))"
    by (auto simp: BITS_init_h264_def readable_def bits_ok_def raw_def)
  then obtain ctx where ctx: "BITS_init_h264 data sz = Some ctx" "bits_ok ctx" "readable ctx = butlast (concat (map byte_bits raw))"
    by blast
  let ?B = "concat (map byte_bits raw)"
  have len: "length (readable ctx) = 8 * length raw - 1" "0 < length raw"
    using ctx(3) data by (simp_all add: raw_def length_concat_bytes)
  have f: "bit_fields ns (readable ctx) = bit_fields ns ?B" if "sum_list ns < 8 * length raw" for ns
    using that bit_fields_take [of ns "8 * length raw - 1" ?B] by (simp add: ctx(3) butlast_conv_take length_concat_bytes)
  note g = BITS_gets_fields [OF ctx(2)] and h = BITS_gets_fields [OF bits_ok_init [of raw sz], unfolded readable_init]
  have "if sum_list ns < 8 * length raw
    then map_option fst (BITS_gets ctx ns) = Some (bit_fields ns ?B)
      \<and> map_option fst (BITS_gets ctx ns) = map_option fst (BITS_gets (BITS_init raw sz) ns)
    else BITS_gets ctx ns = None" for ns
  proof (cases "sum_list ns < 8 * length raw")
    case True
    then have "sum_list ns \<le> length (readable ctx)" "sum_list ns \<le> length ?B" using len by (simp_all add: length_concat_bytes)
    then show ?thesis using True g [of ns] h [of ns] f [of ns] by (simp del: map_option_eq_Some)
  next
    case False
    then have "\<not> sum_list ns \<le> length (readable ctx)" using len by linarith
    then show ?thesis using False g [of ns] by simp
  qed
  then show ?thesis using ctx(1) by blast
qed

theorem h264_reader_unescapes_witness:
  "\<exists>ctx. BITS_init_h264 [0x65, 0, 0, 3, 1, 0x80] 6 = Some ctx \<and> map_option fst (BITS_gets ctx [8, 20, 11]) = Some [0x65, 0, 0xC0]"
proof -
  have u: "unescape 0 [0x65, 0, 0, 3, 1, 0x80] = [0x65, 0, 0, 1, 0x80]" by simp
  have "\<not> sublist [0, 0, 0] [0x65, 0, 0, 3, 1, 0x80 :: u8]" "\<not> sublist [0, 0, 3, 0, 0, 3] [0x65, 0, 0, 3, 1, 0x80 :: u8]"
    "\<not> suffix [0, 0, 3] [0x65, 0, 0, 3, 1, 0x80 :: u8]" by (simp_all add: sublist_code suffix_def)
  from h264_reader_unescapes [OF _ this, of 6, unfolded u] obtain ctx where
    c: "BITS_init_h264 [0x65, 0, 0, 3, 1, 0x80] 6 = Some ctx"
    "\<And>ns. sum_list ns < 40 \<Longrightarrow> map_option fst (BITS_gets ctx ns) = Some (bit_fields ns (concat (map byte_bits [0x65, 0, 0, 1, 0x80])))"
    by (auto split: if_splits)
  have "map_option fst (BITS_gets ctx [8, 20, 11]) = Some [0x65, 0, 0xC0]"
    using c(2) [of "[8, 20, 11]"] by (simp add: byte_bits_code bval_def)
  then show ?thesis using c(1) by blast
qed

text \<open>
  Two emulation prevention bytes in one run of zeros: the escaped form 0 0 3 0 0 3 1 of the
  payload 0 0 0 0 1 is not decoded as the specification says. The byte behind a dropped 3 is
  not counted, so the second 3 stays in the delivered bits.
\<close>

theorem h264_reader_keeps_second_escape:
  "map_option (\<lambda>ctx. take 48 (readable ctx)) (BITS_init_h264 [0, 0, 3, 0, 0, 3, 1, 0x80] 8)
     = Some (concat (map byte_bits [0, 0, 0, 0, 3, 1]))
   \<and> unescape 0 [0, 0, 3, 0, 0, 3, 1, 0x80] = [0, 0, 0, 0, 1, 0x80]"
  by (simp add: BITS_init_h264_def readable_def byte_bits_code rd_def)

section \<open>Skipping\<close>

lemma readable_skip1:
  assumes "bits_ok ctx" "\<not> h264 ctx"
  shows "readable (skip1 ctx) = drop 1 (readable ctx)" "bits_ok (skip1 ctx)" "\<not> h264 (skip1 ctx)"
proof -
  from assms(1) obtain k where k: "k < 8" "bitm ctx = 2 ^ (7 - k)" "mask_pos (bitm ctx) = k" and b0: "0 \<le> byte ctx"
    by (metis bits_ok_cases bits_ok_def)
  have half: "k < 7 \<Longrightarrow> (2::int) ^ (7 - k) div 2 = 2 ^ (7 - Suc k)"
    using Suc_diff_le [of "Suc k" 7] by (simp add: Suc_diff_Suc)
  have next_byte: "nat (byte ctx + 1) = Suc (nat (byte ctx))" using b0 by simp
  show "readable (skip1 ctx) = drop 1 (readable ctx)"
  proof (cases "k = 7")
    case True
    have "drop 7 (byte_bits c) = [bit c 0]" for c by (simp add: byte_bits_code)
    then show ?thesis
      using True k b0 assms(2)
      by (auto simp: skip1_def readable_def next_byte drop_Suc_nth [of "Suc (nat (byte ctx))"] nat_less_iff)
  next
    case False
    with k have "k < 7" by simp
    moreover have "mask_pos (2 ^ (6 - k)) = Suc k"
      using mask_pos_pow [of "Suc k"] \<open>k < 7\<close> by simp
    ultimately show ?thesis
      using k assms(2) half by (auto simp: skip1_def readable_def drop_byte_bits)
  qed
  show "bits_ok (skip1 ctx)"
    using assms(1) by (auto simp: bits_ok_def skip1_def)
  show "\<not> h264 (skip1 ctx)"
    using assms(2) by (simp add: skip1_def Let_def)
qed

lemma readable_skip1_funpow:
  assumes "bits_ok ctx" "\<not> h264 ctx"
  shows "readable ((skip1 ^^ n) ctx) = drop n (readable ctx) \<and> bits_ok ((skip1 ^^ n) ctx) \<and> \<not> h264 ((skip1 ^^ n) ctx)"
  by (induction n) (use assms in \<open>auto simp: readable_skip1 drop_drop\<close>)

lemma skip_unaligned_split:
  "\<exists>k\<le>n. skip_unaligned ctx n = (n - k, (skip1 ^^ k) ctx) \<and> (k = n \<or> bitm ((skip1 ^^ k) ctx) = 128)"
proof (induction n arbitrary: ctx)
  case (Suc n)
  show ?case
  proof (cases "bitm ctx = 128")
    case False
    from Suc.IH [of "skip1 ctx"] obtain k where "k \<le> n"
      "skip_unaligned (skip1 ctx) n = (n - k, (skip1 ^^ k) (skip1 ctx))"
      "k = n \<or> bitm ((skip1 ^^ k) (skip1 ctx)) = 128" by blast
    with False show ?thesis
      by (intro exI [of _ "Suc k"]) (auto simp: funpow_swap1)
  qed (auto intro: exI [of _ 0])
qed simp

lemma skip_unaligned_aligned: "bitm ctx = 128 \<Longrightarrow> skip_unaligned ctx n = (n, ctx)"
  by (cases n) auto

lemma drop_concat_bytes: "drop (8 * n) (concat (map byte_bits cs)) = concat (map byte_bits (drop n cs))"
proof (induction n arbitrary: cs)
  case (Suc n)
  then show ?case by (cases cs) (auto simp: drop_append)
qed simp

lemma readable_aligned: "0 \<le> byte ctx \<Longrightarrow> bitm ctx = 128 \<Longrightarrow> \<not> h264 ctx \<Longrightarrow>
    readable ctx = concat (map byte_bits (drop (nat (byte ctx)) (bmem ctx)))"
  by (simp add: readable_fresh split: list.split)

text \<open>
  BITS_skip: on a reader without emulation prevention, skipping count bits leaves exactly
  the bits that reading them one by one would leave, whether the skip starts inside a byte,
  runs over whole bytes or ends inside one; it never touches the memory.
\<close>

theorem BITS_skip_drops:
  assumes "bits_ok ctx" "\<not> h264 ctx"
  shows "readable (BITS_skip ctx n) = drop n (readable ctx) \<and> bits_ok (BITS_skip ctx n)"
proof -
  obtain k where k: "k \<le> n" "skip_unaligned ctx n = (n - k, (skip1 ^^ k) ctx)"
    "k = n \<or> bitm ((skip1 ^^ k) ctx) = 128"
    using skip_unaligned_split by blast
  define c1 where "c1 = (skip1 ^^ k) ctx"
  define q where "q = (n - k) div 8"
  define c2 where "c2 = (if 8 \<le> n - k then c1\<lparr>byte := byte c1 + int q, bit_index := bit_index c1 + 8\<rparr> else c1)"
  have c1: "readable c1 = drop k (readable ctx)" "bits_ok c1" "\<not> h264 c1"
    using readable_skip1_funpow [OF assms] by (auto simp: c1_def)
  have c2: "bits_ok c2" "\<not> h264 c2"
    using c1 by (auto simp: c2_def bits_ok_def)
  have q: "n - k - q * 8 + 8 * q = n - k" by (simp add: q_def)
  have r2: "readable c2 = drop (8 * q) (readable c1)"
  proof (cases "8 \<le> n - k")
    case True
    with k(3) have "bitm c1 = 128" by (auto simp: c1_def)
    with c1(2,3) True show ?thesis
      by (auto simp: c2_def bits_ok_def readable_aligned drop_concat_bytes drop_drop nat_add_distrib add.commute)
  qed (simp add: c2_def q_def)
  have "BITS_skip ctx n = (skip1 ^^ (n - k - q * 8)) c2"
    unfolding BITS_skip_def k(2) by (simp add: c2_def c1_def q_def)
  then show ?thesis
    using readable_skip1_funpow [OF c2, of "n - k - q * 8"] q k(1)
    unfolding r2 c1(1) drop_drop by simp
qed

theorem BITS_skip_drops_witness:
  "readable (BITS_skip (BITS_init [1, 2, 0xF0] 3) 19) = [True, False, False, False, False]"
proof -
  have nh: "\<not> h264 (BITS_init [1, 2, 0xF0] 3)" by (simp add: BITS_init_def)
  have r: "drop 19 (concat (map byte_bits [1, 2, 0xF0])) = [True, False, False, False, False]"
    by (simp add: byte_bits_code)
  show ?thesis
    using BITS_skip_drops [OF bits_ok_init nh, of 19] unfolding readable_init r by blast
qed

text \<open>
  The index counter after BITS_skip: skipping 24 bits from the start of a buffer advances
  the position by three bytes but the bit index by 8 only.
\<close>

theorem BITS_skip_index:
  "byte (BITS_skip (BITS_init data sz) 24) = 3 \<and> bit_index (BITS_skip (BITS_init data sz) 24) = 8"
  by (simp add: BITS_skip_def BITS_init_def skip_unaligned_aligned)

end
