(* ===== verification/Ring.thy ===== *)
theory Ring
  imports Prelude
begin

text \<open>
  Circular storage, the mathematics behind the program's ring buffers (PIPE, CIRCULAR_BUFFER,
  CBE, STREAM_BUFFER): the list stored from a read position onwards, storing at a write
  position with wrap-around, and the contract of a bounded byte queue with the lemmas its
  clients use.
\<close>

definition ring_slice :: "'a list \<Rightarrow> nat \<Rightarrow> nat \<Rightarrow> 'a list" where
  "ring_slice d r n = take n (rotate r d)"

definition ring_store :: "'a list \<Rightarrow> nat \<Rightarrow> 'a list \<Rightarrow> 'a list" where
  "ring_store d w xs = (if w + length xs \<le> length d then put_at d w xs
     else put_at (put_at d w (take (length d - w) xs)) 0 (drop (length d - w) xs))"

definition ring_used :: "nat \<Rightarrow> nat \<Rightarrow> nat \<Rightarrow> nat" where
  "ring_used N r w = (if r \<le> w then w - r else w + N - r)"

lemma length_ring_slice [simp]: "n \<le> length d \<Longrightarrow> length (ring_slice d r n) = n"
  by (simp add: ring_slice_def)

lemma nth_ring_slice: "i < n \<Longrightarrow> n \<le> length d \<Longrightarrow> ring_slice d r n ! i = d ! ((r + i) mod length d)"
  by (simp add: ring_slice_def nth_rotate)

lemma ring_slice_0 [simp]: "ring_slice d r 0 = []"
  by (simp add: ring_slice_def)

lemma ring_slice_two_parts:
  assumes "r < length d" "n \<le> length d"
  shows "ring_slice d r n = (if r + n \<le> length d then take n (drop r d) else drop r d @ take (r + n - length d) d)"
  using assms by (auto simp: ring_slice_def rotate_drop_take take_take min_def add.commute)

lemma ring_slice_drop:
  assumes "k \<le> n" "n \<le> length d"
  shows "drop k (ring_slice d r n) = ring_slice d ((r + k) mod length d) (n - k)"
proof (rule nth_equalityI)
  fix i assume "i < length (drop k (ring_slice d r n))"
  then have i: "i < n - k" using assms by simp
  then show "drop k (ring_slice d r n) ! i = ring_slice d ((r + k) mod length d) (n - k) ! i"
    using assms by (simp add: nth_ring_slice mod_add_left_eq add.assoc)
qed (use assms in simp)

lemma ring_slice_take: "k \<le> n \<Longrightarrow> take k (ring_slice d r n) = ring_slice d r k"
  by (simp add: ring_slice_def min_def)

lemma mod_cases:
  fixes a N :: nat
  assumes "a < 2 * N"
  shows "a mod N = (if a < N then a else a - N)"
  using assms by (simp add: mod_if)

lemma length_ring_store [simp]:
  "w \<le> length d \<Longrightarrow> length xs \<le> length d \<Longrightarrow> length (ring_store d w xs) = length d"
  by (simp add: ring_store_def)

lemma nth_ring_store:
  assumes "w < length d" "length xs \<le> length d" "i < length d"
  shows "ring_store d w xs ! i =
    (let j = if w \<le> i then i - w else i + length d - w in if j < length xs then xs ! j else d ! i)"
proof -
  have "length d - w + i = i + length d - w" using assms by simp
  then show ?thesis
    using assms by (auto simp: ring_store_def nth_put_at Let_def)
qed

lemma ring_store_appends:
  assumes "r < length d" "n + length xs \<le> length d" "w = (r + n) mod length d"
  shows "ring_slice (ring_store d w xs) r (n + length xs) = ring_slice d r n @ xs"
proof (rule nth_equalityI)
  let ?N = "length d"
  have w: "w < ?N" unfolding assms(3) by (rule mod_less_divisor) (use assms(1) in linarith)
  have len: "length (ring_store d w xs) = ?N" using w assms by simp
  fix i assume "i < length (ring_slice (ring_store d w xs) r (n + length xs))"
  then have i: "i < n + length xs" using assms len by simp
  define p where "p = (r + i) mod ?N"
  have p: "p = (if r + i < ?N then r + i else r + i - ?N)" "p < ?N"
    using i assms by (auto simp: p_def mod_cases)
  have wv: "w = (if r + n < ?N then r + n else r + n - ?N)"
    using assms by (simp add: mod_cases)
  have lhs: "ring_slice (ring_store d w xs) r (n + length xs) ! i = ring_store d w xs ! p"
    using i assms len by (simp add: nth_ring_slice p_def)
  show "ring_slice (ring_store d w xs) r (n + length xs) ! i = (ring_slice d r n @ xs) ! i"
  proof (cases "i < n")
    case True
    then have "ring_store d w xs ! p = d ! p"
      using p wv assms nth_ring_store [OF w _ p(2), of xs] by (auto simp: Let_def split: if_splits)
    then show ?thesis using True lhs assms by (simp add: nth_append nth_ring_slice p_def)
  next
    case False
    then have "(if w \<le> p then p - w else p + ?N - w) = i - n"
      using p wv assms i by (auto split: if_splits)
    moreover have "i - n < length xs" using False i by simp
    ultimately have "ring_store d w xs ! p = xs ! (i - n)"
      using nth_ring_store [OF w _ p(2), of xs] assms(2) by (simp add: Let_def)
    then show ?thesis using False lhs assms by (simp add: nth_append)
  qed
next
  have "w \<le> length d" unfolding assms(3) by (rule less_imp_le, rule mod_less_divisor) (use assms(1) in linarith)
  then show "length (ring_slice (ring_store d w xs) r (n + length xs)) = length (ring_slice d r n @ xs)"
    using assms(2) by simp
qed

lemma ring_used_less: "r < N \<Longrightarrow> w < N \<Longrightarrow> ring_used N r w < N"
  by (auto simp: ring_used_def)

lemma ring_used_write: "r < N \<Longrightarrow> w < N \<Longrightarrow> (r + ring_used N r w) mod N = w"
  by (auto simp: ring_used_def)

lemma ring_used_eqI: "r < N \<Longrightarrow> n < N \<Longrightarrow> w = (r + n) mod N \<Longrightarrow> ring_used N r w = n"
  by (auto simp: ring_used_def mod_cases split: if_splits)

lemma ring_write_advance:
  assumes "r < N" "w < N"
  shows "(r + (ring_used N r w + n)) mod N = (w + n) mod N"
  using ring_used_write [OF assms] by (metis add.assoc mod_add_left_eq)

lemma ring_read_advance:
  assumes "r < N" "w < N" "n \<le> ring_used N r w"
  shows "((r + n) mod N + (ring_used N r w - n)) mod N = w"
proof -
  have "((r + n) mod N + (ring_used N r w - n)) mod N = (r + n + (ring_used N r w - n)) mod N"
    by (rule mod_add_left_eq)
  then show ?thesis using ring_used_write [OF assms(1,2)] assms(3) by simp
qed

lemma ring_used_same [simp]: "ring_used N r r = 0"
  by (simp add: ring_used_def)

text \<open>The bytes stored between a read and a write position (at most all but one).\<close>

definition ring_content :: "'a list \<Rightarrow> nat \<Rightarrow> nat \<Rightarrow> 'a list" where
  "ring_content d r w = ring_slice d r (ring_used (length d) r w)"

lemma length_ring_content:
  "r < length d \<Longrightarrow> w < length d \<Longrightarrow> length (ring_content d r w) = ring_used (length d) r w"
  using ring_used_less [of r "length d" w] by (simp add: ring_content_def)

lemma ring_content_same [simp]: "ring_content d r r = []"
  by (simp add: ring_content_def)

lemma ring_content_read:
  assumes "r < length d" "w < length d" "n \<le> ring_used (length d) r w"
  shows "ring_content d ((r + n) mod length d) w = drop n (ring_content d r w)"
proof -
  have "ring_used (length d) r w < length d" using assms(1,2) by (rule ring_used_less)
  moreover have "0 < length d" using assms(1) by linarith
  ultimately have "ring_used (length d) ((r + n) mod length d) w = ring_used (length d) r w - n"
    using ring_read_advance [OF assms] by (intro ring_used_eqI) auto
  then show ?thesis
    using assms ring_used_less [OF assms(1,2)] by (simp add: ring_content_def ring_slice_drop)
qed

lemma ring_content_take:
  assumes "r < length d" "w < length d" "n \<le> ring_used (length d) r w"
  shows "take n (ring_content d r w)
    = (if r + n \<le> length d then take n (drop r d) else drop r d @ take (r + n - length d) d)"
  using assms ring_used_less [OF assms(1,2)]
  by (simp add: ring_content_def ring_slice_take [of n] ring_slice_two_parts [of r d n])

lemma ring_content_write:
  assumes "r < length d" "w < length d" "ring_used (length d) r w + length xs < length d"
  shows "ring_content (ring_store d w xs) r ((w + length xs) mod length d) = ring_content d r w @ xs"
proof -
  have "ring_used (length d) r ((w + length xs) mod length d) = ring_used (length d) r w + length xs"
    using ring_write_advance [OF assms(1,2)] assms by (intro ring_used_eqI) auto
  moreover have "length (ring_store d w xs) = length d" using assms by simp
  ultimately show ?thesis
    using assms ring_store_appends [OF assms(1), of "ring_used (length d) r w" xs w] ring_used_write [OF assms(1,2)]
    by (simp add: ring_content_def)
qed

section \<open>A ring whose first cells are repeated behind it\<close>

text \<open>
  A write seen cell by cell: cell i of the memory, in the ring or in the overlap,
  stands for ring position i mod size.
\<close>

definition cell_after :: "u8 list \<Rightarrow> nat \<Rightarrow> nat \<Rightarrow> u8 list \<Rightarrow> nat \<Rightarrow> u8" where
  "cell_after d N w xs i =
     (let j = (if i < N then i else i - N); off = (if w \<le> j then j - w else j + N - w)
      in if off < length xs then xs ! off else d ! i)"

lemma put_with_overlap:
  assumes "length d = N + ov" "ov \<le> N" "w < N" "w + length xs \<le> N" "i < N + ov"
  shows "(if w < ov then put_at (put_at d w xs) (N + w) (take (ov - w) xs) else put_at d w xs) ! i
    = cell_after d N w xs i"
proof -
  have d1: "put_at d w xs ! i = (if w \<le> i \<and> i < w + length xs then xs ! (i - w) else d ! i)"
    "length (put_at d w xs) = N + ov"
    using assms by (simp_all add: nth_put_at)
  have d2: "put_at (put_at d w xs) (N + w) (take (ov - w) xs) ! i
      = (if N + w \<le> i \<and> i < N + w + length (take (ov - w) xs) then take (ov - w) xs ! (i - (N + w)) else put_at d w xs ! i)"
    if "w < ov" using assms that d1(2) by (subst nth_put_at) auto
  show ?thesis
  proof (cases "i < N")
    case True
    then show ?thesis using assms d1 d2 by (auto simp: cell_after_def Let_def)
  next
    case False
    then have "i - (N + w) = i - N - w" by simp
    then show ?thesis using False assms d1 d2 by (auto simp: cell_after_def Let_def)
  qed
qed

text \<open>Repeating k cells from position W on behind the ring.\<close>

lemma nth_mirror:
  assumes "length d = M + V" "V \<le> M" "k \<le> V - W" "j < M + V"
  shows "(if W < V then put_at d (M + W) (take k (drop W d)) else d) ! j
    = (if W < V \<and> M + W \<le> j \<and> j < M + W + k then d ! (j - M) else d ! j)"
proof (cases "W < V")
  case True
  have l: "length (take k (drop W d)) = k" "M + W + k \<le> M + V" using assms True by auto
  have "put_at d (M + W) (take k (drop W d)) ! j
      = (if M + W \<le> j \<and> j < M + W + k then take k (drop W d) ! (j - (M + W)) else d ! j)"
    using nth_put_at [of "M + W" "take k (drop W d)" d j] l assms(1,4) by simp
  moreover have "take k (drop W d) ! (j - (M + W)) = d ! (j - M)" if "M + W \<le> j" "j < M + W + k"
  proof -
    have "j - (M + W) < k" "W + (j - (M + W)) = j - M" using that by auto
    then show ?thesis using assms(1) l by simp
  qed
  ultimately show ?thesis using True by auto
qed simp

text \<open>
  The same cells when the bytes were stored in one block that may reach into the overlap, and the
  start and the overlap are copied to each other afterwards.
\<close>

lemma overlap_copies:
  assumes nums: "0 < M" "V \<le> M" "W < M" "L < M" "W + L \<le> M + V" "i < M + V" and len: "length d = M + V"
    and L: "length xs = L" and kk: "k = min L (V - W)"
    and d0: "d0 = put_at d W xs"
    and d1: "d1 = (if W < V then put_at d0 (M + W) (take k (drop W d0)) else d0)"
    and d2: "d2 = (if M < W + L then put_at d1 0 (take (W + L - M) (drop M d1)) else d1)"
  shows "d2 ! i = cell_after d M W xs i"
proof -
  have len0: "length d0 = M + V" using nums len L by (simp add: d0)
  have e0: "d0 ! j = (if W \<le> j \<and> j < W + L then xs ! (j - W) else d ! j)" if "j < M + V" for j
    using nth_put_at [of W xs d j] that nums(5) len L by (simp add: d0)
  have e1: "d1 ! j = (if W < V \<and> M + W \<le> j \<and> j < M + W + k then d0 ! (j - M) else d0 ! j)" if "j < M + V" for j
    using nth_mirror [OF len0 nums(2) _ that, of k W] kk by (simp add: d1)
  have len1: "length d1 = M + V" using len0 nums(2,3) kk by (auto simp: d1)
  have e2: "d2 ! j = (if j < W + L - M then d1 ! (M + j) else d1 ! j)" if j: "j < M + V" for j
  proof (cases "M < W + L")
    case True
    let ?q = "W + L - M"
    have l: "length (take ?q (drop M d1)) = ?q" "?q \<le> M + V" "length d1 = M + V" using nums True len1 by simp_all
    have "d2 = put_at d1 0 (take ?q (drop M d1))" using True by (simp add: d2)
    moreover have "?q \<le> V" using nums(5) by linarith
    ultimately show ?thesis using nth_put_at [of 0 "take ?q (drop M d1)" d1 j] l j by auto
  next
    case False
    then have "d2 = d1" by (simp add: d2)
    then show ?thesis using False by simp
  qed
  have "cell_after d M W xs i = d2 ! i"
  proof (cases "i < W + L - M")
    case True
    then have "i < W" "M + i < M + V" "M + i < W + L" "W \<le> M + i" "M + i - W < L" using nums(2-5) by linarith+
    moreover from this have "d1 ! (M + i) = d0 ! (M + i)" using e1 [of "M + i"] by simp
    ultimately show ?thesis using True e2 [OF nums(6)] e0 [of "M + i"] nums(3) L
      by (simp add: cell_after_def Let_def add.commute)
  next
    case False
    then have d2i: "d2 ! i = d1 ! i" using e2 [OF nums(6)] by simp
    show ?thesis
    proof (cases "W < V \<and> M + W \<le> i \<and> i < M + W + k")
      case True
      then have "i - M < M + V" "W \<le> i - M" "i - M - W < L" "i - M < W + L" using kk nums(6) by auto
      then show ?thesis using True d2i e1 [OF nums(6)] e0 [of "i - M"] L by (simp add: cell_after_def)
    next
      case F2: False
      then have di: "d2 ! i = d0 ! i" using d2i e1 [OF nums(6)] by auto
      show ?thesis
      proof (cases "W \<le> i \<and> i < W + L")
        case True
        then have "i - W < L" by linarith
        moreover have "(let j = if i < M then i else i - M in if W \<le> j then j - W else j + M - W) = i - W"
          using True nums(2-6) unfolding Let_def by auto
        ultimately have "cell_after (d) M W xs i = xs ! (i - W)" by (simp add: cell_after_def L Let_def)
        then show ?thesis using di e0 [OF nums(6)] True by simp
      next
        case F3: False
        have "\<not> (let j = if i < M then i else i - M in if W \<le> j then j - W else j + M - W) < L"
        proof (cases "i < M")
          case True
          then show ?thesis using False F3 nums(3,4) unfolding Let_def by auto
        next
          case iM: False
          show ?thesis
          proof (cases "W \<le> i - M")
            case True
            then have "L \<le> i - M - W" using F2 kk iM nums(6) by auto
            then show ?thesis using True iM by (simp add: Let_def)
          next
            case False
            then show ?thesis using iM F3 nums(3) unfolding Let_def by auto
          qed
        qed
        then have "cell_after (d) M W xs i = d ! i" by (simp add: cell_after_def L Let_def)
        then show ?thesis using di e0 [OF nums(6)] F3 by auto
      qed
    qed
  qed
  then show ?thesis by simp
qed

lemma wr_with_overlap:
  fixes N ov w n :: int
  assumes "0 < N" "0 \<le> ov" "ov \<le> N" "int (length d) = N + ov" "0 \<le> w" "w < N" "w + int (length xs) \<le> N"
  shows "\<exists>d1 d2. wr_blk d w xs = Some d1
    \<and> (if w < ov then wr_blk d1 (N + w) (take (nat (min (int (length xs)) (ov - w))) xs) else Some d1) = Some d2
    \<and> length d2 = length d \<and> (\<forall>i<nat (N + ov). d2 ! i = cell_after d (nat N) (nat w) xs i)"
proof -
  define d1 where "d1 = put_at d (nat w) xs"
  define k where "k = nat (min (int (length xs)) (ov - w))"
  define d2 where "d2 = (if w < ov then put_at d1 (nat (N + w)) (take k xs) else d1)"
  have d1: "wr_blk d w xs = Some d1" "length d1 = length d"
    using assms by (auto simp: wr_blk_def d1_def)
  have "take k xs = take (nat ov - nat w) xs" "length (take k xs) \<le> nat ov - nat w" if "w < ov"
    using that assms(2,5) by (cases "int (length xs) \<le> ov - w"; simp add: k_def nat_diff_distrib')+
  then have d2: "(if w < ov then wr_blk d1 (N + w) (take k xs) else Some d1) = Some d2" "length d2 = length d"
    "d2 = (if nat w < nat ov then put_at (put_at d (nat w) xs) (nat N + nat w) (take (nat ov - nat w) xs) else put_at d (nat w) xs)"
    using assms d1(2) by (auto simp: wr_blk_def d2_def d1_def nat_add_distrib)
  have "d2 ! i = cell_after d (nat N) (nat w) xs i" if "i < nat (N + ov)" for i
    using put_with_overlap [of d "nat N" "nat ov" "nat w" xs i] that assms unfolding d2(3) by auto
  then show ?thesis using d1 d2 unfolding k_def [symmetric] by blast
qed

lemma cell_after_compose:
  assumes "w < N" "length xs + w = N" "length ys \<le> w" "i < 2 * N" "length d' = length d" "i < length d"
    "\<forall>i<length d. d' ! i = cell_after d N w xs i"
  shows "cell_after d' N 0 ys i = cell_after d N w (xs @ ys) i"
  using assms by (auto simp: cell_after_def Let_def nth_append add.commute)

lemma cell_after_old:
  assumes "r < N" "u + length xs < N" "w = (if r + u < N then r + u else r + u - N)" "k < u" "r + k < 2 * N"
  shows "cell_after d N w xs (r + k) = d ! (r + k)"
proof -
  define j where "j = (if r + k < N then r + k else r + k - N)"
  have "\<not> (if w \<le> j then j - w else j + N - w) < length xs"
    using assms unfolding j_def by (cases "r + u < N"; cases "r + k < N"; simp; arith)
  then show ?thesis unfolding cell_after_def Let_def j_def [symmetric] by (rule if_not_P)
qed

lemma cell_after_new:
  assumes "r < N" "u + length xs < N" "w = (if r + u < N then r + u else r + u - N)" "u \<le> k" "k < u + length xs" "r + k < 2 * N"
  shows "cell_after d N w xs (r + k) = xs ! (k - u)"
proof -
  define j where "j = (if r + k < N then r + k else r + k - N)"
  have "(if w \<le> j then j - w else j + N - w) = k - u"
    using assms by (cases "r + u < N"; cases "r + k < N"; simp add: j_def)
  moreover have "k - u < length xs" using assms(4,5) by simp
  ultimately show ?thesis unfolding cell_after_def Let_def j_def [symmetric] by simp
qed

text \<open>
  A ring that holds a window of a stream: base is a position of the stream that is kept in
  cell 0, and the positions from lo to hi can be read in their cells and in the repetitions.
\<close>

definition live :: "u8 list \<Rightarrow> int \<Rightarrow> int \<Rightarrow> int \<Rightarrow> (int \<Rightarrow> u8) \<Rightarrow> int \<Rightarrow> int \<Rightarrow> bool" where
  "live d N ov base f lo hi \<longleftrightarrow> (\<forall>p. lo \<le> p \<and> p < hi \<longrightarrow>
     d ! nat ((p - base) mod N) = f p \<and> ((p - base) mod N < ov \<longrightarrow> d ! nat (N + (p - base) mod N) = f p))"

lemma live_subset: "live d N ov base f lo hi \<Longrightarrow> lo \<le> lo' \<Longrightarrow> hi' \<le> hi \<Longrightarrow> live d N ov base f lo' hi'"
  by (auto simp: live_def)

lemma live_empty [simp]: "hi \<le> lo \<Longrightarrow> live d N ov base f lo hi"
  by (auto simp: live_def)

lemma live_shift_base: "live d N ov (base + N) f lo hi = live d N ov base f lo hi"
proof -
  have "(p - (base + N)) mod N = (p - base) mod N" for p
    by (metis diff_diff_eq minus_mod_self2)
  then show ?thesis by (simp add: live_def)
qed

lemma mod_back:
  fixes N :: int
  assumes "(hi - base) mod N = w" "0 < N" "0 < k" "k \<le> N"
  shows "(hi - k - base) mod N = (if k \<le> w then w - k else w - k + N)"
proof -
  have w: "0 \<le> w" "w < N" using assms by auto
  have "(hi - k - base) mod N = (w - k) mod N"
    using assms(1) by (metis diff_right_commute mod_diff_left_eq)
  also have "\<dots> = (if k \<le> w then w - k else w - k + N)"
  proof (cases "k \<le> w")
    case True then show ?thesis using w assms by simp
  next
    case False
    have "(w - k) mod N = (w - k + N) mod N" by simp
    also have "\<dots> = w - k + N" using False w assms(2-4) by (intro mod_pos_pos_trivial) auto
    finally show ?thesis using False by simp
  qed
  finally show ?thesis .
qed

lemma mod_forward:
  fixes N :: int
  assumes "(hi - base) mod N = w" "0 < N" "0 \<le> i" "w + i < N"
  shows "(hi + i - base) mod N = w + i"
proof -
  have w: "0 \<le> w" using assms by auto
  have "(hi + i - base) mod N = (w + i) mod N"
    using assms(1) by (metis add_diff_eq add.commute mod_add_right_eq)
  then show ?thesis using w assms by simp
qed

lemma cell_after_keeps:
  assumes "c < N" "off = (if w \<le> c then c - w else c + N - w)" "length xs \<le> off"
  shows "cell_after d N w xs c = d ! c" "cell_after d N w xs (N + c) = d ! (N + c)"
  using assms by (auto simp: cell_after_def)

lemma cell_after_stores:
  assumes "c < N" "off = (if w \<le> c then c - w else c + N - w)" "off < length xs"
  shows "cell_after d N w xs c = xs ! off" "cell_after d N w xs (N + c) = xs ! off"
  using assms by (auto simp: cell_after_def)

lemma mod_forward_wrap:
  fixes N :: int
  assumes "(hi - base) mod N = w" "0 < N" "0 \<le> i" "i < N"
  shows "(hi + i - base) mod N = (if w + i < N then w + i else w + i - N)"
proof (cases "w + i < N")
  case False
  have w: "0 \<le> w" "w < N" using assms by auto
  have "(hi + i - base) mod N = (hi - (N - i) - base + N) mod N" by (rule arg_cong [where f = "\<lambda>x. x mod N"]) simp
  also have "\<dots> = (hi - (N - i) - base) mod N" by (rule mod_add_self2)
  also have "\<dots> = w - (N - i)" using mod_back [OF assms(1,2), of "N - i"] False assms(3,4) by auto
  finally show ?thesis using False by simp
qed (use assms mod_forward in auto)

lemma live_store:
  fixes N ov base lo hi w :: int
  assumes d': "\<And>i. i < nat (N + ov) \<Longrightarrow> d' ! i = cell_after d (nat N) (nat w) xs i"
    and N: "0 < N" "0 \<le> ov" "ov \<le> N"
    and w: "(hi - base) mod N = w" "int (length xs) \<le> N"
    and room: "hi + int (length xs) - lo \<le> N"
    and old: "live d N ov base f lo hi"
    and xs: "\<And>i. i < length xs \<Longrightarrow> xs ! i = f (hi + int i)"
  shows "live d' N ov base f lo (hi + int (length xs))"
  unfolding live_def
proof (intro allI impI)
  fix p assume p: "lo \<le> p \<and> p < hi + int (length xs)"
  let ?c = "(p - base) mod N"
  have w0: "0 \<le> w" "w < N" using w N by auto
  have c: "0 \<le> ?c" "?c < N" using N by auto
  have nc: "nat ?c < nat N" "nat ?c < nat (N + ov)" "nat (N + ?c) = nat N + nat ?c"
    using c N by linarith+
  have m: "?c < ov \<Longrightarrow> nat N + nat ?c < nat (N + ov)" using c N by linarith
  show "d' ! nat ?c = f p \<and> (?c < ov \<longrightarrow> d' ! nat (N + ?c) = f p)"
  proof (cases "p < hi")
    case True
    define k where "k = hi - p"
    have k: "0 < k" "k \<le> N - int (length xs)" "hi - k = p" using True p room by (auto simp: k_def)
    have cv: "?c = (if k \<le> w then w - k else w - k + N)"
      using mod_back [OF w(1) N(1) k(1)] k by simp
    have "length xs \<le> (if nat w \<le> nat ?c then nat ?c - nat w else nat ?c + nat N - nat w)"
      using k w w0 N unfolding cv by (auto split: if_splits)
    from cell_after_keeps [OF nc(1) refl this, of d] show ?thesis
      using old True p d' [OF nc(2)] d' [OF m] nc(3) by (auto simp: live_def)
  next
    case False
    define i where "i = nat (p - hi)"
    have i: "i < length xs" "p = hi + int i" using False p by (auto simp: i_def)
    have iN: "int i < N" using i w by linarith
    have cv: "?c = (if w + int i < N then w + int i else w + int i - N)"
      using mod_forward_wrap [OF w(1) N(1) _ iN] i by simp
    have "i = (if nat w \<le> nat ?c then nat ?c - nat w else nat ?c + nat N - nat w)"
      using w0 iN unfolding cv by auto
    from cell_after_stores [OF nc(1) this i(1), of d]
    show ?thesis using xs [OF i(1)] i(2) d' [OF nc(2)] d' [OF m] nc(3) by auto
  qed
qed

text \<open>
  Storing xs in the ring and then repeating cnt cells from the write position on, more than were
  stored perhaps.
\<close>

lemma live_store_mirror:
  fixes N ov base lo hi w cnt :: int
  assumes N: "0 < N" "0 \<le> ov" "ov \<le> N" "int (length d) = N + ov"
    and w: "(hi - base) mod N = w" "w + int (length xs) \<le> N" "int (length xs) \<le> cnt"
    and room: "hi + int (length xs) - lo \<le> N"
    and old: "live d N ov base f lo hi"
    and xs: "\<And>i. i < length xs \<Longrightarrow> xs ! i = f (hi + int i)"
  defines "k \<equiv> nat (min cnt (ov - w))"
  defines "d1 \<equiv> put_at d (nat w) xs"
  shows "live (if w < ov then put_at d1 (nat (N + w)) (take k (drop (nat w) d1)) else d1) N ov base f lo (hi + int (length xs))"
proof -
  have w0: "0 \<le> w" "w < N" using w N by auto
  define W where "W = nat w" define M where "M = nat N" define V where "V = nat ov"
  have nums: "w = int W" "N = int M" "ov = int V" "W < M" "V \<le> M" "length d = M + V" "W + length xs \<le> M"
    "nat (N + w) = M + W" "nat (N + ov) = M + V"
    using N w0 w(2) by (auto simp: W_def M_def V_def nat_add_distrib)
  have k: "k \<le> V - W" "W < V \<Longrightarrow> min (length xs) (V - W) \<le> k"
    using w(3) nums(1,3) unfolding k_def by linarith+
  define dm where "dm = (if w < ov then put_at d (M + W) (take k (drop W d)) else d)"
  have dm: "dm ! j = (if W < V \<and> M + W \<le> j \<and> j < M + W + k then d ! (j - M) else d ! j)" if "j < M + V" for j
    using nth_mirror [OF nums(6,5) k(1) that] by (simp add: dm_def nums(1,3))
  have oldm: "live dm N ov base f lo hi"
    unfolding live_def
  proof (intro allI impI)
    fix p assume p: "lo \<le> p \<and> p < hi"
    define c where "c = nat ((p - base) mod N)"
    have "0 \<le> (p - base) mod N" "(p - base) mod N < N" using N(1) by auto
    then have c: "(p - base) mod N = int c" "c < M" by (auto simp: c_def nums(2))
    have o: "d ! c = f p" "int c < ov \<longrightarrow> d ! nat (N + int c) = f p" using old p c(1) by (auto simp: live_def)
    have "nat (N + int c) = M + c" by (simp add: nums(2) nat_int_add)
    then show "dm ! nat ((p - base) mod N) = f p \<and> ((p - base) mod N < ov \<longrightarrow> dm ! nat (N + (p - base) mod N) = f p)"
      unfolding c(1) using o c(2) dm [of c] dm [of "M + c"] nums(3) by auto
  qed
  define d2 where "d2 = (if w < ov then put_at d1 (nat (N + w)) (take k (drop (nat w) d1)) else d1)"
  have l1: "length d1 = M + V" using nums by (simp add: d1_def)
  have d1: "d1 ! j = (if W \<le> j \<and> j < W + length xs then xs ! (j - W) else d ! j)" if "j < M + V" for j
    using nth_put_at [of W xs d j] that nums(6,7) by (simp add: d1_def W_def [symmetric])
  have "d2 = (if W < V then put_at d1 (M + W) (take k (drop W d1)) else d1)"
    by (simp add: d2_def nums(1,3,8) W_def [symmetric]) (simp add: nums(2) nat_int_add)
  then have d2: "d2 ! j = (if W < V \<and> M + W \<le> j \<and> j < M + W + k then d1 ! (j - M) else d1 ! j)" if "j < M + V" for j
    using nth_mirror [OF l1 nums(5) k(1) that] by simp
  have cells: "d2 ! i = cell_after dm (nat N) (nat w) xs i" if i: "i < nat (N + ov)" for i
  proof -
    have i': "i < M + V" using i nums(9) by simp
    show ?thesis
    proof (cases "i < M")
      case True
      then show ?thesis
        using d2 [OF i'] d1 [OF i'] dm [OF i'] nums(4,7) unfolding cell_after_def Let_def M_def [symmetric] W_def [symmetric] by auto
    next
      case False
      then have v: "i - M < V" "i - M < M + V" "i - M < M" using i' nums(5) by auto
      show ?thesis
      proof (cases "W \<le> i - M \<and> i - M < W + length xs")
        case True
        then have "W < V" "M + W \<le> i" "i < M + W + k" using v k(2) False by auto
        then show ?thesis using True False d2 [OF i'] d1 [OF v(2)]
          unfolding cell_after_def Let_def M_def [symmetric] W_def [symmetric] by auto
      next
        case F: False
        then have o: "\<not> (if W \<le> i - M then i - M - W else i - M + M - W) < length xs" using nums(7) False by auto
        have "d1 ! i = d ! i" "d1 ! (i - M) = d ! (i - M)" using d1 [OF i'] d1 [OF v(2)] F False nums(7) by auto
        then show ?thesis using o False d2 [OF i'] dm [OF i']
          unfolding cell_after_def Let_def M_def [symmetric] W_def [symmetric] by auto
      qed
    qed
  qed
  have "live d2 N ov base f lo (hi + int (length xs))"
    by (rule live_store [OF cells N(1-3) w(1) _ room oldm xs]) (use w w0 in auto)
  then show ?thesis by (simp add: d2_def)
qed

section \<open>The contract of a bounded byte queue\<close>

text \<open>
  put s xs returns whether the bytes were accepted, get s n the bytes
  delivered (None when fewer than n are stored).
\<close>

locale byte_fifo =
  fixes content :: "'s \<Rightarrow> u8 list" and cap :: "'s \<Rightarrow> nat" and ok :: "'s \<Rightarrow> bool"
    and put :: "'s \<Rightarrow> u8 list \<Rightarrow> (bool \<times> 's) option"
    and get :: "'s \<Rightarrow> nat \<Rightarrow> (u8 list option \<times> 's) option"
  assumes bounded: "ok s \<Longrightarrow> length (content s) \<le> cap s"
    and put_fits: "ok s \<Longrightarrow> length (content s) + length xs \<le> cap s \<Longrightarrow>
      \<exists>s'. put s xs = Some (True, s') \<and> ok s' \<and> content s' = content s @ xs \<and> cap s' = cap s"
    and put_full: "ok s \<Longrightarrow> cap s < length (content s) + length xs \<Longrightarrow> put s xs = Some (False, s)"
    and get_enough: "ok s \<Longrightarrow> n \<le> length (content s) \<Longrightarrow>
      \<exists>s'. get s n = Some (Some (take n (content s)), s') \<and> ok s' \<and> content s' = drop n (content s) \<and> cap s' = cap s"
    and get_short: "ok s \<Longrightarrow> length (content s) < n \<Longrightarrow> get s n = Some (None, s)"
begin

lemma put_then_get:
  assumes "ok s" "content s = []" "length xs \<le> cap s"
  shows "\<exists>s1 s2. put s xs = Some (True, s1) \<and> get s1 (length xs) = Some (Some xs, s2) \<and> content s2 = [] \<and> ok s2"
proof -
  obtain s1 where s1: "put s xs = Some (True, s1)" "ok s1" "content s1 = xs"
    using put_fits [OF assms(1), of xs] assms by auto
  then show ?thesis using get_enough [OF s1(2), of "length xs"] by auto
qed

text \<open>Records of one size: what the queue of fixed-size entries relies on.\<close>

definition holds :: "nat \<Rightarrow> 's \<Rightarrow> u8 list list \<Rightarrow> bool" where
  "holds e s es \<longleftrightarrow> ok s \<and> content s = concat es \<and> (\<forall>x\<in>set es. length x = e)"

lemma length_concat_uniform: "\<forall>x\<in>set es. length x = e \<Longrightarrow> length (concat es) = length es * e"
  by (induction es) auto

lemma holds_put:
  assumes "holds e s es" "length x = e" "(length es + 1) * e \<le> cap s"
  shows "\<exists>s'. put s x = Some (True, s') \<and> holds e s' (es @ [x]) \<and> cap s' = cap s"
proof -
  have "length (content s) + length x \<le> cap s"
    using assms length_concat_uniform [of es e] by (auto simp: holds_def algebra_simps)
  from put_fits [OF _ this] assms(1,2) show ?thesis
    by (auto simp: holds_def)
qed

lemma holds_put_full:
  assumes "holds e s es" "length x = e" "cap s < (length es + 1) * e"
  shows "put s x = Some (False, s)"
  using assms length_concat_uniform [of es e] by (intro put_full) (auto simp: holds_def algebra_simps)

lemma holds_get:
  assumes "holds e s (x # es)"
  shows "\<exists>s'. get s e = Some (Some x, s') \<and> holds e s' es \<and> cap s' = cap s"
  using get_enough [of s e] assms by (auto simp: holds_def)

lemma holds_get_empty:
  assumes "holds e s []" "0 < e"
  shows "get s e = Some (None, s)"
  using get_short [of s e] assms by (auto simp: holds_def)

end

end
