(* ===== verification/Circular_Buffer.thy ===== *)
theory Circular_Buffer
  imports Ring
begin

text \<open>
  The circular buffer of Include/cb.h (struct CIRCULAR_BUFFER). Unlike the pipe its
  free count already leaves out the byte that always stays empty, a refused operation returns
  1, and it can be peeked and skipped. The allocators are the argument m (the memory
  returned, None on failure).
\<close>

record cbuf =
  cbuffer :: "u8 list option"
  csize :: int
  cwrite :: int
  cread :: int
  cend :: bool
  cdma :: bool

definition cb_flush :: "cbuf \<Rightarrow> cbuf" where
  "cb_flush cb = cb\<lparr>cread := 0, cwrite := 0, cend := False\<rparr>"

definition cb_malloc :: "cbuf option \<Rightarrow> int \<Rightarrow> u8 list option \<Rightarrow> int \<times> cbuf option" where
  "cb_malloc cb sz m = (case cb of None \<Rightarrow> (1, None)
     | Some c \<Rightarrow> if sz = 0 then (1, Some c)
       else (case m of None \<Rightarrow> (1, Some (c\<lparr>csize := 0, cbuffer := None\<rparr>))
         | Some b \<Rightarrow> (0, Some (cb_flush (c\<lparr>csize := uw32 sz, cbuffer := Some b, cdma := False\<rparr>)))))"

definition cb_malloc_dma :: "cbuf option \<Rightarrow> int \<Rightarrow> u8 list option \<Rightarrow> int \<times> cbuf option" where
  "cb_malloc_dma cb sz m = (case cb of None \<Rightarrow> (1, None)
     | Some c \<Rightarrow> if sz = 0 then (1, Some c)
       else (case m of None \<Rightarrow> (1, Some (c\<lparr>csize := 0, cbuffer := None\<rparr>))
         | Some b \<Rightarrow> (0, Some (cb_flush (c\<lparr>csize := uw32 sz, cbuffer := Some b, cdma := True\<rparr>)))))"

definition cb_free :: "cbuf option \<Rightarrow> cbuf option" where
  "cb_free cb = map_option (\<lambda>c. c\<lparr>cbuffer := None\<rparr>) cb"

definition cb_get_used :: "cbuf \<Rightarrow> int" where
  "cb_get_used cb = (let used = i32 (cwrite cb - cread cb) in if used < 0 then i32 (used + csize cb) else used)"

definition cb_get_end :: "cbuf \<Rightarrow> int" where
  "cb_get_end cb = of_bool (cend cb)"

definition cb_get_used_continuous :: "cbuf \<Rightarrow> int" where
  "cb_get_used_continuous cb =
     (if cread cb \<le> cwrite cb then i32 (cwrite cb - cread cb) else i32 (csize cb - cread cb))"

definition cb_get_free :: "cbuf \<Rightarrow> int" where
  "cb_get_free cb =
     (let free = i32 (cread cb - cwrite cb);
          free = (if free \<le> 0 then i32 (free + csize cb) else free);
          free = free - 1
      in if free < 0 then 0 else free)"

definition cb_get_free_continuous :: "cbuf \<Rightarrow> int" where
  "cb_get_free_continuous cb =
     (let free = (if cread cb \<le> cwrite cb
                  then let free = i32 (csize cb - cwrite cb) in if cread cb = 0 then free - 1 else free
                  else i32 (cread cb - cwrite cb - 1))
      in if free < 0 then 0 else free)"

definition cb_get_read_pointer :: "cbuf \<Rightarrow> int" where
  "cb_get_read_pointer cb = cread cb"

definition cb_read :: "cbuf \<Rightarrow> int \<Rightarrow> (int \<times> u8 list \<times> cbuf) option" where
  "cb_read cb count = do {
     let rest = i32 (csize cb - cread cb);
     if cb_get_used cb < count then Some (1, [], cb)
     else do {
       b \<leftarrow> cbuffer cb;
       if count \<le> rest then do {
         out \<leftarrow> rd_blk b (cread cb) count;
         let cb = cb\<lparr>cread := uw32 (cread cb + count)\<rparr>;
         Some (0, out, if csize cb \<le> cread cb then cb\<lparr>cread := cread cb - csize cb\<rparr> else cb) }
       else do {
         out1 \<leftarrow> rd_blk b (cread cb) rest;
         out2 \<leftarrow> rd_blk b 0 (count - rest);
         Some (0, out1 @ out2, cb\<lparr>cread := uw32 (count - rest)\<rparr>) } } }"

text \<open>The comparison of the int position with the unsigned size is unsigned.\<close>

definition cb_peek :: "cbuf \<Rightarrow> int \<Rightarrow> u8 option" where
  "cb_peek cb offset = do {
     let read = i32 (cread cb + offset);
     let read = (if csize cb \<le> uw32 read then i32 (read - csize cb) else read);
     b \<leftarrow> cbuffer cb;
     rd b read }"

definition cb_skip_read :: "cbuf \<Rightarrow> int \<Rightarrow> int \<times> cbuf" where
  "cb_skip_read cb count =
     (if cb_get_used cb < count then (1, cb)
      else let cb = cb\<lparr>cread := uw32 (cread cb + count)\<rparr>
           in (0, if csize cb \<le> cread cb then cb\<lparr>cread := cread cb - csize cb\<rparr> else cb))"

definition cb_get_write_pointer :: "cbuf \<Rightarrow> int" where
  "cb_get_write_pointer cb = cwrite cb"

definition cb_write :: "cbuf \<Rightarrow> u8 list \<Rightarrow> int \<Rightarrow> (int \<times> cbuf) option" where
  "cb_write cb src count = do {
     let rest = i32 (csize cb - cwrite cb);
     if cb_get_free cb < count then Some (1, cb)
     else do {
       b \<leftarrow> cbuffer cb;
       if count \<le> rest then do {
         xs \<leftarrow> rd_blk src 0 count;
         b \<leftarrow> wr_blk b (cwrite cb) xs;
         let cb = cb\<lparr>cbuffer := Some b, cwrite := uw32 (cwrite cb + count)\<rparr>;
         Some (0, if csize cb \<le> cwrite cb then cb\<lparr>cwrite := cwrite cb - csize cb\<rparr> else cb) }
       else do {
         xs \<leftarrow> rd_blk src 0 rest;
         b \<leftarrow> wr_blk b (cwrite cb) xs;
         ys \<leftarrow> rd_blk src rest (count - rest);
         b \<leftarrow> wr_blk b 0 ys;
         Some (0, cb\<lparr>cbuffer := Some b, cwrite := uw32 (count - rest)\<rparr>) } } }"

definition cb_skip_write :: "cbuf \<Rightarrow> int \<Rightarrow> int \<times> cbuf" where
  "cb_skip_write cb count =
     (if cb_get_free cb < count then (1, cb)
      else let cb = cb\<lparr>cwrite := uw32 (cwrite cb + count)\<rparr>
           in (0, if csize cb \<le> cwrite cb then cb\<lparr>cwrite := cwrite cb - csize cb\<rparr> else cb))"

definition cb_set_end :: "cbuf \<Rightarrow> cbuf" where
  "cb_set_end cb = cb\<lparr>cend := True\<rparr>"

section \<open>Invariant and content\<close>

definition cb_ok :: "cbuf \<Rightarrow> bool" where
  "cb_ok cb \<longleftrightarrow> 0 < csize cb \<and> csize cb < 2 ^ 31 \<and> map_option (int \<circ> length) (cbuffer cb) = Some (csize cb)
     \<and> 0 \<le> cread cb \<and> cread cb < csize cb \<and> 0 \<le> cwrite cb \<and> cwrite cb < csize cb"

definition cb_content :: "cbuf \<Rightarrow> u8 list" where
  "cb_content cb = (case cbuffer cb of None \<Rightarrow> [] | Some b \<Rightarrow> ring_content b (nat (cread cb)) (nat (cwrite cb)))"

definition cb_cap :: "cbuf \<Rightarrow> nat" where
  "cb_cap cb = nat (csize cb - 1)"

lemma cb_ok_E:
  assumes "cb_ok cb"
  obtains b where "cbuffer cb = Some b" "csize cb = int (length b)" "nat (cread cb) < length b"
    "nat (cwrite cb) < length b" "0 \<le> cread cb" "0 \<le> cwrite cb" "length b < 2147483648"
    "length (cb_content cb) = ring_used (length b) (nat (cread cb)) (nat (cwrite cb))"
    "length (cb_content cb) < length b" "length b = Suc (cb_cap cb)"
    "cread cb < int (length b)" "cwrite cb < int (length b)"
proof -
  from assms obtain b where b: "cbuffer cb = Some b" "csize cb = int (length b)"
    by (auto simp: cb_ok_def)
  moreover have rw: "nat (cread cb) < length b" "nat (cwrite cb) < length b"
    using assms b by (auto simp: cb_ok_def)
  moreover have "length (cb_content cb) = ring_used (length b) (nat (cread cb)) (nat (cwrite cb))"
    using b rw by (simp add: cb_content_def length_ring_content)
  moreover have "length b < 2147483648" "0 \<le> cread cb" "0 \<le> cwrite cb"
      "cread cb < int (length b)" "cwrite cb < int (length b)"
    using assms b by (auto simp: cb_ok_def)
  moreover have "length b = Suc (cb_cap cb)" using b rw by (simp add: cb_cap_def)
  ultimately show thesis
    using ring_used_less [OF rw] by (intro that [of b]) simp_all
qed

lemma cb_get_used_ok: "cb_ok cb \<Longrightarrow> cb_get_used cb = int (length (cb_content cb))"
  by (erule cb_ok_E) (auto simp: cb_get_used_def ring_used_def i32_id Let_def)

lemma cb_get_free_ok: "cb_ok cb \<Longrightarrow> cb_get_free cb = int (cb_cap cb - length (cb_content cb))"
  by (erule cb_ok_E) (auto simp: cb_get_free_def ring_used_def i32_id Let_def nat_le_eq_zle)

lemma cb_read_ok:
  assumes "cb_ok cb" "n \<le> length (cb_content cb)"
  shows "\<exists>c. cb_read cb (int n) = Some (0, take n (cb_content cb), c)
    \<and> cb_ok c \<and> cb_content c = drop n (cb_content cb) \<and> cb_cap c = cb_cap cb"
proof -
  from assms(1) obtain b where B: "cbuffer cb = Some b" "csize cb = int (length b)" "nat (cread cb) < length b"
    "nat (cwrite cb) < length b" "0 \<le> cread cb" "0 \<le> cwrite cb" "length b < 2147483648"
    "length (cb_content cb) = ring_used (length b) (nat (cread cb)) (nat (cwrite cb))"
    "length (cb_content cb) < length b" "cread cb < int (length b)" "cwrite cb < int (length b)" by (rule cb_ok_E)
  define r' where "r' = (if cread cb + int n < csize cb then cread cb + int n else cread cb + int n - csize cb)"
  have n: "n < length b" using assms(2) B(9) by simp
  have r': "nat r' = (nat (cread cb) + n) mod length b" "0 \<le> r'"
    using B n by (auto simp: r'_def mod_cases nat_less_iff)
  have lt: "nat r' < length b" unfolding r'(1) by (rule mod_less_divisor) (use n in linarith)
  have tk: "take n (cb_content cb) = (if nat (cread cb) + n \<le> length b then take n (drop (nat (cread cb)) b)
      else drop (nat (cread cb)) b @ take (nat (cread cb) + n - length b) b)"
    using ring_content_take [OF B(3,4), of n] assms(2) B by (simp add: cb_content_def)
  have "cb_read cb (int n) = Some (0, take n (cb_content cb), cb\<lparr>cread := r'\<rparr>)"
    using B n cb_get_used_ok [OF assms(1)] assms(2) unfolding tk
    by (auto simp: cb_read_def Let_def i32_id uw32_id rd_blk_def r'_def nat_diff_distrib nat_add_distrib add.commute)
  moreover have "cb_content (cb\<lparr>cread := r'\<rparr>) = drop n (cb_content cb)"
    using ring_content_read [OF B(3,4), of n] assms(2) B r'(1) by (simp add: cb_content_def)
  moreover have "cb_ok (cb\<lparr>cread := r'\<rparr>)"
    using assms(1) B r'(2) lt by (auto simp: cb_ok_def)
  ultimately show ?thesis by (auto simp: cb_cap_def)
qed

lemma cb_write_ok:
  assumes "cb_ok cb" "length (cb_content cb) + length xs \<le> cb_cap cb"
  shows "\<exists>c. cb_write cb xs (int (length xs)) = Some (0, c)
    \<and> cb_ok c \<and> cb_content c = cb_content cb @ xs \<and> cb_cap c = cb_cap cb"
proof -
  from assms(1) obtain b where B: "cbuffer cb = Some b" "csize cb = int (length b)" "nat (cread cb) < length b"
    "nat (cwrite cb) < length b" "0 \<le> cread cb" "0 \<le> cwrite cb" "length b < 2147483648"
    "length (cb_content cb) = ring_used (length b) (nat (cread cb)) (nat (cwrite cb))"
    "length (cb_content cb) < length b" "length b = Suc (cb_cap cb)"
    "cread cb < int (length b)" "cwrite cb < int (length b)" by (rule cb_ok_E)
  let ?w = "nat (cwrite cb)" and ?n = "length xs"
  define w' where "w' = (if cwrite cb + int ?n < csize cb then cwrite cb + int ?n else cwrite cb + int ?n - csize cb)"
  define c where "c = cb\<lparr>cbuffer := Some (ring_store b ?w xs), cwrite := w'\<rparr>"
  have n: "ring_used (length b) (nat (cread cb)) ?w + ?n < length b" using assms(2) B by simp
  have w': "nat w' = (?w + ?n) mod length b" "0 \<le> w'"
    using B n by (auto simp: w'_def mod_cases nat_less_iff)
  have lt: "nat w' < length b" unfolding w'(1) by (rule mod_less_divisor) (use n in linarith)
  have bl: "length (ring_store b ?w xs) = length b" using n B(4) by simp
  have guard: "\<not> cb_get_free cb < int ?n" using cb_get_free_ok [OF assms(1)] assms(2) by simp
  have "cb_write cb xs (int ?n) = Some (0, c)"
    using B(1-7) B(11,12) n guard
    by (auto simp: cb_write_def Let_def i32_id uw32_id rd_blk_def wr_blk_def c_def w'_def ring_store_def nat_diff_distrib)
  moreover have "cb_content c = cb_content cb @ xs"
    using ring_content_write [OF B(3,4) n] w'(1) B(1) by (simp add: cb_content_def c_def)
  moreover have "cb_ok c" using assms(1) B w'(2) lt bl by (auto simp: cb_ok_def c_def)
  ultimately show ?thesis by (auto simp: c_def cb_cap_def)
qed

definition cb_put :: "cbuf \<Rightarrow> u8 list \<Rightarrow> (bool \<times> cbuf) option" where
  "cb_put cb xs = map_option (\<lambda>(e, c). (e = 0, c)) (cb_write cb xs (int (length xs)))"

definition cb_take :: "cbuf \<Rightarrow> nat \<Rightarrow> (u8 list option \<times> cbuf) option" where
  "cb_take cb n = map_option (\<lambda>(e, out, c). (if e = 0 then Some out else None, c)) (cb_read cb (int n))"

interpretation cf: byte_fifo cb_content cb_cap cb_ok cb_put cb_take
proof
  fix c :: cbuf and xs :: "u8 list" and n :: nat
  assume ok: "cb_ok c"
  show "length (cb_content c) \<le> cb_cap c" using ok by (rule cb_ok_E) simp
  show "\<exists>s'. cb_put c xs = Some (True, s') \<and> cb_ok s' \<and> cb_content s' = cb_content c @ xs \<and> cb_cap s' = cb_cap c"
    if "length (cb_content c) + length xs \<le> cb_cap c"
    using cb_write_ok [OF ok that] by (auto simp: cb_put_def)
  show "cb_put c xs = Some (False, c)" if "cb_cap c < length (cb_content c) + length xs"
  proof -
    have "length (cb_content c) \<le> cb_cap c" using ok by (rule cb_ok_E) simp
    then have "cb_get_free c < int (length xs)" using that cb_get_free_ok [OF ok] by simp
    then show ?thesis by (simp add: cb_put_def cb_write_def)
  qed
  show "\<exists>s'. cb_take c n = Some (Some (take n (cb_content c)), s') \<and> cb_ok s'
      \<and> cb_content s' = drop n (cb_content c) \<and> cb_cap s' = cb_cap c"
    if "n \<le> length (cb_content c)"
    using cb_read_ok [OF ok that] by (auto simp: cb_take_def)
  show "cb_take c n = Some (None, c)" if "length (cb_content c) < n"
    using that cb_get_used_ok [OF ok] by (auto simp: cb_take_def cb_read_def Let_def)
qed

end
