(* ===== verification/Pipe.thy ===== *)
theory Pipe
  imports Ring
begin

text \<open>
  The byte pipe of Include/pipe.h. The record is struct PIPE: buf the memory
  buffer points to, the positions as the unsigned ints they are (a difference assigned
  to an int wraps with i32, a sum stored back with uw32). A NULL buffer
  argument is None for a write and dst = False for a read; a read returns
  the bytes it copies to the destination. The waiting variants take the effect of the other
  thread at each msec_sleep as a list of functions on the pipe; a wait that outlasts the list
  has no result.
\<close>

record pipe =
  buf :: "u8 list"
  psize :: int
  pwrite :: int
  pread :: int
  pend :: bool
  total_write :: int
  total_read :: int

definition pipe_flush :: "pipe \<Rightarrow> pipe" where
  "pipe_flush p = p\<lparr>pread := 0, pwrite := 0, pend := False, total_read := 0, total_write := 0\<rparr>"

text \<open>mem: the memory the allocator returns, None when it fails.\<close>

definition pipe_new :: "int \<Rightarrow> u8 list option \<Rightarrow> pipe option" where
  "pipe_new sz m = (if sz = 0 then None else do {
     b \<leftarrow> m;
     Some (pipe_flush \<lparr>buf = b, psize = uw32 sz, pwrite = 0, pread = 0, pend = False, total_write = 0, total_read = 0\<rparr>) })"

definition pipe_get_used :: "pipe \<Rightarrow> int" where
  "pipe_get_used p = (let used = i32 (pwrite p - pread p) in if used < 0 then i32 (used + psize p) else used)"

definition pipe_get_end :: "pipe \<Rightarrow> int" where
  "pipe_get_end p = of_bool (pend p)"

definition pipe_get_used_continous :: "pipe \<Rightarrow> int" where
  "pipe_get_used_continous p = (if pread p \<le> pwrite p then i32 (pwrite p - pread p) else i32 (psize p - pread p))"

definition pipe_get_free :: "pipe \<Rightarrow> int" where
  "pipe_get_free p = (let free = i32 (pread p - pwrite p) in if free \<le> 0 then i32 (free + psize p) else free)"

definition pipe_get_free_continous :: "pipe \<Rightarrow> int" where
  "pipe_get_free_continous p = (if pread p \<le> pwrite p then i32 (psize p - pwrite p) else i32 (pread p - pwrite p))"

definition pipe_get_stats :: "pipe \<Rightarrow> int \<times> int" where
  "pipe_get_stats p = (total_write p, total_read p)"

definition pipe_get_read_pointer :: "pipe \<Rightarrow> int" where
  "pipe_get_read_pointer p = pread p"

definition pipe_read_raw :: "pipe \<Rightarrow> bool \<Rightarrow> int \<Rightarrow> (int \<times> u8 list \<times> pipe) option" where
  "pipe_read_raw p dst count = do {
     let rest = i32 (psize p - pread p);
     (out, p) \<leftarrow> (if count \<le> rest then do {
         out \<leftarrow> (if dst then rd_blk (buf p) (pread p) count else Some []);
         let p = p\<lparr>pread := uw32 (pread p + count)\<rparr>;
         Some (out, if psize p \<le> pread p then p\<lparr>pread := pread p - psize p\<rparr> else p) }
       else do {
         out1 \<leftarrow> (if dst then rd_blk (buf p) (pread p) rest else Some []);
         out2 \<leftarrow> (if dst then rd_blk (buf p) 0 (count - rest) else Some []);
         Some (out1 @ out2, p\<lparr>pread := uw32 (count - rest)\<rparr>) });
     Some (count, out, p\<lparr>total_read := uw32 (total_read p + count)\<rparr>) }"

definition pipe_read :: "pipe \<Rightarrow> bool \<Rightarrow> int \<Rightarrow> (int \<times> u8 list \<times> pipe) option" where
  "pipe_read p dst count = (if pipe_get_used p < count then Some (0, [], p) else pipe_read_raw p dst count)"

fun pipe_read_wait :: "(pipe \<Rightarrow> pipe) list \<Rightarrow> pipe \<Rightarrow> bool \<Rightarrow> int \<Rightarrow> (int \<times> u8 list \<times> pipe) option" where
  "pipe_read_wait other p dst count =
     (if pipe_get_used p < count \<and> pipe_get_end p = 0 then
        (case other of [] \<Rightarrow> None | f # fs \<Rightarrow> pipe_read_wait fs (f p) dst count)
      else
        let count = min count (pipe_get_used p)
        in if count \<noteq> 0 then pipe_read_raw p dst count else Some (count, [], p))"

definition pipe_get_write_pointer :: "pipe \<Rightarrow> int" where
  "pipe_get_write_pointer p = pwrite p"

definition pipe_write_raw :: "pipe \<Rightarrow> u8 list option \<Rightarrow> int \<Rightarrow> (int \<times> pipe) option" where
  "pipe_write_raw p src count = do {
     let rest = i32 (psize p - pwrite p);
     p \<leftarrow> (if count \<le> rest then do {
         b \<leftarrow> (case src of None \<Rightarrow> Some (buf p)
                 | Some m \<Rightarrow> do { xs \<leftarrow> rd_blk m 0 count; wr_blk (buf p) (pwrite p) xs });
         let p = p\<lparr>buf := b, pwrite := uw32 (pwrite p + count)\<rparr>;
         Some (if psize p \<le> pwrite p then p\<lparr>pwrite := pwrite p - psize p\<rparr> else p) }
       else do {
         b \<leftarrow> (case src of None \<Rightarrow> Some (buf p)
                 | Some m \<Rightarrow> do { xs \<leftarrow> rd_blk m 0 rest; b \<leftarrow> wr_blk (buf p) (pwrite p) xs;
                                 ys \<leftarrow> rd_blk m rest (count - rest); wr_blk b 0 ys });
         Some (p\<lparr>buf := b, pwrite := uw32 (count - rest)\<rparr>) });
     Some (count, p\<lparr>total_write := uw32 (total_write p + count)\<rparr>) }"

definition pipe_write :: "pipe \<Rightarrow> u8 list option \<Rightarrow> int \<Rightarrow> (int \<times> pipe) option" where
  "pipe_write p src count = (if pipe_get_free p \<le> count then Some (0, p) else pipe_write_raw p src count)"

fun pipe_write_wait :: "(pipe \<Rightarrow> pipe) list \<Rightarrow> pipe \<Rightarrow> u8 list option \<Rightarrow> int \<Rightarrow> (int \<times> pipe) option" where
  "pipe_write_wait other p src count =
     (if pipe_get_free p \<le> count then
        (case other of [] \<Rightarrow> None | f # fs \<Rightarrow> pipe_write_wait fs (f p) src count)
      else
        let free = pipe_get_free p; count = min count free
        in if free \<noteq> 0 then pipe_write_raw p src count else Some (0, p))"

definition pipe_set_end :: "pipe \<Rightarrow> pipe" where
  "pipe_set_end p = p\<lparr>pend := True\<rparr>"

section \<open>Invariant and content\<close>

definition pipe_ok :: "pipe \<Rightarrow> bool" where
  "pipe_ok p \<longleftrightarrow> 0 < psize p \<and> psize p < 2 ^ 31 \<and> int (length (buf p)) = psize p
     \<and> 0 \<le> pread p \<and> pread p < psize p \<and> 0 \<le> pwrite p \<and> pwrite p < psize p"

definition pipe_content :: "pipe \<Rightarrow> u8 list" where
  "pipe_content p = ring_content (buf p) (nat (pread p)) (nat (pwrite p))"

definition pipe_cap :: "pipe \<Rightarrow> nat" where
  "pipe_cap p = length (buf p) - 1"

lemma pipe_ok_D:
  assumes "pipe_ok p"
  shows "nat (pread p) < length (buf p)" "nat (pwrite p) < length (buf p)"
    "length (pipe_content p) = ring_used (length (buf p)) (nat (pread p)) (nat (pwrite p))"
    "length (pipe_content p) \<le> pipe_cap p" "length (buf p) = nat (psize p)" "psize p < 2147483648"
proof -
  show r: "nat (pread p) < length (buf p)" "nat (pwrite p) < length (buf p)"
    using assms by (auto simp: pipe_ok_def)
  then have "ring_used (length (buf p)) (nat (pread p)) (nat (pwrite p)) < length (buf p)"
    by (rule ring_used_less)
  then show "length (pipe_content p) = ring_used (length (buf p)) (nat (pread p)) (nat (pwrite p))"
    "length (pipe_content p) \<le> pipe_cap p"
    using r by (auto simp: pipe_content_def pipe_cap_def length_ring_content)
  show "length (buf p) = nat (psize p)" "psize p < 2147483648" using assms by (auto simp: pipe_ok_def)
qed

lemma pipe_get_used_ok: "pipe_ok p \<Longrightarrow> pipe_get_used p = int (length (pipe_content p))"
  using pipe_ok_D(3) [of p]
  by (auto simp: pipe_get_used_def pipe_ok_def ring_used_def i32_id Let_def)

lemma pipe_get_free_ok: "pipe_ok p \<Longrightarrow> pipe_get_free p = psize p - int (length (pipe_content p))"
  using pipe_ok_D(3) [of p]
  by (auto simp: pipe_get_free_def pipe_ok_def ring_used_def i32_id Let_def)

lemma pipe_content_move:
  assumes "pipe_ok p" "n \<le> length (pipe_content p)"
    and "buf q = buf p" "psize q = psize p" "pwrite q = pwrite p"
    and "nat (pread q) = (nat (pread p) + n) mod length (buf p)" "0 \<le> pread q"
  shows "pipe_ok q \<and> pipe_content q = drop n (pipe_content p)"
proof -
  let ?N = "length (buf p)" and ?r = "nat (pread p)" and ?w = "nat (pwrite p)"
  note D = pipe_ok_D [OF assms(1)]
  have N: "0 < ?N" using D(1) by linarith
  have q: "nat (pread q) < ?N" using N assms(6) by simp
  have "pipe_content q = drop n (pipe_content p)"
    using ring_content_read [OF D(1,2), of n] assms D(3) by (simp add: pipe_content_def)
  moreover have "pipe_ok q" using assms q by (auto simp: pipe_ok_def)
  ultimately show ?thesis by simp
qed

lemma pipe_read_raw_ok:
  assumes "pipe_ok p" "n \<le> length (pipe_content p)"
  shows "\<exists>q. pipe_read_raw p True (int n) = Some (int n, take n (pipe_content p), q)
    \<and> pipe_ok q \<and> pipe_content q = drop n (pipe_content p) \<and> pipe_cap q = pipe_cap p"
proof -
  let ?N = "length (buf p)" and ?r = "nat (pread p)"
  note D = pipe_ok_D [OF assms(1)]
  have ok: "0 \<le> pread p" "pread p < psize p" "psize p = int ?N" "psize p < 2147483648"
    using assms(1) by (auto simp: pipe_ok_def)
  have n: "n < ?N" using assms(2) D(1,3) ring_used_less [OF D(1,2)] by simp
  have tk: "take n (pipe_content p) = (if ?r + n \<le> ?N then take n (drop ?r (buf p)) else drop ?r (buf p) @ take (?r + n - ?N) (buf p))"
    using assms(2) D ring_content_take [OF D(1,2), of n] by (simp add: pipe_content_def)
  define r' where "r' = (if pread p + int n < psize p then pread p + int n else pread p + int n - psize p)"
  define q where "q = p\<lparr>pread := r', total_read := uw32 (total_read p + int n)\<rparr>"
  have r': "nat r' = (?r + n) mod ?N" "0 \<le> r'"
    using ok n by (auto simp: r'_def mod_cases nat_less_iff)
  have "pipe_read_raw p True (int n) = Some (int n, take n (pipe_content p), q)"
    using ok n unfolding tk
    by (auto simp: pipe_read_raw_def Let_def i32_id uw32_id rd_blk_def q_def r'_def nat_diff_distrib nat_add_distrib
        add.commute)
  moreover have "pipe_ok q \<and> pipe_content q = drop n (pipe_content p)"
    using assms r' by (intro pipe_content_move) (auto simp: q_def)
  moreover have "pipe_cap q = pipe_cap p" by (simp add: q_def pipe_cap_def)
  ultimately show ?thesis by blast
qed

lemma pipe_write_raw_ok:
  assumes "pipe_ok p" "length (pipe_content p) + length xs \<le> pipe_cap p"
  shows "\<exists>q. pipe_write_raw p (Some xs) (int (length xs)) = Some (int (length xs), q)
    \<and> pipe_ok q \<and> pipe_content q = pipe_content p @ xs \<and> pipe_cap q = pipe_cap p"
proof -
  let ?N = "length (buf p)" and ?r = "nat (pread p)" and ?w = "nat (pwrite p)" and ?n = "length xs"
  note D = pipe_ok_D [OF assms(1)]
  have ok: "0 \<le> pwrite p" "pwrite p < psize p" "psize p = int ?N" "psize p < 2147483648"
    using assms(1) by (auto simp: pipe_ok_def)
  have n: "ring_used ?N ?r ?w + ?n < ?N" using assms(2) D(1,3) by (simp add: pipe_cap_def)
  define w' where "w' = (if pwrite p + int ?n < psize p then pwrite p + int ?n else pwrite p + int ?n - psize p)"
  define q where "q = p\<lparr>buf := ring_store (buf p) ?w xs, pwrite := w', total_write := uw32 (total_write p + int ?n)\<rparr>"
  have w': "nat w' = (?w + ?n) mod ?N" "0 \<le> w'"
    using ok n by (auto simp: w'_def mod_cases nat_less_iff)
  have bl: "length (ring_store (buf p) ?w xs) = ?N" using n D(2) by simp
  have "pipe_write_raw p (Some xs) (int ?n) = Some (int ?n, q)"
    using ok n
    by (auto simp: pipe_write_raw_def Let_def i32_id uw32_id rd_blk_def wr_blk_def q_def w'_def
        ring_store_def nat_diff_distrib)
  moreover have "pipe_content q = pipe_content p @ xs"
    using ring_content_write [OF D(1,2) n] w'(1) by (simp add: pipe_content_def q_def)
  moreover have "nat w' < ?N" unfolding w'(1) by (rule mod_less_divisor) (use n in linarith)
  then have "pipe_ok q"
    using assms(1) w'(2) bl by (auto simp: pipe_ok_def q_def)
  moreover have "pipe_cap q = pipe_cap p" using bl by (simp add: q_def pipe_cap_def)
  ultimately show ?thesis by blast
qed

section \<open>The pipe is a bounded byte queue\<close>

definition pipe_put :: "pipe \<Rightarrow> u8 list \<Rightarrow> (bool \<times> pipe) option" where
  "pipe_put p xs = map_option (\<lambda>(n, p). (n = int (length xs), p)) (pipe_write p (Some xs) (int (length xs)))"

definition pipe_take :: "pipe \<Rightarrow> nat \<Rightarrow> (u8 list option \<times> pipe) option" where
  "pipe_take p n = map_option (\<lambda>(k, out, p). (if k = int n then Some out else None, p)) (pipe_read p True (int n))"

interpretation pf: byte_fifo pipe_content pipe_cap pipe_ok pipe_put pipe_take
proof
  fix p :: pipe and xs :: "u8 list" and n :: nat
  assume ok: "pipe_ok p"
  note U = pipe_get_used_ok [OF ok] pipe_get_free_ok [OF ok] and D = pipe_ok_D [OF ok]
  have sz: "psize p = int (pipe_cap p) + 1" using D(1,5) by (auto simp: pipe_cap_def)
  show "length (pipe_content p) \<le> pipe_cap p" using D(4) .
  show "\<exists>s'. pipe_put p xs = Some (True, s') \<and> pipe_ok s' \<and> pipe_content s' = pipe_content p @ xs \<and> pipe_cap s' = pipe_cap p"
    if "length (pipe_content p) + length xs \<le> pipe_cap p"
    using pipe_write_raw_ok [OF ok that] that U sz by (auto simp: pipe_put_def pipe_write_def)
  show "pipe_put p xs = Some (False, p)" if "pipe_cap p < length (pipe_content p) + length xs"
    using that U sz D(4) by (auto simp: pipe_put_def pipe_write_def)
  show "\<exists>s'. pipe_take p n = Some (Some (take n (pipe_content p)), s') \<and> pipe_ok s'
      \<and> pipe_content s' = drop n (pipe_content p) \<and> pipe_cap s' = pipe_cap p"
    if "n \<le> length (pipe_content p)"
    using pipe_read_raw_ok [OF ok that] that U by (auto simp: pipe_take_def pipe_read_def)
  show "pipe_take p n = Some (None, p)" if "length (pipe_content p) < n"
    using that U by (auto simp: pipe_take_def pipe_read_def)
qed

section \<open>Properties\<close>

text \<open>
  C17. pipe_write on a well-formed pipe: when the bytes fit beside the stored ones (one byte of
  the buffer always stays free) they are appended to the content and their number is returned;
  otherwise 0 is returned and the pipe is unchanged. No byte outside the buffer is touched and
  the invariant is kept.
\<close>

theorem pipe_write_appends:
  assumes "pipe_ok p"
  shows "if length (pipe_content p) + length xs < length (buf p)
    then \<exists>q. pipe_write p (Some xs) (int (length xs)) = Some (int (length xs), q) \<and> pipe_ok q
             \<and> pipe_content q = pipe_content p @ xs
    else pipe_write p (Some xs) (int (length xs)) = Some (0, p)"
proof -
  note D = pipe_ok_D [OF assms] and F = pipe_get_free_ok [OF assms]
  have sz: "psize p = int (pipe_cap p) + 1" "length (buf p) = pipe_cap p + 1"
    using D(1,5) by (auto simp: pipe_cap_def)
  show ?thesis
    using pipe_write_raw_ok [OF assms, of xs] F sz by (auto simp: pipe_write_def)
qed

theorem pipe_write_appends_witness:
  "\<exists>q. pipe_write (pipe_flush \<lparr>buf = [0, 0, 0], psize = 3, pwrite = 2, pread = 2, pend = True, total_write = 5, total_read = 5\<rparr>)
      (Some [7, 8]) 2 = Some (2, q) \<and> pipe_content q = [7, 8]"
  using pipe_write_appends [of "pipe_flush \<lparr>buf = [0, 0, 0], psize = 3, pwrite = 2, pread = 2, pend = True,
      total_write = 5, total_read = 5\<rparr>" "[7, 8]"]
  by (auto simp: pipe_ok_def pipe_flush_def pipe_content_def)

text \<open>
  Order of the bytes through the pipe: n bytes can be read exactly when n are stored; they
  are the oldest ones in order, wherever the read position stands in the buffer, and the rest
  stays stored. A read of more than is stored returns 0 and changes nothing.
\<close>

theorem pipe_read_oldest:
  assumes "pipe_ok p"
  shows "if n \<le> length (pipe_content p)
    then \<exists>q. pipe_read p True (int n) = Some (int n, take n (pipe_content p), q) \<and> pipe_ok q
             \<and> pipe_content q = drop n (pipe_content p)
    else pipe_read p True (int n) = Some (0, [], p)"
  using pipe_read_raw_ok [OF assms, of n] pipe_get_used_ok [OF assms]
  by (auto simp: pipe_read_def)

theorem pipe_read_oldest_witness:
  "\<exists>q. pipe_read \<lparr>buf = [3, 4, 0, 1, 2], psize = 5, pwrite = 2, pread = 3, pend = False, total_write = 7, total_read = 3\<rparr> True 3
     = Some (3, [1, 2, 3], q) \<and> pipe_content q = [4]"
  using pipe_read_oldest [of "\<lparr>buf = [3, 4, 0, 1, 2], psize = 5, pwrite = 2, pread = 3, pend = False, total_write = 7, total_read = 3\<rparr>" 3]
  by (auto simp: pipe_ok_def pipe_content_def ring_content_def ring_used_def ring_slice_two_parts)

text \<open>
  Waiting. The other thread may only append to or end the pipe; a waiting read then returns the
  bytes asked for, or, once the pipe is ended, what is left of them.
\<close>

lemma pipe_read_wait_end:
  assumes "pipe_ok p" "pend p"
  shows "\<exists>q. pipe_read_wait fs p True (int n)
    = Some (int (min n (length (pipe_content p))), take n (pipe_content p), q) \<and> pipe_ok q
      \<and> pipe_content q = drop n (pipe_content p)"
proof -
  obtain k where kd: "k = min n (length (pipe_content p))" by blast
  then have k: "min (int n) (int (length (pipe_content p))) = int k" by (simp add: min_def)
  have "pipe_read_wait fs p True (int n)
      = (if k = 0 then Some (0, [], p) else pipe_read_raw p True (int k))"
    unfolding pipe_read_wait.simps [of fs] pipe_get_used_ok [OF assms(1)] k
    using assms(2) by (simp add: pipe_get_end_def Let_def)
  then show ?thesis
    using pipe_read_raw_ok [OF assms(1), of k] assms(1) kd by (auto simp: min_def split: if_splits)
qed

end
