(* ===== verification/Stream_Queue.thy ===== *)
theory Stream_Queue
  imports Pipe
begin

text \<open>
  The queue of fixed-size entries of Source/stream_queue.c, built on the pipe. Each
  put and get runs under the queue's mutex and is one step here; a NULL queue or entry is
  None. The memory for the pipe is the argument m of stream_q_new
  (None: the allocator fails), other what other threads do to the queue
  while stream_q_get_wait waits for its condition variable.
\<close>

record stream_q =
  q_pipe :: pipe
  entry_size :: int
  q_length :: int

definition stream_q_new :: "int \<Rightarrow> int \<Rightarrow> bool \<Rightarrow> u8 list option \<Rightarrow> stream_q option" where
  "stream_q_new len esz struct_mem m =
     (if len = 0 \<or> esz = 0 \<or> \<not> struct_mem then None
      else do {
        p \<leftarrow> pipe_new (i32 (esz * (len + 1))) m;
        Some \<lparr>q_pipe = p, entry_size = esz, q_length = len\<rparr> })"

definition stream_q_put :: "stream_q option \<Rightarrow> u8 list option \<Rightarrow> (int \<times> stream_q option) option" where
  "stream_q_put q entry = (case (q, entry) of
     (Some q, Some e) \<Rightarrow> do {
       (n, p) \<leftarrow> pipe_write (q_pipe q) (Some e) (entry_size q);
       Some (if n \<noteq> entry_size q then 1 else 0, Some (q\<lparr>q_pipe := p\<rparr>)) }
   | _ \<Rightarrow> Some (1, q))"

text \<open>dst: whether the entry pointer is not NULL; the result carries the bytes stored there.\<close>

definition stream_q_get :: "stream_q option \<Rightarrow> bool \<Rightarrow> (int \<times> u8 list \<times> stream_q option) option" where
  "stream_q_get q dst = (case q of
     Some s \<Rightarrow> if \<not> dst then Some (1, [], q) else do {
       (n, out, p) \<leftarrow> pipe_read (q_pipe s) True (entry_size s);
       Some (if n \<noteq> entry_size s then 1 else 0, out, Some (s\<lparr>q_pipe := p\<rparr>)) }
   | None \<Rightarrow> Some (1, [], q))"

text \<open>The absolute deadline of the wait, from the time of day and a timeout in milliseconds.\<close>

definition wait_deadline :: "int \<Rightarrow> int \<Rightarrow> int \<Rightarrow> int \<times> int" where
  "wait_deadline tv_sec tv_usec timeout =
     (let nsec = tv_usec * 1000 + i32 (timeout * 1000000)
      in if nsec > 1000000000 then (tv_sec + 1, nsec - 1000000000) else (tv_sec, nsec))"

definition stream_q_get_wait ::
  "(int \<times> int \<Rightarrow> stream_q \<Rightarrow> stream_q) \<Rightarrow> int \<Rightarrow> int \<Rightarrow> stream_q option \<Rightarrow> bool \<Rightarrow> int
    \<Rightarrow> (int \<times> u8 list \<times> stream_q option) option" where
  "stream_q_get_wait other tv_sec tv_usec q dst timeout = do {
     (e, out, q) \<leftarrow> stream_q_get q dst;
     if e = 0 then Some (0, out, q)
     else do {
       s \<leftarrow> q;
       stream_q_get (Some (other (wait_deadline tv_sec tv_usec timeout) s)) dst } }"

definition stream_q_flush :: "stream_q option \<Rightarrow> int \<times> stream_q option" where
  "stream_q_flush q = (case q of None \<Rightarrow> (1, q) | Some s \<Rightarrow> (0, Some (s\<lparr>q_pipe := pipe_flush (q_pipe s)\<rparr>)))"

section \<open>Refinement of a bounded queue of entries\<close>

text \<open>The abstract queue: a list of entries and a capacity.\<close>

datatype q_op = Put "u8 list" | Get | Flush

datatype q_out = Accepted | Refused | Entry "u8 list" | Empty | Flushed

fun spec_step :: "nat \<Rightarrow> u8 list list \<Rightarrow> q_op \<Rightarrow> q_out \<times> u8 list list" where
  "spec_step n es (Put x) = (if length es < n then (Accepted, es @ [x]) else (Refused, es))"
| "spec_step n [] Get = (Empty, [])"
| "spec_step n (e # es) Get = (Entry e, es)"
| "spec_step n es Flush = (Flushed, [])"

fun q_step :: "stream_q option \<Rightarrow> q_op \<Rightarrow> (q_out \<times> stream_q option) option" where
  "q_step q (Put x) = map_option (\<lambda>(e, q). (if e = 0 then Accepted else Refused, q)) (stream_q_put q (Some x))"
| "q_step q Get = map_option (\<lambda>(e, out, q). (if e = 0 then Entry out else Empty, q)) (stream_q_get q True)"
| "q_step q Flush = Some (Flushed, snd (stream_q_flush q))"

fun spec_run :: "nat \<Rightarrow> u8 list list \<Rightarrow> q_op list \<Rightarrow> q_out list" where
  "spec_run n es [] = []"
| "spec_run n es (p # ps) = (let (out, es) = spec_step n es p in out # spec_run n es ps)"

fun q_run :: "stream_q option \<Rightarrow> q_op list \<Rightarrow> q_out list option" where
  "q_run q [] = Some []"
| "q_run q (p # ps) = do { (out, q) \<leftarrow> q_step q p; outs \<leftarrow> q_run q ps; Some (out # outs) }"

fun fits :: "nat \<Rightarrow> q_op \<Rightarrow> bool" where
  "fits e (Put x) = (length x = e)"
| "fits e _ = True"

definition q_abs :: "stream_q \<Rightarrow> nat \<Rightarrow> u8 list list \<Rightarrow> bool" where
  "q_abs s n es \<longleftrightarrow> 0 < entry_size s \<and> pf.holds (nat (entry_size s)) (q_pipe s) es \<and> length es \<le> n
     \<and> pipe_cap (q_pipe s) + 1 = (n + 1) * nat (entry_size s)"

lemma pipe_put_result: "pipe_put p x = Some (b, p') \<Longrightarrow>
    \<exists>n. pipe_write p (Some x) (int (length x)) = Some (n, p') \<and> b = (n = int (length x))"
  by (auto simp: pipe_put_def)

lemma pipe_take_result: "pipe_take p n = Some (r, p') \<Longrightarrow>
    \<exists>k out. pipe_read p True (int n) = Some (k, out, p') \<and> r = (if k = int n then Some out else None)"
  by (auto simp: pipe_take_def)

lemma q_step_put:
  assumes "q_abs s n es" "length x = nat (entry_size s)"
  shows "\<exists>s'. q_step (Some s) (Put x) = Some (fst (spec_step n es (Put x)), Some s')
    \<and> q_abs s' n (snd (spec_step n es (Put x))) \<and> entry_size s' = entry_size s"
proof -
  let ?e = "nat (entry_size s)"
  have h: "pf.holds ?e (q_pipe s) es" and e: "0 < ?e" "entry_size s = int (length x)"
    and c: "pipe_cap (q_pipe s) + 1 = (n + 1) * ?e" and len: "length es \<le> n"
    using assms by (auto simp: q_abs_def)
  show ?thesis
  proof (cases "length es < n")
    case True
    then have "(length es + 1) * ?e \<le> n * ?e" by (intro mult_right_mono) auto
    then have "(length es + 1) * ?e \<le> pipe_cap (q_pipe s)" using c e(1) by simp
    from pf.holds_put [OF h assms(2) this] obtain p'
      where "pipe_put (q_pipe s) x = Some (True, p')" "pf.holds ?e p' (es @ [x])"
        "pipe_cap p' = pipe_cap (q_pipe s)" by blast
    then show ?thesis
      using True e c pipe_put_result [of "q_pipe s" x True p']
      by (intro exI [of _ "s\<lparr>q_pipe := p'\<rparr>"]) (auto simp: stream_q_put_def q_abs_def)
  next
    case False
    then have "pipe_cap (q_pipe s) < (length es + 1) * ?e" using c len by simp
    from pf.holds_put_full [OF h assms(2) this] False show ?thesis
      using e assms(1) pipe_put_result [of "q_pipe s" x False "q_pipe s"]
      by (intro exI [of _ s]) (auto simp: stream_q_put_def intro!: exI [of _ 1])
  qed
qed

lemma q_step_get:
  assumes "q_abs s n es"
  shows "\<exists>s'. q_step (Some s) Get = Some (fst (spec_step n es Get), Some s')
    \<and> q_abs s' n (snd (spec_step n es Get)) \<and> entry_size s' = entry_size s"
proof -
  let ?e = "nat (entry_size s)"
  have h: "pf.holds ?e (q_pipe s) es" and e: "0 < ?e" "entry_size s = int ?e"
    and c: "pipe_cap (q_pipe s) + 1 = (n + 1) * ?e" and len: "length es \<le> n"
    using assms by (auto simp: q_abs_def)
  show ?thesis
  proof (cases es)
    case Nil
    have "pipe_take (q_pipe s) ?e = Some (None, q_pipe s)"
      by (rule pf.holds_get_empty [OF _ e(1)]) (use h Nil in simp)
    then show ?thesis
      using Nil assms pipe_take_result [of "q_pipe s" ?e None "q_pipe s"] e(2)
      by (intro exI [of _ s]) (auto simp: stream_q_get_def intro!: exI [of _ 1] split: if_splits)
  next
    case (Cons x xs)
    from pf.holds_get [OF h [unfolded Cons]] obtain p'
      where "pipe_take (q_pipe s) ?e = Some (Some x, p')" "pf.holds ?e p' xs"
        "pipe_cap p' = pipe_cap (q_pipe s)" by blast
    then show ?thesis
      using Cons e c len pipe_take_result [of "q_pipe s" ?e "Some x" p']
      by (intro exI [of _ "s\<lparr>q_pipe := p'\<rparr>"]) (auto simp: stream_q_get_def q_abs_def split: if_splits)
  qed
qed

lemma q_step_flush:
  assumes "q_abs s n es"
  shows "\<exists>s'. q_step (Some s) Flush = Some (Flushed, Some s') \<and> q_abs s' n [] \<and> entry_size s' = entry_size s"
  using assms by (auto simp: stream_q_flush_def q_abs_def pf.holds_def pipe_flush_def pipe_ok_def
      pipe_content_def pipe_cap_def)

lemma q_run_refines:
  assumes "q_abs s n es" "\<forall>p\<in>set ps. fits (nat (entry_size s)) p"
  shows "q_run (Some s) ps = Some (spec_run n es ps)"
  using assms
proof (induction ps arbitrary: s es)
  case (Cons p ps)
  have "\<exists>s'. q_step (Some s) p = Some (fst (spec_step n es p), Some s')
      \<and> q_abs s' n (snd (spec_step n es p)) \<and> entry_size s' = entry_size s"
    using Cons.prems q_step_put q_step_get q_step_flush by (cases p) auto
  then show ?case
    using Cons by (auto simp: case_prod_beta Let_def)
qed simp

lemma stream_q_new_abs:
  assumes "0 < esz" "0 < len" "esz * (len + 1) < 2 ^ 31" "length m = nat (esz * (len + 1))"
  shows "\<exists>s. stream_q_new len esz True (Some m) = Some s \<and> q_abs s (nat len) [] \<and> entry_size s = esz"
proof -
  have pos: "0 < esz * (len + 1)" using assms(1,2) by simp
  then have m: "0 < length m" "int (length m) = esz * (len + 1)" using assms(4) by auto
  have "nat (len + 1) = nat len + 1" using assms(2) by simp
  then have "length m = (nat len + 1) * nat esz"
    using assms(1,4) by (simp add: nat_mult_distrib mult.commute)
  then have "pipe_cap (pipe_flush \<lparr>buf = m, psize = z, pwrite = 0, pread = 0, pend = False, total_write = 0, total_read = 0\<rparr>) + 1
      = (nat len + 1) * nat esz" for z
    using m(1) by (simp add: pipe_cap_def pipe_flush_def)
  then show ?thesis
    using assms(1,2,3) pos m
    by (simp add: stream_q_new_def pipe_new_def q_abs_def pf.holds_def pipe_ok_def pipe_content_def
        i32_id uw32_id pipe_flush_def)
qed

section \<open>Properties\<close>

text \<open>
  C13. The entry queue refines a bounded queue of entries. A queue made by stream_q_new for
  len entries of esz bytes answers every sequence of puts (of entries of
  that size), gets and flushes exactly as a list of at most len entries does: a put
  is refused only when the list is full, a get delivers the oldest entry byte for byte and
  fails only when the list is empty. No step touches memory outside the pipe's buffer.
\<close>

theorem stream_q_refines_bounded_queue:
  assumes "0 < esz" "0 < len" "esz * (len + 1) < 2 ^ 31" "length m = nat (esz * (len + 1))"
    and "\<forall>p\<in>set ps. fits (nat esz) p"
  shows "\<exists>s. stream_q_new len esz True (Some m) = Some s \<and> q_run (Some s) ps = Some (spec_run (nat len) [] ps)"
  using stream_q_new_abs [OF assms(1-4)] q_run_refines assms(5) by blast

theorem stream_q_refines_bounded_queue_witness:
  "\<exists>s. stream_q_new 1 2 True (Some [0, 0, 0, 0]) = Some s
     \<and> q_run (Some s) [Put [1, 2], Put [3, 4], Get, Put [5, 6], Get, Get]
       = Some [Accepted, Refused, Entry [1, 2], Accepted, Entry [5, 6], Empty]"
  using stream_q_refines_bounded_queue [of 2 1 "[0, 0, 0, 0]" "[Put [1, 2], Put [3, 4], Get, Put [5, 6], Get, Get]"]
  by simp

text \<open>
  The deadline stream_q_get_wait hands to pthread_cond_timedwait. For a wait of less than a
  second it denotes the time of day plus the timeout, with at most 10^9 nanoseconds; the value
  10^9 itself, which is not a valid nanosecond count, is produced exactly when the sum hits a
  full second.
\<close>

theorem wait_deadline_time:
  assumes "0 \<le> usec" "usec < 1000000" "0 \<le> timeout" "timeout < 1000"
  shows "(case wait_deadline sec usec timeout of (s, ns) \<Rightarrow>
      s * 1000000000 + ns = (sec * 1000000 + usec) * 1000 + timeout * 1000000
      \<and> 0 \<le> ns \<and> ns \<le> 1000000000 \<and> (ns = 1000000000 \<longleftrightarrow> usec + timeout * 1000 = 1000000))"
  using assms by (auto simp: wait_deadline_def Let_def i32_id)

theorem wait_deadline_time_witness: "wait_deadline 7 900000 100 = (7, 1000000000)"
  using wait_deadline_time [of 900000 100 7] by (auto split: prod.splits simp: wait_deadline_def i32_def)

text \<open>
  With timeouts of two seconds or more the deadline carries a single second only: the
  nanosecond count stays at or above 10^9, a value pthread_cond_timedwait rejects, so the call
  does not wait at all.
\<close>

theorem wait_deadline_long_timeout:
  assumes "0 \<le> usec" "usec < 1000000" "2000 \<le> timeout" "timeout < 2147"
  shows "1000000000 \<le> snd (wait_deadline sec usec timeout)"
  using assms by (auto simp: wait_deadline_def Let_def i32_id)

theorem wait_deadline_long_timeout_witness: "1000000000 \<le> snd (wait_deadline 0 5 2000)"
  by (rule wait_deadline_long_timeout) simp_all

end
