(* ===== verification/Cbe.thy ===== *)
theory Cbe
  imports Ring
begin

text \<open>
  The circular buffer with overlap of Source/cbe.c: the memory is longer than the
  ring by coverlap bytes, in which the start of the ring is repeated, so that a parser
  can read a frame that crosses the end of the ring as one contiguous block. The record is
  struct CBE, positions are unsigned ints; the memory of the allocators is an argument.
\<close>

record cbe =
  cdata :: "u8 list"
  csize :: int
  overlap :: int
  dma :: bool
  wpos :: int
  rpos :: int

definition cbe_flush :: "cbe \<Rightarrow> cbe" where
  "cbe_flush c = c\<lparr>rpos := 0, wpos := 0\<rparr>"

definition cbe_new :: "int \<Rightarrow> int \<Rightarrow> bool \<Rightarrow> bool \<Rightarrow> u8 list option \<Rightarrow> cbe option" where
  "cbe_new sz ov dm struct_mem m =
     (if sz = 0 \<or> ov = 0 \<or> \<not> struct_mem then None
      else do { d \<leftarrow> m; Some (cbe_flush \<lparr>cdata = d, csize = uw32 sz, overlap = uw32 ov, dma = dm, wpos = 0, rpos = 0\<rparr>) })"

definition cbe_get_used :: "cbe \<Rightarrow> int" where
  "cbe_get_used c = (let used = i32 (wpos c - rpos c) in if used < 0 then i32 (used + csize c) else used)"

definition cbe_get_free :: "cbe \<Rightarrow> int" where
  "cbe_get_free c = (let free = i32 (rpos c - wpos c) in if free \<le> 0 then i32 (free + csize c) else free)"

definition cbe_get_size :: "cbe \<Rightarrow> int" where
  "cbe_get_size c = i32 (csize c)"

definition cbe_get_p :: "cbe \<Rightarrow> int" where
  "cbe_get_p c = rpos c"

definition cbe_get_tail_p :: "cbe \<Rightarrow> int \<Rightarrow> int" where
  "cbe_get_tail_p c sz = (let pos = i32 (wpos c - sz) in if pos < 0 then i32 (pos + csize c) else pos)"

definition cbe_get_write_p :: "cbe \<Rightarrow> int" where
  "cbe_get_write_p c = wpos c"

definition cbe_get_rest_size :: "cbe \<Rightarrow> int" where
  "cbe_get_rest_size c = uw32 (csize c + overlap c - rpos c)"

definition cbe_skip :: "cbe \<Rightarrow> int \<Rightarrow> cbe" where
  "cbe_skip c count =
     (let used = cbe_get_used c; count = min count used;
          c = c\<lparr>rpos := uw32 (rpos c + count)\<rparr>
      in if csize c \<le> rpos c then c\<lparr>rpos := rpos c - csize c\<rparr> else c)"

definition cbe_skip_all :: "cbe \<Rightarrow> cbe" where
  "cbe_skip_all c = c\<lparr>rpos := wpos c\<rparr>"

text \<open>*write is the argument w; (src, off) the source pointer.\<close>

definition cbe_copy_nowrap :: "cbe \<Rightarrow> int \<Rightarrow> u8 list \<Rightarrow> int \<Rightarrow> int \<Rightarrow> (cbe \<times> int) option" where
  "cbe_copy_nowrap c w src off count = do {
     xs \<leftarrow> rd_blk src off count;
     d \<leftarrow> wr_blk (cdata c) w xs;
     d \<leftarrow> (if w < overlap c then do {
             let copy = i32 (min (uw32 count) (overlap c - w));
             ys \<leftarrow> rd_blk src off copy;
             wr_blk d (csize c + w) ys }
           else Some d);
     let w = uw32 (w + count);
     Some (c\<lparr>cdata := d\<rparr>, if csize c \<le> w then w - csize c else w) }"

definition cbe_copy :: "cbe \<Rightarrow> int \<Rightarrow> u8 list \<Rightarrow> int \<Rightarrow> (int \<times> cbe \<times> int) option" where
  "cbe_copy c w src count = do {
     let rest = i32 (csize c - w);
     (c, w) \<leftarrow> (if count \<le> rest then cbe_copy_nowrap c w src 0 count
       else do {
         (c, w) \<leftarrow> cbe_copy_nowrap c w src 0 rest;
         cbe_copy_nowrap c w src rest (count - rest) });
     Some (count, c, w) }"

definition cbe_write :: "cbe \<Rightarrow> u8 list \<Rightarrow> int \<Rightarrow> (int \<times> cbe) option" where
  "cbe_write c src count = do {
     (n, c, w) \<leftarrow> cbe_copy c (wpos c) src count;
     Some (n, c\<lparr>wpos := w\<rparr>) }"

text \<open>Result: the patch pointer, the pointer into the overlap (NULL is None) and its size.\<close>

definition cbe_get_patch_p :: "cbe \<Rightarrow> int \<Rightarrow> int \<times> int option \<times> int" where
  "cbe_get_patch_p c sz =
     (if wpos c < overlap c
      then (wpos c, Some (csize c + wpos c), i32 (min (uw32 sz) (overlap c - wpos c)))
      else (wpos c, None, 0))"

definition cbe_patch :: "cbe \<Rightarrow> int \<Rightarrow> int \<Rightarrow> (int \<times> cbe) option" where
  "cbe_patch c patch_p sz =
     (let w = i32 patch_p in
      if w < 0 \<or> csize c \<le> uw32 w then Some (1, c)
      else if uw32 w < overlap c then do {
        let copy = i32 (min (uw32 sz) (overlap c - w));
        xs \<leftarrow> rd_blk (cdata c) w copy;
        d \<leftarrow> wr_blk (cdata c) (csize c + w) xs;
        Some (0, c\<lparr>cdata := d\<rparr>) }
      else Some (0, c))"

section \<open>Invariant and content\<close>

definition cbe_ring :: "cbe \<Rightarrow> u8 list" where
  "cbe_ring c = take (nat (csize c)) (cdata c)"

definition cbe_content :: "cbe \<Rightarrow> u8 list" where
  "cbe_content c = ring_content (cbe_ring c) (nat (rpos c)) (nat (wpos c))"

definition cbe_shape :: "cbe \<Rightarrow> bool" where
  "cbe_shape c \<longleftrightarrow> 0 < csize c \<and> 0 \<le> overlap c \<and> overlap c \<le> csize c \<and> csize c + overlap c < 2 ^ 31
     \<and> int (length (cdata c)) = csize c + overlap c
     \<and> 0 \<le> rpos c \<and> rpos c < csize c \<and> 0 \<le> wpos c \<and> wpos c < csize c"

text \<open>The stored bytes can be read contiguously as far as the memory reaches.\<close>

definition cbe_linear :: "cbe \<Rightarrow> bool" where
  "cbe_linear c \<longleftrightarrow> (\<forall>k<length (cbe_content c). nat (rpos c) + k < length (cdata c)
     \<longrightarrow> cdata c ! (nat (rpos c) + k) = cbe_content c ! k)"

lemma cbe_shape_D:
  assumes "cbe_shape c"
  shows "length (cbe_ring c) = nat (csize c)" "nat (rpos c) < nat (csize c)" "nat (wpos c) < nat (csize c)"
    "length (cbe_content c) = ring_used (nat (csize c)) (nat (rpos c)) (nat (wpos c))"
    "length (cbe_content c) < nat (csize c)" "length (cdata c) = nat (csize c) + nat (overlap c)"
proof -
  show l: "length (cbe_ring c) = nat (csize c)" and rw: "nat (rpos c) < nat (csize c)" "nat (wpos c) < nat (csize c)"
    and "length (cdata c) = nat (csize c) + nat (overlap c)"
    using assms by (auto simp: cbe_shape_def cbe_ring_def)
  then show "length (cbe_content c) = ring_used (nat (csize c)) (nat (rpos c)) (nat (wpos c))"
    by (simp add: cbe_content_def length_ring_content)
  then show "length (cbe_content c) < nat (csize c)" using ring_used_less [OF rw] by simp
qed

lemma cbe_get_used_ok: "cbe_shape c \<Longrightarrow> cbe_get_used c = int (length (cbe_content c))"
  using cbe_shape_D(4) [of c] by (auto simp: cbe_get_used_def ring_used_def i32_id Let_def cbe_shape_def)

lemma cbe_get_free_ok: "cbe_shape c \<Longrightarrow> cbe_get_free c = csize c - int (length (cbe_content c))"
  using cbe_shape_D(4) [of c]
  by (auto simp: cbe_get_free_def ring_used_def i32_id Let_def cbe_shape_def)

lemma cbe_copy_nowrap_ok:
  assumes "cbe_shape c" "0 \<le> w" "w < csize c" "0 \<le> off" "0 \<le> n" "w + n \<le> csize c" "off + n \<le> int (length src)"
  defines "xs \<equiv> take (nat n) (drop (nat off) src)"
  shows "\<exists>d. cbe_copy_nowrap c w src off n = Some (c\<lparr>cdata := d\<rparr>, if w + n = csize c then 0 else w + n)
    \<and> length d = length (cdata c)
    \<and> (\<forall>i<length (cdata c). d ! i = cell_after (cdata c) (nat (csize c)) (nat w) xs i)"
proof -
  have s: "0 < csize c" "0 \<le> overlap c" "overlap c \<le> csize c" "csize c + overlap c < 2147483648"
    "int (length (cdata c)) = csize c + overlap c"
    using assms(1) by (auto simp: cbe_shape_def)
  note A = assms(2-7)
  have xs: "length xs = nat n" "rd_blk src off n = Some xs" using assms by (auto simp: rd_blk_def)
  define d1 where "d1 = put_at (cdata c) (nat w) xs"
  have d1: "wr_blk (cdata c) w xs = Some d1" "length d1 = length (cdata c)"
    using A s xs by (auto simp: wr_blk_def d1_def)
  define copy where "copy = min n (overlap c - w)"
  define d2 where "d2 = (if w < overlap c then put_at d1 (nat (csize c + w)) (take (nat copy) xs) else d1)"
  have ul: "uw32 n = n" "uw32 (w + n) = w + n" using A s by (auto simp: uw32_id)
  have d2: "length d2 = length (cdata c)" using A s xs d1 by (auto simp: d2_def copy_def)
  have "cbe_copy_nowrap c w src off n = Some (c\<lparr>cdata := d2\<rparr>, if w + n = csize c then 0 else w + n)"
  proof (cases "w < overlap c")
    case True
    then have "rd_blk src off copy = Some (take (nat copy) xs)" "i32 copy = copy" "0 \<le> copy"
      "wr_blk d1 (csize c + w) (take (nat copy) xs) = Some d2"
      using A s xs d1 by (auto simp: rd_blk_def copy_def min_def i32_id wr_blk_def d2_def)
    then show ?thesis
      using True assms(6) xs d1 ul by (simp add: cbe_copy_nowrap_def copy_def)
  next
    case False
    then show ?thesis
      using assms(6) xs d1 ul by (simp add: cbe_copy_nowrap_def d2_def)
  qed
  moreover have "d2 ! i = cell_after (cdata c) (nat (csize c)) (nat w) xs i" if "i < length (cdata c)" for i
  proof -
    have "take (nat copy) xs = take (nat (overlap c) - nat w) xs"
      using A(1,2) s(2) xs(1) by (cases "n \<le> overlap c - w") (auto simp: copy_def min_def nat_diff_distrib')
    then have "d2 = (if nat w < nat (overlap c)
        then put_at (put_at (cdata c) (nat w) xs) (nat (csize c) + nat w) (take (nat (overlap c) - nat w) xs)
        else put_at (cdata c) (nat w) xs)"
      using A(1,2) s by (auto simp: d2_def d1_def nat_add_distrib)
    then show ?thesis
      using that A s xs(1) put_with_overlap [of "cdata c" "nat (csize c)" "nat (overlap c)" "nat w" xs i] by simp
  qed
  ultimately show ?thesis using d2 by blast
qed

lemma cbe_write_cells:
  assumes "cbe_shape c" "length xs \<le> nat (csize c)"
  shows "\<exists>d. cbe_write c xs (int (length xs)) = Some (int (length xs), c\<lparr>cdata := d, wpos := int ((nat (wpos c) + length xs) mod nat (csize c))\<rparr>)
    \<and> length d = length (cdata c)
    \<and> (\<forall>i<length (cdata c). d ! i = cell_after (cdata c) (nat (csize c)) (nat (wpos c)) xs i)"
proof -
  let ?N = "nat (csize c)" and ?w = "wpos c" and ?n = "int (length xs)"
  have s: "0 < csize c" "0 \<le> ?w" "?w < csize c" "csize c < 2147483648"
    using assms(1) by (auto simp: cbe_shape_def)
  have rest: "i32 (csize c - ?w) = csize c - ?w" using s by (simp add: i32_id)
  show ?thesis
  proof (cases "?n \<le> csize c - ?w")
    case True
    have w': "(if ?w + ?n = csize c then 0 else ?w + ?n) = int ((nat ?w + length xs) mod ?N)"
      using True s by (auto simp: mod_cases nat_less_iff)
    from cbe_copy_nowrap_ok [OF assms(1) s(2,3), of 0 ?n xs] True
    obtain d where "cbe_copy_nowrap c ?w xs 0 ?n = Some (c\<lparr>cdata := d\<rparr>, int ((nat ?w + length xs) mod ?N))"
      "length d = length (cdata c)" "\<forall>i<length (cdata c). d ! i = cell_after (cdata c) ?N (nat ?w) xs i"
      by (auto simp: w')
    then show ?thesis using True by (intro exI [of _ d]) (simp add: cbe_write_def cbe_copy_def rest)
  next
    case False
    define k where "k = nat (csize c - ?w)"
    have k: "int k = csize c - ?w" "k \<le> length xs" "k + nat ?w = ?N" using s False by (auto simp: k_def)
    obtain d1 where d1: "cbe_copy_nowrap c ?w xs 0 (csize c - ?w) = Some (c\<lparr>cdata := d1\<rparr>, 0)"
      "length d1 = length (cdata c)"
      "\<forall>i<length (cdata c). d1 ! i = cell_after (cdata c) ?N (nat ?w) (take k xs) i"
      using cbe_copy_nowrap_ok [OF assms(1) s(2,3), of 0 "csize c - ?w" xs] s k by (auto simp: k_def)
    have "cbe_shape (c\<lparr>cdata := d1\<rparr>)" using assms(1) d1(2) by (simp add: cbe_shape_def)
    moreover have "length xs - k \<le> nat ?w" using k assms(2) by simp
    moreover have "?n + ?w < 2 * csize c" using s assms(2) by linarith
    ultimately obtain d2 where d2: "cbe_copy_nowrap (c\<lparr>cdata := d1\<rparr>) 0 xs (csize c - ?w) (?n - (csize c - ?w))
        = Some (c\<lparr>cdata := d2\<rparr>, ?n - (csize c - ?w))"
      "length d2 = length (cdata c)"
      "\<forall>i<length (cdata c). d2 ! i = cell_after d1 ?N 0 (drop k xs) i"
      using cbe_copy_nowrap_ok [of "c\<lparr>cdata := d1\<rparr>" 0 "csize c - ?w" "?n - (csize c - ?w)" xs] s k d1(2) False
      by (auto simp: k_def split: if_splits)
    have w': "?n - (csize c - ?w) = int ((nat ?w + length xs) mod ?N)"
      using False s assms(2) by (subst mod_cases) auto
    have "d2 ! i = cell_after (cdata c) ?N (nat ?w) xs i" if "i < length (cdata c)" for i
    proof -
      have "i < 2 * ?N" using that assms(1) by (auto simp: cbe_shape_def)
      then have "cell_after d1 ?N 0 (drop k xs) i = cell_after (cdata c) ?N (nat ?w) (take k xs @ drop k xs) i"
        using that s k d1(2,3) assms(2) by (intro cell_after_compose) auto
      then show ?thesis using d2(3) that by simp
    qed
    then show ?thesis
      using False d1 d2 w' rest by (auto simp: cbe_write_def cbe_copy_def)
  qed
qed

lemma cbe_write_ok:
  assumes "cbe_shape c" "cbe_linear c" "length (cbe_content c) + length xs < nat (csize c)"
  shows "\<exists>q. cbe_write c xs (int (length xs)) = Some (int (length xs), q)
    \<and> cbe_shape q \<and> cbe_linear q \<and> cbe_content q = cbe_content c @ xs"
proof -
  let ?N = "nat (csize c)" and ?r = "nat (rpos c)" and ?w = "nat (wpos c)" and ?u = "length (cbe_content c)"
  note D = cbe_shape_D [OF assms(1)]
  have ov: "length (cdata c) = ?N + nat (overlap c)" "nat (overlap c) \<le> ?N"
    using D(6) assms(1) by (auto simp: cbe_shape_def)
  obtain d where d: "cbe_write c xs (int (length xs)) = Some (int (length xs), c\<lparr>cdata := d, wpos := int ((?w + length xs) mod ?N)\<rparr>)"
    "length d = length (cdata c)" "\<forall>i<length (cdata c). d ! i = cell_after (cdata c) ?N ?w xs i"
    using cbe_write_cells [OF assms(1), of xs] assms(3) by auto
  define q where "q = c\<lparr>cdata := d, wpos := int ((?w + length xs) mod ?N)\<rparr>"
  have N: "0 < ?N" using D(2) by linarith
  have ring: "cbe_ring q = ring_store (cbe_ring c) ?w xs"
  proof (rule nth_equalityI)
    fix i assume "i < length (cbe_ring q)"
    then have i: "i < ?N" by (simp add: cbe_ring_def q_def)
    have "?w < length (cbe_ring c)" "length xs \<le> length (cbe_ring c)" "i < length (cbe_ring c)"
      using D(1,3) assms(3) i by auto
    note st = nth_ring_store [OF this]
    have "cbe_ring q ! i = d ! i" "cbe_ring c ! i = cdata c ! i"
      using i by (simp_all add: cbe_ring_def q_def)
    then show "cbe_ring q ! i = ring_store (cbe_ring c) ?w xs ! i"
      using i st d(3) ov(1) D(1) by (simp add: cell_after_def Let_def)
  next
    have "length (ring_store (cbe_ring c) ?w xs) = length (cbe_ring c)"
      using D(1,3) assms(3) by (intro length_ring_store) auto
    then show "length (cbe_ring q) = length (ring_store (cbe_ring c) ?w xs)"
      using d(2) by (simp add: cbe_ring_def q_def)
  qed
  have content: "cbe_content q = cbe_content c @ xs"
    using ring_content_write [of ?r "cbe_ring c" ?w xs] D(1-4) assms(3) ring
    by (simp add: cbe_content_def q_def)
  have "(?w + length xs) mod ?N < ?N" using N by simp
  then have "int ((?w + length xs) mod ?N) < csize c" by linarith
  then have shape: "cbe_shape q" using assms(1) d(2) by (auto simp: cbe_shape_def q_def)
  have wv: "?w = (if ?r + ?u < ?N then ?r + ?u else ?r + ?u - ?N)"
    using ring_used_write [OF D(2,3)] D(2,4,5) by (auto simp: mod_cases split: if_splits)
  have "d ! (?r + k) = (cbe_content c @ xs) ! k" if "k < ?u + length xs" "?r + k < length (cdata c)" for k
  proof (cases "k < ?u")
    case True
    then have "cell_after (cdata c) ?N ?w xs (?r + k) = cdata c ! (?r + k)"
      using that ov by (intro cell_after_old [OF D(2) assms(3) wv]) auto
    then show ?thesis using True that d(3) assms(2) by (simp add: cbe_linear_def nth_append)
  next
    case False
    then have "cell_after (cdata c) ?N ?w xs (?r + k) = xs ! (k - ?u)"
      using that ov by (intro cell_after_new [OF D(2) assms(3) wv]) auto
    then show ?thesis using False that d(3) by (simp add: nth_append)
  qed
  then have "cbe_linear q" using content d(2) by (simp add: cbe_linear_def) (simp add: q_def)
  with d(1) shape content show ?thesis by (auto simp: q_def)
qed

lemma cbe_content_nth:
  assumes "cbe_shape c" "k < length (cbe_content c)" "nat (rpos c) + k < 2 * nat (csize c)"
  shows "cbe_content c ! k = (if nat (rpos c) + k < nat (csize c) then cdata c ! (nat (rpos c) + k)
     else cdata c ! (nat (rpos c) + k - nat (csize c)))"
proof -
  note D = cbe_shape_D [OF assms(1)]
  have "cbe_content c ! k = cbe_ring c ! ((nat (rpos c) + k) mod nat (csize c))"
    using assms(2) D(1,4,5) by (simp add: cbe_content_def ring_content_def nth_ring_slice)
  moreover have "cbe_ring c ! i = cdata c ! i" if "i < nat (csize c)" for i
    using that by (simp add: cbe_ring_def)
  ultimately show ?thesis using assms(3) by (auto simp: mod_cases)
qed

lemma cbe_skip_ok:
  assumes "cbe_shape c" "cbe_linear c"
  shows "cbe_shape (cbe_skip c (int n)) \<and> cbe_linear (cbe_skip c (int n))
    \<and> cbe_content (cbe_skip c (int n)) = drop n (cbe_content c)"
proof -
  let ?N = "nat (csize c)" and ?r = "nat (rpos c)" and ?u = "length (cbe_content c)"
  define k where "k = min n ?u"
  note D = cbe_shape_D [OF assms(1)]
  have s: "0 < csize c" "0 \<le> rpos c" "rpos c < csize c" "csize c < 2147483648"
    using assms(1) by (auto simp: cbe_shape_def)
  define r' where "r' = (if rpos c + int k < csize c then rpos c + int k else rpos c + int k - csize c)"
  have k: "k \<le> ?u" "k < ?N" "int k < csize c" using D(5) by (auto simp: k_def)
  have m: "min (int n) (int ?u) = int k" by (simp add: k_def min_def)
  have "cbe_skip c (int n) = c\<lparr>rpos := r'\<rparr>"
    using s k by (simp add: cbe_skip_def cbe_get_used_ok [OF assms(1)] m Let_def uw32_id r'_def)
  moreover have r': "nat r' = (?r + k) mod ?N" "0 \<le> r'" "r' < csize c"
    using s k by (auto simp: r'_def mod_cases nat_less_iff)
  moreover have shape: "cbe_shape (c\<lparr>rpos := r'\<rparr>)"
    using assms(1) r'(2,3) by (auto simp: cbe_shape_def)
  moreover have content: "cbe_content (c\<lparr>rpos := r'\<rparr>) = drop k (cbe_content c)"
    using ring_content_read [of ?r "cbe_ring c" "nat (wpos c)" k] D(1-4) k(1) r'(1)
    by (simp only: cbe_content_def) (simp add: cbe_ring_def)
  moreover have "drop k (cbe_content c) = drop n (cbe_content c)"
    by (auto simp: k_def min_def)
  moreover have "cbe_linear (c\<lparr>rpos := r'\<rparr>)"
    unfolding cbe_linear_def
  proof (intro allI impI)
    fix j assume j: "j < length (cbe_content (c\<lparr>rpos := r'\<rparr>))"
      "nat (rpos (c\<lparr>rpos := r'\<rparr>)) + j < length (cdata (c\<lparr>rpos := r'\<rparr>))"
    then have j': "k + j < ?u" "nat r' + j < length (cdata c)" using content by auto
    show "cdata (c\<lparr>rpos := r'\<rparr>) ! (nat (rpos (c\<lparr>rpos := r'\<rparr>)) + j) = cbe_content (c\<lparr>rpos := r'\<rparr>) ! j"
    proof (cases "rpos c + int k < csize c")
      case True
      then have "nat r' + j = ?r + (k + j)" using s by (simp add: r'_def nat_add_distrib)
      then have "cdata c ! (nat r' + j) = cbe_content c ! (k + j)"
        using assms(2) j' unfolding cbe_linear_def by metis
      then show ?thesis using content j'(1) by simp
    next
      case False
      then have "nat r' + ?N = ?r + k" using s by (auto simp: r'_def nat_add_distrib)
      then have "nat r' + j = ?r + (k + j) - ?N" "?r + (k + j) \<ge> ?N" by linarith+
      then have "cdata c ! (nat r' + j) = cbe_content c ! (k + j)"
        using cbe_content_nth [OF assms(1) j'(1)] j'(1) D(2,5) by simp
      then show ?thesis using content j'(1) by simp
    qed
  qed
  ultimately show ?thesis by simp
qed

definition cbe_ok :: "cbe \<Rightarrow> bool" where
  "cbe_ok c \<longleftrightarrow> cbe_shape c \<and> cbe_linear c"

lemma cbe_new_ok:
  assumes "0 < sz" "0 < ov" "ov \<le> sz" "sz + ov < 2 ^ 31" "int (length m) = sz + ov"
  shows "\<exists>c. cbe_new sz ov dm True (Some m) = Some c \<and> cbe_ok c \<and> cbe_content c = []"
  using assms by (auto simp: cbe_new_def cbe_flush_def cbe_ok_def cbe_shape_def cbe_linear_def cbe_content_def uw32_id)

section \<open>Properties\<close>

text \<open>
  C16. The overlap invariant of the CBE. On a well-formed buffer, whose stored bytes can be
  read contiguously from the read pointer as far as the memory reaches, cbe_write of bytes that
  fit beside the stored ones stays inside the memory, appends them to the content and keeps the
  invariant (every byte that lands in the first overlap cells is repeated behind the
  ring), and cbe_skip drops the oldest bytes and keeps it too.
\<close>

theorem cbe_write_skip_keep_overlap:
  assumes "cbe_ok c" "int (length (cbe_content c) + length xs) < csize c"
  shows "(\<exists>q. cbe_write c xs (int (length xs)) = Some (int (length xs), q) \<and> cbe_ok q
       \<and> cbe_content q = cbe_content c @ xs)
    \<and> cbe_ok (cbe_skip c (int n)) \<and> cbe_content (cbe_skip c (int n)) = drop n (cbe_content c)"
  using cbe_write_ok [of c xs] cbe_skip_ok [of c n] assms by (simp add: cbe_ok_def)

theorem cbe_write_skip_keep_overlap_witness:
  "\<exists>q. cbe_write \<lparr>cdata = [0, 0, 0, 0, 5, 0, 0], csize = 5, overlap = 2, dma = False, wpos = 0, rpos = 4\<rparr> [6, 7] 2
     = Some (2, q) \<and> cbe_ok q \<and> cbe_content q = [5, 6, 7]"
  using cbe_write_skip_keep_overlap [of "\<lparr>cdata = [0, 0, 0, 0, 5, 0, 0], csize = 5, overlap = 2, dma = False, wpos = 0, rpos = 4\<rparr>" "[6, 7]"]
  by (simp add: cbe_ok_def cbe_shape_def cbe_linear_def cbe_content_def cbe_ring_def ring_content_def
      ring_used_def ring_slice_two_parts)

text \<open>
  Contiguous reads. Any number of stored bytes up to cbe_get_rest_size can be read as one
  block at cbe_get_p, even when the data wraps around the end of the ring, and the block is the
  oldest stored bytes in order.
\<close>

theorem cbe_contiguous_read:
  assumes "cbe_ok c" "k \<le> length (cbe_content c)" "int k \<le> cbe_get_rest_size c"
  shows "rd_blk (cdata c) (cbe_get_p c) (int k) = Some (take k (cbe_content c))"
proof -
  have s: "0 \<le> rpos c" "rpos c < csize c" "0 \<le> overlap c" "csize c + overlap c < 2147483648"
    "int (length (cdata c)) = csize c + overlap c"
    using assms(1) by (auto simp: cbe_ok_def cbe_shape_def)
  then have "rpos c + int k \<le> int (length (cdata c))"
    using assms(3) by (simp add: cbe_get_rest_size_def uw32_id)
  moreover from this have "take k (drop (nat (rpos c)) (cdata c)) = take k (cbe_content c)"
    using assms(1,2) s(1) by (intro take_drop_nth_eqI) (auto simp: cbe_ok_def cbe_linear_def)
  ultimately show ?thesis using s(1) by (simp add: rd_blk_def cbe_get_p_def)
qed

theorem cbe_contiguous_read_witness:
  "rd_blk [6, 7, 0, 0, 5, 6, 7] (4::int) 3 = Some ([5, 6, 7] :: u8 list)"
  using cbe_contiguous_read [of "\<lparr>cdata = [6, 7, 0, 0, 5, 6, 7], csize = 5, overlap = 2, dma = False, wpos = 2, rpos = 4\<rparr>" 3]
  by (simp add: cbe_ok_def cbe_shape_def cbe_linear_def cbe_content_def cbe_ring_def ring_content_def
      ring_used_def ring_slice_two_parts cbe_get_rest_size_def cbe_get_p_def uw32_def less_Suc_eq numeral_eq_Suc)

end
