(* ===== verification/Linked_List.thy ===== *)
theory Linked_List
  imports Prelude
begin

text \<open>
  The doubly linked list of Source/linked_list.c over an explicit store: an address is a nat,
  NULL is None, a heap maps the address of each LinkedListNode to its fields, and the classes of
  Source/object.c are a table from a class to its superclass. A function returns None when it
  dereferences NULL or a dangling address, when an assert fails, or when its walk along the
  links does not end. The section on segments is the usual shape predicate; the properties show
  each operation as the corresponding operation on the list of addresses.
\<close>

type_synonym addr = nat

record node =
  cls :: nat
  prev :: "addr option"
  next_ptr :: "addr option"

type_synonym heap = "addr \<Rightarrow> node option"

record linked_list =
  first :: "addr option"
  last_ptr :: "addr option"
  cnt :: int

section \<open>Classes\<close>

definition Object_class :: nat where
  "Object_class = 0"

partial_function (option) inherits_loop :: "(nat \<Rightarrow> nat option) \<Rightarrow> nat \<Rightarrow> nat option \<Rightarrow> bool option" where
  "inherits_loop super c tmp = (case tmp of None \<Rightarrow> Some False
     | Some t \<Rightarrow> if t = c then Some True else inherits_loop super c (super t))"

definition Object_inherits :: "(nat \<Rightarrow> nat option) \<Rightarrow> heap \<Rightarrow> addr \<Rightarrow> nat \<Rightarrow> bool option" where
  "Object_inherits super h obj c = do { n \<leftarrow> h obj; inherits_loop super c (Some (cls n)) }"

definition Object_as :: "(nat \<Rightarrow> nat option) \<Rightarrow> heap \<Rightarrow> addr option \<Rightarrow> nat \<Rightarrow> addr option option" where
  "Object_as super h obj c = (case obj of None \<Rightarrow> Some None
     | Some a \<Rightarrow> do { b \<leftarrow> Object_inherits super h a c; if b then Some obj else None })"

definition Object_dcast :: "(nat \<Rightarrow> nat option) \<Rightarrow> heap \<Rightarrow> addr option \<Rightarrow> nat \<Rightarrow> addr option option" where
  "Object_dcast super h obj c = (case obj of None \<Rightarrow> Some None
     | Some a \<Rightarrow> do { b \<leftarrow> Object_inherits super h a c; Some (if b then obj else None) })"

section \<open>Nodes and lists\<close>

definition LinkedListNode_init :: "heap \<Rightarrow> addr \<Rightarrow> heap option" where
  "LinkedListNode_init h obj = do { n \<leftarrow> h obj; Some (h(obj \<mapsto> n\<lparr>prev := None, next_ptr := None\<rparr>)) }"

partial_function (option) find_loop ::
  "(nat \<Rightarrow> nat option) \<Rightarrow> heap \<Rightarrow> (node \<Rightarrow> addr option) \<Rightarrow> nat \<Rightarrow> addr option \<Rightarrow> addr option option" where
  "find_loop super h step c obj = (case obj of None \<Rightarrow> Some None
     | Some a \<Rightarrow> do {
         o' \<leftarrow> Object_as super h (Some a) Object_class;
         a' \<leftarrow> o';
         b \<leftarrow> Object_inherits super h a' c;
         if b then Some obj else do { n \<leftarrow> h a; find_loop super h step c (step n) } })"

definition LinkedListNode_findPrev :: "(nat \<Rightarrow> nat option) \<Rightarrow> heap \<Rightarrow> addr \<Rightarrow> nat \<Rightarrow> addr option option" where
  "LinkedListNode_findPrev super h obj c = do { n \<leftarrow> h obj; find_loop super h prev c (prev n) }"

definition LinkedListNode_findNext :: "(nat \<Rightarrow> nat option) \<Rightarrow> heap \<Rightarrow> addr \<Rightarrow> nat \<Rightarrow> addr option option" where
  "LinkedListNode_findNext super h obj c = do { n \<leftarrow> h obj; find_loop super h next_ptr c (next_ptr n) }"

definition LinkedList_init :: linked_list where
  "LinkedList_init = \<lparr>first = None, last_ptr = None, cnt = 0\<rparr>"

definition LinkedList_count :: "linked_list \<Rightarrow> int" where
  "LinkedList_count l = cnt l"

definition LinkedList_isEnqueued :: "heap \<Rightarrow> linked_list \<Rightarrow> addr \<Rightarrow> bool option" where
  "LinkedList_isEnqueued h l e = do {
     n \<leftarrow> h e;
     Some (prev n \<noteq> None \<or> next_ptr n \<noteq> None \<or> first l = Some e) }"

partial_function (option) index_loop :: "heap \<Rightarrow> addr \<Rightarrow> addr option \<Rightarrow> int \<Rightarrow> int option" where
  "index_loop h e act i = (case act of None \<Rightarrow> Some (-1)
     | Some a \<Rightarrow> if a = e then Some i else do { n \<leftarrow> h a; index_loop h e (next_ptr n) (i + 1) })"

definition LinkedList_indexOf :: "heap \<Rightarrow> linked_list \<Rightarrow> addr \<Rightarrow> int option" where
  "LinkedList_indexOf h l e = do {
     b \<leftarrow> LinkedList_isEnqueued h l e;
     if \<not> b then Some (-1) else index_loop h e (first l) 0 }"

definition LinkedList_contains :: "heap \<Rightarrow> linked_list \<Rightarrow> addr option \<Rightarrow> bool option" where
  "LinkedList_contains h l e = (case e of None \<Rightarrow> Some False
     | Some a \<Rightarrow> map_option (\<lambda>i. i \<noteq> -1) (LinkedList_indexOf h l a))"

partial_function (option) entry_loop :: "heap \<Rightarrow> int \<Rightarrow> addr option \<Rightarrow> int \<Rightarrow> addr option option" where
  "entry_loop h k act i = (case act of None \<Rightarrow> Some None
     | Some a \<Rightarrow> if i = k then Some (Some a) else do { n \<leftarrow> h a; entry_loop h k (next_ptr n) (i + 1) })"

definition LinkedList_entryAt :: "heap \<Rightarrow> linked_list \<Rightarrow> int \<Rightarrow> addr option option" where
  "LinkedList_entryAt h l k = entry_loop h k (first l) 0"

text \<open>Assignments through a pointer that may be NULL only behind its test.\<close>

definition set_prev :: "heap \<Rightarrow> addr \<Rightarrow> addr option \<Rightarrow> heap option" where
  "set_prev h a p = do { n \<leftarrow> h a; Some (h(a \<mapsto> n\<lparr>prev := p\<rparr>)) }"

definition set_next :: "heap \<Rightarrow> addr \<Rightarrow> addr option \<Rightarrow> heap option" where
  "set_next h a p = do { n \<leftarrow> h a; Some (h(a \<mapsto> n\<lparr>next_ptr := p\<rparr>)) }"

definition LinkedList_append :: "heap \<Rightarrow> linked_list \<Rightarrow> addr \<Rightarrow> (heap \<times> linked_list) option" where
  "LinkedList_append h l e = do {
     b \<leftarrow> LinkedList_isEnqueued h l e;
     if b then None else do {
       h \<leftarrow> set_prev h e (last_ptr l);
       h \<leftarrow> (case last_ptr l of Some z \<Rightarrow> set_next h z (Some e) | None \<Rightarrow> Some h);
       let l = (if first l = None then l\<lparr>first := Some e\<rparr> else l);
       Some (h, l\<lparr>last_ptr := Some e, cnt := cnt l + 1\<rparr>) } }"

definition LinkedList_prepend :: "heap \<Rightarrow> linked_list \<Rightarrow> addr \<Rightarrow> (heap \<times> linked_list) option" where
  "LinkedList_prepend h l e = do {
     b \<leftarrow> LinkedList_isEnqueued h l e;
     if b then None else do {
       h \<leftarrow> set_next h e (first l);
       h \<leftarrow> (case first l of Some a \<Rightarrow> set_prev h a (Some e) | None \<Rightarrow> Some h);
       let l = (if last_ptr l = None then l\<lparr>last_ptr := Some e\<rparr> else l);
       Some (h, l\<lparr>first := Some e, cnt := cnt l + 1\<rparr>) } }"

definition LinkedList_insertBefore :: "heap \<Rightarrow> linked_list \<Rightarrow> addr \<Rightarrow> addr \<Rightarrow> (heap \<times> linked_list) option" where
  "LinkedList_insertBefore h l e nxt = do {
     b \<leftarrow> LinkedList_isEnqueued h l e;
     if b then None else do {
       h \<leftarrow> set_next h e (Some nxt);
       n \<leftarrow> h nxt;
       h \<leftarrow> set_prev h e (prev n);
       n \<leftarrow> h nxt;
       (h, l) \<leftarrow> (case prev n of
           Some p \<Rightarrow> map_option (\<lambda>h. (h, l)) (set_next h p (Some e))
         | None \<Rightarrow> Some (h, l\<lparr>first := Some e\<rparr>));
       h \<leftarrow> set_prev h nxt (Some e);
       let l = (if last_ptr l = None then l\<lparr>last_ptr := Some e\<rparr> else l);
       Some (h, l\<lparr>cnt := cnt l + 1\<rparr>) } }"

definition LinkedList_insertAfter :: "heap \<Rightarrow> linked_list \<Rightarrow> addr \<Rightarrow> addr \<Rightarrow> (heap \<times> linked_list) option" where
  "LinkedList_insertAfter h l e prv = do {
     b \<leftarrow> LinkedList_isEnqueued h l e;
     if b then None else do {
       h \<leftarrow> set_prev h e (Some prv);
       n \<leftarrow> h prv;
       h \<leftarrow> set_next h e (next_ptr n);
       n \<leftarrow> h prv;
       (h, l) \<leftarrow> (case next_ptr n of
           Some q \<Rightarrow> map_option (\<lambda>h. (h, l)) (set_prev h q (Some e))
         | None \<Rightarrow> Some (h, l\<lparr>last_ptr := Some e\<rparr>));
       h \<leftarrow> set_next h prv (Some e);
       let l = (if first l = None then l\<lparr>first := Some e\<rparr> else l);
       Some (h, l\<lparr>cnt := cnt l + 1\<rparr>) } }"

definition LinkedList_remove :: "heap \<Rightarrow> linked_list \<Rightarrow> addr \<Rightarrow> (heap \<times> linked_list) option" where
  "LinkedList_remove h l e = do {
     b \<leftarrow> LinkedList_isEnqueued h l e;
     if \<not> b then None else do {
       n \<leftarrow> h e;
       h \<leftarrow> (case prev n of Some p \<Rightarrow> set_next h p (next_ptr n) | None \<Rightarrow> Some h);
       n \<leftarrow> h e;
       h \<leftarrow> (case next_ptr n of Some q \<Rightarrow> set_prev h q (prev n) | None \<Rightarrow> Some h);
       n \<leftarrow> h e;
       let l = (if first l = Some e then l\<lparr>first := next_ptr n\<rparr> else l);
       let l = (if last_ptr l = Some e then l\<lparr>last_ptr := prev n\<rparr> else l);
       h \<leftarrow> set_prev h e None;
       h \<leftarrow> set_next h e None;
       Some (h, l\<lparr>cnt := cnt l - 1\<rparr>) } }"

text \<open>afree of a removed node takes it out of the heap.\<close>

partial_function (option) LinkedList_freeEntries :: "heap \<Rightarrow> linked_list \<Rightarrow> (heap \<times> linked_list) option" where
  "LinkedList_freeEntries h l = (case first l of None \<Rightarrow> Some (h, l)
     | Some a \<Rightarrow> do { (h, l) \<leftarrow> LinkedList_remove h l a; LinkedList_freeEntries (h(a := None)) l })"

text \<open>
  The duplicating function and the selection test are the callback arguments; the former
  returns the address of the new node (None for NULL, which the assert refuses).
\<close>

partial_function (option) duplicate_loop ::
  "(heap \<Rightarrow> addr \<Rightarrow> heap \<times> addr option) \<Rightarrow> (heap \<Rightarrow> addr \<Rightarrow> bool) \<Rightarrow> heap \<Rightarrow> addr option \<Rightarrow> linked_list
    \<Rightarrow> (heap \<times> linked_list) option" where
  "duplicate_loop dup wanted h cur new = (case cur of None \<Rightarrow> Some (h, new)
     | Some a \<Rightarrow> do {
         (h, new) \<leftarrow> (if wanted h a then do {
             let (h, r) = dup h a;
             e \<leftarrow> r;
             h \<leftarrow> set_prev h e None;
             h \<leftarrow> set_next h e None;
             LinkedList_append h new e }
           else Some (h, new));
         n \<leftarrow> h a;
         duplicate_loop dup wanted h (next_ptr n) new })"

definition LinkedList_duplicate_if ::
  "(heap \<Rightarrow> addr \<Rightarrow> heap \<times> addr option) \<Rightarrow> (heap \<Rightarrow> addr \<Rightarrow> bool) \<Rightarrow> heap \<Rightarrow> linked_list
    \<Rightarrow> (heap \<times> linked_list) option" where
  "LinkedList_duplicate_if dup wanted h l = duplicate_loop dup wanted h (first l) LinkedList_init"

definition LinkedList_duplicate ::
  "(heap \<Rightarrow> addr \<Rightarrow> heap \<times> addr option) \<Rightarrow> heap \<Rightarrow> linked_list \<Rightarrow> (heap \<times> linked_list) option" where
  "LinkedList_duplicate dup h l = LinkedList_duplicate_if dup (\<lambda>_ _. True) h l"

fun invariant_loop :: "heap \<Rightarrow> nat \<Rightarrow> addr option \<Rightarrow> bool option" where
  "invariant_loop h 0 act = Some (act = None)"
| "invariant_loop h (Suc k) act = (case act of None \<Rightarrow> Some False
     | Some a \<Rightarrow> do { n \<leftarrow> h a; invariant_loop h k (next_ptr n) })"

definition LinkedList_invariantOk :: "heap \<Rightarrow> linked_list \<Rightarrow> bool option" where
  "LinkedList_invariantOk h l = invariant_loop h (nat (cnt l)) (first l)"

section \<open>Segments of linked nodes\<close>

definition hd_or :: "addr option \<Rightarrow> addr list \<Rightarrow> addr option" where
  "hd_or q xs = (case xs of [] \<Rightarrow> q | y # ys \<Rightarrow> Some y)"

definition last_or :: "addr option \<Rightarrow> addr list \<Rightarrow> addr option" where
  "last_or p xs = (if xs = [] then p else Some (last xs))"

fun dseg :: "heap \<Rightarrow> addr option \<Rightarrow> addr list \<Rightarrow> addr option \<Rightarrow> bool" where
  "dseg h p [] q = True"
| "dseg h p (x # xs) q = ((case h x of None \<Rightarrow> False | Some n \<Rightarrow> prev n = p \<and> next_ptr n = hd_or q xs)
     \<and> dseg h (Some x) xs q)"

definition dll :: "heap \<Rightarrow> linked_list \<Rightarrow> addr list \<Rightarrow> bool" where
  "dll h l xs \<longleftrightarrow> distinct xs \<and> dseg h None xs None \<and> first l = hd_or None xs \<and> last_ptr l = last_or None xs
     \<and> cnt l = int (length xs)"

definition unlinked :: "heap \<Rightarrow> addr \<Rightarrow> bool" where
  "unlinked h e \<longleftrightarrow> (case h e of None \<Rightarrow> False | Some n \<Rightarrow> prev n = None \<and> next_ptr n = None)"

lemma hd_or_simps [simp]: "hd_or q [] = q" "hd_or q (y # ys) = Some y" "hd_or q (xs @ ys) = hd_or (hd_or q ys) xs"
  "hd_or (Some z) xs \<noteq> None"
  by (auto simp: hd_or_def split: list.split)

lemma last_or_simps [simp]: "last_or p [] = p" "last_or p (xs @ ys) = last_or (last_or p xs) ys" "last_or p (y # ys) = last_or (Some y) ys"
  "last_or (Some y) ys \<noteq> None"
  by (auto simp: last_or_def)

lemma dseg_Cons [simp]: "dseg h p (x # xs) q \<longleftrightarrow>
    (\<exists>n. h x = Some n \<and> prev n = p \<and> next_ptr n = hd_or q xs) \<and> dseg h (Some x) xs q"
  by (auto split: option.split)

declare dseg.simps(2) [simp del]

lemma dseg_append: "dseg h p (xs @ ys) q \<longleftrightarrow> dseg h p xs (hd_or q ys) \<and> dseg h (last_or p xs) ys q"
proof (induction xs arbitrary: p)
  case (Cons x xs)
  then show ?case by simp
qed simp

lemma dseg_upd: "a \<notin> set xs \<Longrightarrow> dseg (h(a := v)) p xs q = dseg h p xs q"
  by (induction xs arbitrary: p) auto

lemma dseg_cong: "\<forall>a\<in>set xs. h' a = h a \<Longrightarrow> dseg h' p xs q = dseg h p xs q"
  by (induction xs arbitrary: p) auto

lemma dseg_defined: "dseg h p xs q \<Longrightarrow> x \<in> set xs \<Longrightarrow> \<exists>n. h x = Some n"
  by (induction xs arbitrary: p) (auto split: option.splits)

lemma dseg_snoc:
  "dseg h p (xs @ [z]) q \<longleftrightarrow> dseg h p xs (Some z) \<and> (\<exists>n. h z = Some n \<and> prev n = last_or p xs \<and> next_ptr n = q)"
  by (auto simp: dseg_append split: option.split)

text \<open>The assert of the inserting operations passes for a node that is in no list.\<close>

lemma unlinked_D:
  assumes "dll h l xs" "unlinked h e" "e \<notin> set xs"
  shows "LinkedList_isEnqueued h l e = Some False" "\<exists>n. h e = Some n \<and> prev n = None \<and> next_ptr n = None"
proof -
  show *: "\<exists>n. h e = Some n \<and> prev n = None \<and> next_ptr n = None"
    using assms(2) by (auto simp: unlinked_def split: option.splits)
  have "first l \<noteq> Some e" using assms(1,3) by (cases xs) (auto simp: dll_def)
  with * show "LinkedList_isEnqueued h l e = Some False" by (auto simp: LinkedList_isEnqueued_def)
qed

lemma enqueued:
  assumes "dll h l xs" "e \<in> set xs"
  shows "LinkedList_isEnqueued h l e = Some True"
proof -
  obtain ys zs where xs: "xs = ys @ e # zs" using assms(2) by (auto simp: in_set_conv_decomp)
  then obtain n where n: "h e = Some n" "prev n = last_or None ys" "next_ptr n = hd_or None zs"
    using assms(1) by (auto simp: dll_def dseg_append split: option.splits)
  show ?thesis
  proof (cases ys)
    case Nil
    then show ?thesis using n xs assms(1) by (simp add: LinkedList_isEnqueued_def dll_def)
  next
    case (Cons y ys')
    then have "last_or None ys \<noteq> None" by (simp add: last_or_def)
    then show ?thesis using n by (simp add: LinkedList_isEnqueued_def)
  qed
qed

lemma set_prev_Some: "h a = Some n \<Longrightarrow> set_prev h a p = Some (h(a \<mapsto> n\<lparr>prev := p\<rparr>))"
  by (simp add: set_prev_def)

lemma set_next_Some: "h a = Some n \<Longrightarrow> set_next h a p = Some (h(a \<mapsto> n\<lparr>next_ptr := p\<rparr>))"
  by (simp add: set_next_def)

section \<open>The operations on a well-formed list\<close>

lemma append_ok:
  assumes "dll h l xs" "unlinked h e" "e \<notin> set xs"
  shows "\<exists>h' l'. LinkedList_append h l e = Some (h', l') \<and> dll h' l' (xs @ [e]) \<and> (\<forall>a. a \<notin> set (e # xs) \<longrightarrow> h' a = h a)"
proof -
  obtain n where n: "h e = Some n" "prev n = None" "next_ptr n = None" using unlinked_D(2) [OF assms] by blast
  note ne = unlinked_D(1) [OF assms]
  show ?thesis
  proof (cases xs rule: rev_cases)
    case Nil
    then show ?thesis using assms n ne by (auto simp: LinkedList_append_def set_prev_Some dll_def)
  next
    case (snoc ys z)
    then obtain m where m: "h z = Some m" "prev m = last_or None ys" "next_ptr m = None"
      using assms(1) by (auto simp: dll_def dseg_snoc)
    have dist: "z \<noteq> e" "z \<notin> set ys" "e \<notin> set ys" "distinct ys" using snoc assms(1,3) by (auto simp: dll_def)
    define h' where "h' = h(e \<mapsto> n\<lparr>prev := Some z\<rparr>, z \<mapsto> m\<lparr>next_ptr := Some e\<rparr>)"
    have "first l \<noteq> None" using assms(1) snoc by (cases ys) (auto simp: dll_def)
    then have "LinkedList_append h l e = Some (h', l\<lparr>last_ptr := Some e, cnt := cnt l + 1\<rparr>)"
      using assms(1) snoc n m dist ne
      by (simp add: LinkedList_append_def dll_def set_prev_Some set_next_Some h'_def)
    moreover have "dseg h' None (xs @ [e]) None"
      using assms(1) snoc n m dist by (auto simp: dll_def dseg_append h'_def dseg_upd)
    ultimately show ?thesis
      using assms(1,3) snoc by (auto simp: dll_def h'_def)
  qed
qed

lemma prepend_ok:
  assumes "dll h l xs" "unlinked h e" "e \<notin> set xs"
  shows "\<exists>h' l'. LinkedList_prepend h l e = Some (h', l') \<and> dll h' l' (e # xs) \<and> (\<forall>a. a \<notin> set (e # xs) \<longrightarrow> h' a = h a)"
proof -
  obtain n where n: "h e = Some n" "prev n = None" "next_ptr n = None" using unlinked_D(2) [OF assms] by blast
  note ne = unlinked_D(1) [OF assms]
  show ?thesis
  proof (cases xs)
    case Nil
    then show ?thesis using assms n ne by (auto simp: LinkedList_prepend_def set_next_Some dll_def)
  next
    case (Cons y ys)
    then obtain m where m: "h y = Some m" "prev m = None" "next_ptr m = hd_or None ys"
      using assms(1) by (auto simp: dll_def split: option.splits)
    have dist: "y \<noteq> e" "y \<notin> set ys" "e \<notin> set ys" "distinct ys" using Cons assms(1,3) by (auto simp: dll_def)
    define h' where "h' = h(e \<mapsto> n\<lparr>next_ptr := Some y\<rparr>, y \<mapsto> m\<lparr>prev := Some e\<rparr>)"
    have "last_ptr l \<noteq> None" using assms(1) Cons by (auto simp: dll_def last_or_def)
    then have "LinkedList_prepend h l e = Some (h', l\<lparr>first := Some e, cnt := cnt l + 1\<rparr>)"
      using assms(1) Cons n m dist ne
      by (simp add: LinkedList_prepend_def dll_def set_prev_Some set_next_Some h'_def)
    moreover have "dseg h' None (e # xs) None"
      using assms(1) Cons n m dist by (auto simp: dll_def h'_def dseg_upd)
    ultimately show ?thesis
      using assms(1,3) Cons by (auto simp: dll_def h'_def)
  qed
qed

lemma insert_between:
  assumes "dll h l (xs @ ys)" "unlinked h e" "e \<notin> set (xs @ ys)"
    and "h e = Some n" "h' e = Some (n\<lparr>prev := last_or None xs, next_ptr := hd_or None ys\<rparr>)"
    and "\<forall>a. a \<noteq> e \<and> Some a \<noteq> last_or None xs \<and> Some a \<noteq> hd_or None ys \<longrightarrow> h' a = h a"
    and "\<forall>z m. last_or None xs = Some z \<longrightarrow> h z = Some m \<longrightarrow> h' z = Some (m\<lparr>next_ptr := Some e\<rparr>)"
    and "\<forall>z m. hd_or None ys = Some z \<longrightarrow> h z = Some m \<longrightarrow> h' z = Some (m\<lparr>prev := Some e\<rparr>)"
  shows "dseg h' None (xs @ e # ys) None"
proof -
  have dist: "distinct (xs @ ys)" and seg: "dseg h None xs (hd_or None ys)" "dseg h (last_or None xs) ys None"
    using assms(1) by (auto simp: dll_def dseg_append)
  have left: "dseg h' None xs (Some e)"
  proof (cases xs rule: rev_cases)
    case (snoc as z)
    have "dseg h' None as (Some z) = dseg h None as (Some z)"
      by (rule dseg_cong) (use assms(3,6) dist snoc in \<open>cases ys; auto\<close>)
    then show ?thesis using snoc seg(1) assms(7) by (auto simp: dseg_append)
  qed simp
  have right: "dseg h' (Some e) ys None"
  proof (cases ys)
    case (Cons y bs)
    have "last xs \<notin> set bs" if "xs \<noteq> []"
      using dist Cons last_in_set [OF that] by auto
    then have "a \<in> set bs \<Longrightarrow> Some a \<noteq> last_or None xs" for a
      by (auto simp: last_or_def)
    moreover have "a \<in> set bs \<Longrightarrow> a \<noteq> e \<and> a \<noteq> y" for a
      using assms(3) dist Cons by auto
    ultimately have "\<forall>a\<in>set bs. h' a = h a" using assms(6) Cons by simp
    then have "dseg h' (Some y) bs None = dseg h (Some y) bs None" by (rule dseg_cong)
    then show ?thesis using Cons seg(2) assms(8) by auto
  qed simp
  show ?thesis using left right assms(5) by (simp add: dseg_append)
qed

lemma insertBefore_ok:
  assumes "dll h l (xs @ y # ys)" "unlinked h e" "e \<notin> set (xs @ y # ys)"
  shows "\<exists>h' l'. LinkedList_insertBefore h l e y = Some (h', l') \<and> dll h' l' (xs @ e # y # ys)
    \<and> (\<forall>a. a \<notin> set (xs @ e # y # ys) \<longrightarrow> h' a = h a)"
proof -
  obtain n where n: "h e = Some n" "prev n = None" "next_ptr n = None" using unlinked_D(2) [OF assms] by blast
  note ne = unlinked_D(1) [OF assms]
  obtain m where m: "h y = Some m" "prev m = last_or None xs" "next_ptr m = hd_or None ys"
    using assms(1) by (auto simp: dll_def dseg_append)
  have D: "distinct (xs @ y # ys)" "first l = hd_or (Some y) xs" "last_ptr l = last_or (Some y) ys"
    "cnt l = int (length (xs @ y # ys))"
    using assms(1) by (auto simp: dll_def)
  show ?thesis
  proof (cases xs rule: rev_cases)
    case Nil
    define h' where "h' = h(y \<mapsto> m\<lparr>prev := Some e\<rparr>, e \<mapsto> n\<lparr>next_ptr := Some y, prev := None\<rparr>)"
    have "LinkedList_insertBefore h l e y = Some (h', l\<lparr>first := Some e, cnt := cnt l + 1\<rparr>)"
      using Nil n m ne assms(3) D
      by (simp add: LinkedList_insertBefore_def set_prev_Some set_next_Some h'_def fun_upd_twist)
    moreover have "dseg h' None (xs @ e # y # ys) None"
      using Nil n m assms(3) by (intro insert_between [OF assms(1-3)]) (auto simp: h'_def)
    ultimately show ?thesis using Nil D assms(3) by (auto simp: dll_def h'_def)
  next
    case (snoc as z)
    then obtain k where k: "h z = Some k" "next_ptr k = Some y"
      using assms(1) by (auto simp: dll_def dseg_append)
    have zd: "z \<noteq> e" "z \<noteq> y" "y \<noteq> e" using D assms(3) snoc by auto
    define h' where "h' = h(e \<mapsto> n\<lparr>next_ptr := Some y, prev := Some z\<rparr>, z \<mapsto> k\<lparr>next_ptr := Some e\<rparr>, y \<mapsto> m\<lparr>prev := Some e\<rparr>)"
    have "LinkedList_insertBefore h l e y = Some (h', l\<lparr>cnt := cnt l + 1\<rparr>)"
      using snoc n m k ne zd D
      by (simp add: LinkedList_insertBefore_def set_prev_Some set_next_Some h'_def)
    moreover have "dseg h' None (xs @ e # y # ys) None"
      using snoc n m k zd assms(3) by (intro insert_between [OF assms(1-3)]) (auto simp: h'_def)
    ultimately show ?thesis using snoc D assms(3) by (auto simp: dll_def h'_def)
  qed
qed

lemma insertAfter_ok:
  assumes "dll h l (xs @ y # ys)" "unlinked h e" "e \<notin> set (xs @ y # ys)"
  shows "\<exists>h' l'. LinkedList_insertAfter h l e y = Some (h', l') \<and> dll h' l' (xs @ y # e # ys)
    \<and> (\<forall>a. a \<notin> set (xs @ y # e # ys) \<longrightarrow> h' a = h a)"
proof -
  obtain n where n: "h e = Some n" "prev n = None" "next_ptr n = None" using unlinked_D(2) [OF assms] by blast
  note ne = unlinked_D(1) [OF assms]
  obtain m where m: "h y = Some m" "prev m = last_or None xs" "next_ptr m = hd_or None ys"
    using assms(1) by (auto simp: dll_def dseg_append)
  have D: "distinct (xs @ y # ys)" "first l = hd_or (Some y) xs" "last_ptr l = last_or (Some y) ys"
    "cnt l = int (length (xs @ y # ys))"
    using assms(1) by (auto simp: dll_def)
  have a1: "dll h l ((xs @ [y]) @ ys)" "e \<notin> set ((xs @ [y]) @ ys)" using assms(1,3) by auto
  show ?thesis
  proof (cases ys)
    case Nil
    define h' where "h' = h(y \<mapsto> m\<lparr>next_ptr := Some e\<rparr>, e \<mapsto> n\<lparr>prev := Some y, next_ptr := None\<rparr>)"
    have "LinkedList_insertAfter h l e y = Some (h', l\<lparr>last_ptr := Some e, cnt := cnt l + 1\<rparr>)"
      using Nil n m ne assms(3) D
      by (simp add: LinkedList_insertAfter_def set_prev_Some set_next_Some h'_def fun_upd_twist)
    moreover have "dseg h' None ((xs @ [y]) @ e # ys) None"
      using Nil n m assms(3) by (intro insert_between [OF a1(1) assms(2) a1(2)]) (auto simp: h'_def)
    ultimately show ?thesis using Nil D assms(3) by (auto simp: dll_def h'_def)
  next
    case (Cons z bs)
    then obtain k where k: "h z = Some k" "prev k = Some y"
      using assms(1) by (auto simp: dll_def dseg_append)
    have zd: "z \<noteq> e" "z \<noteq> y" "y \<noteq> e" using D assms(3) Cons by auto
    define h' where "h' = h(e \<mapsto> n\<lparr>prev := Some y, next_ptr := Some z\<rparr>, z \<mapsto> k\<lparr>prev := Some e\<rparr>, y \<mapsto> m\<lparr>next_ptr := Some e\<rparr>)"
    have "LinkedList_insertAfter h l e y = Some (h', l\<lparr>cnt := cnt l + 1\<rparr>)"
      using Cons n m k ne zd D
      by (simp add: LinkedList_insertAfter_def set_prev_Some set_next_Some h'_def)
    moreover have "dseg h' None ((xs @ [y]) @ e # ys) None"
      using Cons n m k zd assms(3) by (intro insert_between [OF a1(1) assms(2) a1(2)]) (auto simp: h'_def)
    ultimately show ?thesis using Cons D assms(3) by (auto simp: dll_def h'_def)
  qed
qed

lemma remove_ok:
  assumes "dll h l (xs @ e # ys)"
  shows "\<exists>h' l'. LinkedList_remove h l e = Some (h', l') \<and> dll h' l' (xs @ ys) \<and> unlinked h' e
    \<and> (\<forall>a. a \<notin> set (xs @ e # ys) \<longrightarrow> h' a = h a)"
proof -
  obtain n where n: "h e = Some n" "prev n = last_or None xs" "next_ptr n = hd_or None ys"
    using assms by (auto simp: dll_def dseg_append)
  have D: "distinct (xs @ e # ys)" "first l = hd_or (Some e) xs" "last_ptr l = last_or (Some e) ys"
    "cnt l = int (length (xs @ e # ys))" "dseg h None xs (Some e)" "dseg h (Some e) ys None"
    using assms by (auto simp: dll_def dseg_append)
  have enq: "LinkedList_isEnqueued h l e = Some True" by (rule enqueued [OF assms]) simp
  consider "xs = []" "ys = []" | y bs where "xs = []" "ys = y # bs" | as z where "xs = as @ [z]" "ys = []"
    | as z y bs where "xs = as @ [z]" "ys = y # bs"
    by (cases xs rule: rev_cases; cases ys) auto
  then show ?thesis
  proof cases
    case 1
    then show ?thesis using n D enq
      by (auto simp: LinkedList_remove_def set_prev_Some set_next_Some dll_def unlinked_def)
  next
    case 2
    then obtain k where "h y = Some k" "prev k = Some e" "next_ptr k = hd_or None bs" "y \<noteq> e" "y \<notin> set bs" "e \<notin> set bs"
      using D by auto
    moreover from this have "last (y # bs) \<noteq> e" using last_in_set [of "y # bs"] by auto
    ultimately show ?thesis using 2 n D enq
      by (auto simp: LinkedList_remove_def set_prev_Some set_next_Some dll_def unlinked_def dseg_upd last_or_def)
  next
    case 3
    then obtain k where "h z = Some k" "prev k = last_or None as" "next_ptr k = Some e" "z \<noteq> e" "z \<notin> set as" "e \<notin> set as"
      using D by (auto simp: dseg_append)
    then show ?thesis using 3 n D enq
      by (cases as) (auto simp: LinkedList_remove_def set_prev_Some set_next_Some dll_def unlinked_def dseg_upd dseg_append)
  next
    case 4
    then obtain k j where "h z = Some k" "prev k = last_or None as" "next_ptr k = Some e" "h y = Some j" "prev j = Some e"
      "next_ptr j = hd_or None bs" "z \<noteq> e" "y \<noteq> e" "y \<noteq> z" "z \<notin> set as" "e \<notin> set as" "y \<notin> set bs" "e \<notin> set bs"
      "z \<notin> set bs" "y \<notin> set as"
      using D by (auto simp: dseg_append)
    moreover from this have "last (y # bs) \<noteq> e" using last_in_set [of "y # bs"] by auto
    ultimately show ?thesis using 4 n D enq
      by (cases as) (auto simp: LinkedList_remove_def set_prev_Some set_next_Some dll_def unlinked_def dseg_upd dseg_append last_or_def)
  qed
qed

lemma index_loop_seg:
  "dseg h p (xs @ ys) None \<Longrightarrow> distinct (xs @ ys) \<Longrightarrow> e \<notin> set xs \<Longrightarrow>
   index_loop h e (hd_or None (xs @ ys)) i = index_loop h e (hd_or None ys) (i + int (length xs))"
proof (induction xs arbitrary: p i)
  case (Cons x xs)
  then obtain n where "h x = Some n" "next_ptr n = hd_or None (xs @ ys)" "dseg h (Some x) (xs @ ys) None"
    by auto
  with Cons show ?case by (subst index_loop.simps) (auto simp: algebra_simps)
qed simp

lemma indexOf_ok:
  assumes "dll h l (xs @ e # ys)"
  shows "LinkedList_indexOf h l e = Some (int (length xs))"
proof -
  have "index_loop h e (hd_or None (xs @ e # ys)) 0 = index_loop h e (Some e) (int (length xs))"
    using assms index_loop_seg [of h None xs "e # ys" e 0] by (auto simp: dll_def)
  also have "\<dots> = Some (int (length xs))" by (subst index_loop.simps) simp
  finally show ?thesis
    using assms enqueued [OF assms, of e] by (simp add: LinkedList_indexOf_def dll_def)
qed

lemma indexOf_missing:
  assumes "dll h l xs" "unlinked h e" "e \<notin> set xs"
  shows "LinkedList_indexOf h l e = Some (-1)"
  using unlinked_D(1) [OF assms] by (simp add: LinkedList_indexOf_def)

lemma entry_loop_seg:
  "dseg h p xs None \<Longrightarrow> i \<le> k \<Longrightarrow>
   entry_loop h k (hd_or None xs) i = Some (if k - i < int (length xs) then Some (xs ! nat (k - i)) else None)"
proof (induction xs arbitrary: p i)
  case Nil
  then show ?case by (subst entry_loop.simps) simp
next
  case (Cons x xs)
  then obtain n where n: "h x = Some n" "next_ptr n = hd_or None xs" "dseg h (Some x) xs None" by auto
  show ?case
  proof (cases "i = k")
    case True
    then show ?thesis by (subst entry_loop.simps) simp
  next
    case False
    then have "nat (k - i) = Suc (nat (k - (i + 1)))" using Cons.prems(2) by simp
    then show ?thesis
      using n False Cons.IH [OF n(3), of "i + 1"] Cons.prems(2) by (subst entry_loop.simps) auto
  qed
qed

section \<open>Properties\<close>

text \<open>
  C23. Inserting. On a well-formed list (distinct nodes, consistent prev and next links, matching
  first, last and count) and a node that is in no list, append, prepend, insertBefore and
  insertAfter pass their assert and yield a well-formed list with the node at the end, at the
  front, before or after the given node; no other node of the heap changes.
\<close>

theorem LinkedList_insert_correct:
  assumes "unlinked h e"
  shows "(dll h l xs \<longrightarrow> e \<notin> set xs \<longrightarrow>
       (\<exists>h' l'. LinkedList_append h l e = Some (h', l') \<and> dll h' l' (xs @ [e]) \<and> (\<forall>a. a \<notin> set (e # xs) \<longrightarrow> h' a = h a))
     \<and> (\<exists>h' l'. LinkedList_prepend h l e = Some (h', l') \<and> dll h' l' (e # xs) \<and> (\<forall>a. a \<notin> set (e # xs) \<longrightarrow> h' a = h a)))
    \<and> (dll h l (xs @ y # ys) \<longrightarrow> e \<notin> set (xs @ y # ys) \<longrightarrow>
       (\<exists>h' l'. LinkedList_insertBefore h l e y = Some (h', l') \<and> dll h' l' (xs @ e # y # ys)
          \<and> (\<forall>a. a \<notin> set (xs @ e # y # ys) \<longrightarrow> h' a = h a))
     \<and> (\<exists>h' l'. LinkedList_insertAfter h l e y = Some (h', l') \<and> dll h' l' (xs @ y # e # ys)
          \<and> (\<forall>a. a \<notin> set (xs @ y # e # ys) \<longrightarrow> h' a = h a)))"
  by (intro conjI impI append_ok prepend_ok insertBefore_ok insertAfter_ok assms)

theorem LinkedList_insert_correct_witness:
  "\<exists>h' l'. LinkedList_insertBefore (Map.empty(1 \<mapsto> \<lparr>cls = 0, prev = None, next_ptr = None\<rparr>, 2 \<mapsto> \<lparr>cls = 0, prev = None, next_ptr = None\<rparr>))
      \<lparr>first = Some 1, last_ptr = Some 1, cnt = 1\<rparr> 2 1 = Some (h', l') \<and> dll h' l' [2, 1]"
  using LinkedList_insert_correct [of "Map.empty(1 \<mapsto> \<lparr>cls = 0, prev = None, next_ptr = None\<rparr>, 2 \<mapsto> \<lparr>cls = 0, prev = None, next_ptr = None\<rparr>)"
      2 "\<lparr>first = Some 1, last_ptr = Some 1, cnt = 1\<rparr>" "[]" 1 "[]"]
  by (auto simp: dll_def unlinked_def last_or_def)

text \<open>
  C24. Removing and looking up. On a well-formed list LinkedList_remove of any of its nodes
  yields the well-formed list without it, the node with both links cleared and every node
  outside the list untouched; LinkedList_indexOf of the node is its position and
  LinkedList_entryAt of a position that node (NULL behind the end).
\<close>

theorem LinkedList_remove_correct:
  assumes "dll h l (xs @ e # ys)"
  shows "(\<exists>h' l'. LinkedList_remove h l e = Some (h', l') \<and> dll h' l' (xs @ ys) \<and> unlinked h' e
      \<and> (\<forall>a. a \<notin> set (xs @ e # ys) \<longrightarrow> h' a = h a))
    \<and> LinkedList_indexOf h l e = Some (int (length xs))
    \<and> LinkedList_entryAt h l (int k) = Some (if k < length (xs @ e # ys) then Some ((xs @ e # ys) ! k) else None)"
proof -
  have "dseg h None (xs @ e # ys) None" "first l = hd_or None (xs @ e # ys)"
    using assms by (simp_all add: dll_def)
  then have "LinkedList_entryAt h l (int k) = Some (if k < length (xs @ e # ys) then Some ((xs @ e # ys) ! k) else None)"
    using entry_loop_seg [of h None "xs @ e # ys" 0 "int k"] by (simp only: LinkedList_entryAt_def) simp
  then show ?thesis using remove_ok [OF assms] indexOf_ok [OF assms] by blast
qed

theorem LinkedList_remove_correct_witness:
  "\<exists>h' l'. LinkedList_remove (Map.empty(1 \<mapsto> \<lparr>cls = 0, prev = None, next_ptr = Some 2\<rparr>, 2 \<mapsto> \<lparr>cls = 0, prev = Some 1, next_ptr = None\<rparr>))
      \<lparr>first = Some 1, last_ptr = Some 2, cnt = 2\<rparr> 1 = Some (h', l') \<and> dll h' l' [2]"
  using LinkedList_remove_correct [of "Map.empty(1 \<mapsto> \<lparr>cls = 0, prev = None, next_ptr = Some 2\<rparr>, 2 \<mapsto> \<lparr>cls = 0, prev = Some 1, next_ptr = None\<rparr>)"
      "\<lparr>first = Some 1, last_ptr = Some 2, cnt = 2\<rparr>" "[]" 1 "[2]" 0]
  by (auto simp: dll_def last_or_def)

end
