(* ===== verification/Frame_Queue.thy ===== *)
theory Frame_Queue
  imports Prelude
begin

text \<open>
  The video frame queue of Source/frame_q.c: frames linked through their next field, over an
  explicit store from addresses to frames. A function returns None when it dereferences NULL or
  a dangling address or when its walk does not end (a cyclic queue).
\<close>

type_synonym addr = nat

record frame =
  findex :: int
  locked :: bool
  fnext :: "addr option"

type_synonym frames = "addr \<Rightarrow> frame option"

record frame_q =
  tag :: string
  head :: "addr option"

definition frame_q_flush :: "frame_q \<Rightarrow> frame_q" where
  "frame_q_flush q = q\<lparr>head := None\<rparr>"

text \<open>The tag keeps at most the 15 characters that fit the 16-byte field with its NUL.\<close>

definition frame_q_init :: "frame_q option \<Rightarrow> string \<Rightarrow> int \<times> frame_q option" where
  "frame_q_init q t = (case q of None \<Rightarrow> (1, None) | Some q \<Rightarrow> (0, Some (frame_q_flush (q\<lparr>tag := take 15 t\<rparr>))))"

partial_function (option) count_loop :: "frames \<Rightarrow> addr option \<Rightarrow> int \<Rightarrow> int option" where
  "count_loop h f count = (case f of None \<Rightarrow> Some count
     | Some a \<Rightarrow> do { n \<leftarrow> h a; count_loop h (fnext n) (count + 1) })"

definition frame_q_count :: "frames \<Rightarrow> frame_q \<Rightarrow> int option" where
  "frame_q_count h q = count_loop h (head q) 0"

definition frame_q_get :: "frames \<Rightarrow> frame_q \<Rightarrow> (addr option \<times> frame_q) option" where
  "frame_q_get h q = (case head q of None \<Rightarrow> Some (None, q)
     | Some a \<Rightarrow> do { n \<leftarrow> h a; Some (Some a, q\<lparr>head := fnext n\<rparr>) })"

text \<open>
  The loop of frame_q_get_unlocked and frame_q_get_index, which differ in their test only.
  prev is the frame whose next field the code's pointer prev points to.
\<close>

partial_function (option) get_loop ::
  "(frame \<Rightarrow> bool) \<Rightarrow> frames \<Rightarrow> frame_q \<Rightarrow> addr option \<Rightarrow> addr option \<Rightarrow> (addr option \<times> frames \<times> frame_q) option" where
  "get_loop test h q prev f = (case f of None \<Rightarrow> Some (None, h, q)
     | Some a \<Rightarrow> do {
         n \<leftarrow> h a;
         if test n then
           (case prev of
              Some p \<Rightarrow> do { m \<leftarrow> h p; Some (Some a, h(p \<mapsto> m\<lparr>fnext := fnext n\<rparr>), q) }
            | None \<Rightarrow> Some (Some a, h, q\<lparr>head := fnext n\<rparr>))
         else get_loop test h q (Some a) (fnext n) })"

definition frame_q_get_unlocked :: "frames \<Rightarrow> frame_q \<Rightarrow> (addr option \<times> frames \<times> frame_q) option" where
  "frame_q_get_unlocked h q = get_loop (\<lambda>n. \<not> locked n) h q None (head q)"

definition frame_q_get_index :: "frames \<Rightarrow> frame_q \<Rightarrow> int \<Rightarrow> (addr option \<times> frames \<times> frame_q) option" where
  "frame_q_get_index h q i = get_loop (\<lambda>n. findex n = i) h q None (head q)"

definition frame_q_peek :: "frame_q \<Rightarrow> addr option" where
  "frame_q_peek q = head q"

definition set_fnext :: "frames \<Rightarrow> addr \<Rightarrow> addr option \<Rightarrow> frames option" where
  "set_fnext h a p = do { n \<leftarrow> h a; Some (h(a \<mapsto> n\<lparr>fnext := p\<rparr>)) }"

text \<open>The walk to the last frame; Inl stands for meeting the frame that is to be put.\<close>

partial_function (option) last_loop :: "frames \<Rightarrow> addr \<Rightarrow> addr \<Rightarrow> (unit + addr) option" where
  "last_loop h f now = do {
     n \<leftarrow> h now;
     (case fnext n of None \<Rightarrow> Some (Inr now)
      | Some now \<Rightarrow> if now = f then Some (Inl ()) else last_loop h f now) }"

definition frame_q_put :: "frames \<Rightarrow> frame_q \<Rightarrow> addr option \<Rightarrow> (int \<times> frames \<times> frame_q) option" where
  "frame_q_put h q frame = (case frame of None \<Rightarrow> Some (1, h, q)
     | Some f \<Rightarrow> (case head q of
         None \<Rightarrow> do { h \<leftarrow> set_fnext h f None; Some (0, h, q\<lparr>head := Some f\<rparr>) }
       | Some now \<Rightarrow> if now = f then Some (1, h, q) else do {
           r \<leftarrow> last_loop h f now;
           (case r of Inl _ \<Rightarrow> Some (1, h, q)
            | Inr now \<Rightarrow> do {
                h \<leftarrow> set_fnext h now (Some f);
                h \<leftarrow> set_fnext h f None;
                Some (0, h, q) }) }))"

definition frame_q_put_head :: "frames \<Rightarrow> frame_q \<Rightarrow> addr option \<Rightarrow> (frames \<times> frame_q) option" where
  "frame_q_put_head h q frame = (case frame of None \<Rightarrow> Some (h, q)
     | Some f \<Rightarrow> (case head q of
         None \<Rightarrow> do { h \<leftarrow> set_fnext h f None; Some (h, q\<lparr>head := Some f\<rparr>) }
       | Some now \<Rightarrow> do { h \<leftarrow> set_fnext h f (Some now); Some (h, q\<lparr>head := Some f\<rparr>) }))"

text \<open>The list of indices frame_q_dump and frame_q_dump2 print.\<close>

partial_function (option) frame_q_dump :: "frames \<Rightarrow> addr option \<Rightarrow> (int \<times> bool) list option" where
  "frame_q_dump h f = (case f of None \<Rightarrow> Some []
     | Some a \<Rightarrow> do { n \<leftarrow> h a; rest \<leftarrow> frame_q_dump h (fnext n); Some ((findex n, locked n) # rest) })"

section \<open>Shape\<close>

fun fseg :: "frames \<Rightarrow> addr option \<Rightarrow> addr list \<Rightarrow> addr option \<Rightarrow> bool" where
  "fseg h f [] g = (f = g)"
| "fseg h f (x # xs) g = (f = Some x \<and> (case h x of None \<Rightarrow> False | Some n \<Rightarrow> fseg h (fnext n) xs g))"

definition queued :: "frames \<Rightarrow> frame_q \<Rightarrow> addr list \<Rightarrow> bool" where
  "queued h q xs \<longleftrightarrow> distinct xs \<and> fseg h (head q) xs None"

lemma fseg_Cons [simp]: "fseg h f (x # xs) g \<longleftrightarrow> f = Some x \<and> (\<exists>n. h x = Some n \<and> fseg h (fnext n) xs g)"
  by (auto split: option.splits)

declare fseg.simps(2) [simp del]

lemma fseg_append: "fseg h f (xs @ ys) g \<longleftrightarrow> (\<exists>k. fseg h f xs k \<and> fseg h k ys g)"
  by (induction xs arbitrary: f) auto

lemma fseg_upd: "a \<notin> set xs \<Longrightarrow> fseg (h(a := v)) f xs g = fseg h f xs g"
  by (induction xs arbitrary: f) auto

text \<open>Redirecting the link behind a segment.\<close>

lemma fseg_redirect:
  "fseg h f (xs @ [p]) g \<Longrightarrow> distinct (xs @ [p]) \<Longrightarrow> h p = Some m \<Longrightarrow> fseg (h(p \<mapsto> m\<lparr>fnext := g'\<rparr>)) f (xs @ [p]) g'"
  by (auto simp: fseg_append fseg_upd)

lemma get_loop_first:
  assumes "fseg h f (xs @ a # ys) None" "distinct (xs @ a # ys)" "h a = Some n" "test n"
    and "\<forall>x\<in>set xs. \<forall>m. h x = Some m \<longrightarrow> \<not> test m"
  shows "get_loop test h q prv f = (case (if xs = [] then prv else Some (last xs)) of
      None \<Rightarrow> Some (Some a, h, q\<lparr>head := fnext n\<rparr>)
    | Some p \<Rightarrow> do { m \<leftarrow> h p; Some (Some a, h(p \<mapsto> m\<lparr>fnext := fnext n\<rparr>), q) })"
  using assms
proof (induction xs arbitrary: f prv)
  case Nil
  then show ?case by (subst get_loop.simps) (auto split: option.split)
next
  case (Cons x xs)
  then obtain m where m: "h x = Some m" "f = Some x" "fseg h (fnext m) (xs @ a # ys) None" "\<not> test m" by auto
  have "get_loop test h q prv f = get_loop test h q (Some x) (fnext m)"
    using m by (subst get_loop.simps) simp
  then show ?case using Cons.IH [OF m(3), of "Some x"] Cons.prems by simp
qed

lemma get_loop_none:
  assumes "fseg h f xs None" "\<forall>x\<in>set xs. \<forall>m. h x = Some m \<longrightarrow> \<not> test m"
  shows "get_loop test h q prv f = Some (None, h, q)"
  using assms
proof (induction xs arbitrary: f prv)
  case Nil
  then show ?case by (subst get_loop.simps) simp
next
  case (Cons x xs)
  then obtain m where "h x = Some m" "f = Some x" "fseg h (fnext m) xs None" "\<not> test m" by auto
  with Cons show ?case by (subst get_loop.simps) simp
qed

lemma get_loop_queued:
  assumes "queued h q (xs @ a # ys)" "h a = Some n" "test n" "\<forall>x\<in>set xs. \<forall>m. h x = Some m \<longrightarrow> \<not> test m"
  shows "\<exists>h' q'. get_loop test h q None (head q) = Some (Some a, h', q') \<and> queued h' q' (xs @ ys)
    \<and> (\<forall>b. b \<notin> set xs \<longrightarrow> h' b = h b)"
proof -
  have seg: "fseg h (head q) (xs @ a # ys) None" and dist: "distinct (xs @ a # ys)"
    using assms(1) by (auto simp: queued_def)
  note eq = get_loop_first [OF seg dist assms(2-4), of q None]
  show ?thesis
  proof (cases xs rule: rev_cases)
    case Nil
    then show ?thesis using eq seg dist assms(2) by (auto simp: queued_def)
  next
    case (snoc zs p)
    then obtain m where m: "h p = Some m" "fnext m = Some a" using seg by (auto simp: fseg_append)
    have "fseg h (head q) (zs @ [p]) (Some a)" "fseg h (fnext n) ys None"
      using seg snoc m assms(2) by (auto simp: fseg_append)
    then have "fseg (h(p \<mapsto> m\<lparr>fnext := fnext n\<rparr>)) (head q) ((zs @ [p]) @ ys) None"
      unfolding fseg_append [of _ _ "zs @ [p]"]
      using dist snoc m by (intro exI [of _ "fnext n"] conjI fseg_redirect) (auto simp: fseg_upd)
    then show ?thesis using eq snoc m dist by (auto simp: queued_def)
  qed
qed

lemma last_loop_end:
  "fseg h (Some now) (xs @ [z]) None \<Longrightarrow> f \<notin> set (xs @ [z]) \<Longrightarrow> last_loop h f now = Some (Inr z)"
proof (induction xs arbitrary: now)
  case Nil
  then show ?case by (subst last_loop.simps) auto
next
  case (Cons x xs)
  then obtain n where n: "now = x" "h x = Some n" "fseg h (fnext n) (xs @ [z]) None" by auto
  then obtain y where y: "fnext n = Some y" "y \<in> set (xs @ [z])" by (cases xs) auto
  then show ?case using n Cons by (subst last_loop.simps) auto
qed

lemma last_loop_found:
  "fseg h (Some now) xs None \<Longrightarrow> distinct xs \<Longrightarrow> f \<in> set xs \<Longrightarrow> now \<noteq> f \<Longrightarrow> last_loop h f now = Some (Inl ())"
proof (induction xs arbitrary: now)
  case (Cons x xs)
  then obtain n where n: "now = x" "h x = Some n" "fseg h (fnext n) xs None" "f \<in> set xs" by auto
  then obtain y where "fnext n = Some y" by (cases xs) auto
  then show ?case using n Cons by (subst last_loop.simps) auto
qed simp

lemma put_queued:
  assumes "queued h q xs" "h f = Some n" "f \<notin> set xs"
  shows "\<exists>h' q'. frame_q_put h q (Some f) = Some (0, h', q') \<and> queued h' q' (xs @ [f]) \<and> (\<forall>b. b \<notin> set (f # xs) \<longrightarrow> h' b = h b)"
proof (cases xs rule: rev_cases)
  case Nil
  then show ?thesis using assms by (auto simp: queued_def frame_q_put_def set_fnext_def)
next
  case (snoc zs z)
  have seg: "fseg h (head q) (zs @ [z]) None" and dist: "distinct (zs @ [z])"
    using assms(1) snoc by (auto simp: queued_def)
  then obtain now where now: "head q = Some now" "now \<noteq> f" using assms(3) snoc by (cases zs) auto
  obtain m where m: "h z = Some m" using seg by (auto simp: fseg_append)
  have zf: "z \<noteq> f" "f \<notin> set zs" using assms(3) snoc by auto
  have "last_loop h f now = Some (Inr z)" using last_loop_end seg now assms(3) snoc by simp
  then have "frame_q_put h q (Some f) = Some (0, h(z \<mapsto> m\<lparr>fnext := Some f\<rparr>, f \<mapsto> n\<lparr>fnext := None\<rparr>), q)"
    using now m zf assms(2) by (simp add: frame_q_put_def set_fnext_def)
  moreover have "fseg (h(z \<mapsto> m\<lparr>fnext := Some f\<rparr>, f \<mapsto> n\<lparr>fnext := None\<rparr>)) (head q) ((zs @ [z]) @ [f]) None"
    unfolding fseg_append [of _ _ "zs @ [z]"]
    using fseg_redirect [OF seg dist m, of "Some f"] zf by (intro exI [of _ "Some f"]) (simp add: fseg_upd)
  ultimately show ?thesis using dist zf snoc by (auto simp: queued_def)
qed

section \<open>Properties\<close>

text \<open>
  Putting a frame. On a well-formed queue frame_q_put of a frame that is not queued appends
  it and returns 0, touching no frame outside the queue; a frame that is queued already is
  refused with 1 and nothing changes. frame_q_put_head makes it the first frame.
\<close>

theorem frame_q_put_correct:
  assumes "queued h q xs" "h f = Some n"
  shows "(if f \<in> set xs then frame_q_put h q (Some f) = Some (1, h, q)
     else (\<exists>h' q'. frame_q_put h q (Some f) = Some (0, h', q') \<and> queued h' q' (xs @ [f])
            \<and> (\<forall>b. b \<notin> set (f # xs) \<longrightarrow> h' b = h b))
        \<and> (\<exists>h' q'. frame_q_put_head h q (Some f) = Some (h', q') \<and> queued h' q' (f # xs)))"
proof (cases "f \<in> set xs")
  case True
  then obtain now where now: "head q = Some now"
    using assms(1) by (cases xs) (auto simp: queued_def)
  then have "now = f \<or> last_loop h f now = Some (Inl ())"
    using last_loop_found [of h now xs f] assms(1) True by (auto simp: queued_def)
  with now show ?thesis using True by (auto simp: frame_q_put_def)
next
  case False
  have "\<exists>h' q'. frame_q_put_head h q (Some f) = Some (h', q') \<and> queued h' q' (f # xs)"
    using assms False
    by (cases "head q"; cases xs) (auto simp: frame_q_put_head_def set_fnext_def queued_def fseg_upd)
  with False put_queued [OF assms] show ?thesis by simp
qed

text \<open>
  Taking the first frame that is not locked (frame_q_get_unlocked) or has a given index
  (frame_q_get_index) out of a well-formed queue: the frames before it keep their order, it is
  unlinked wherever it stands, and NULL is returned exactly when no frame qualifies.
\<close>

theorem frame_q_get_first_matching:
  assumes "queued h q xs"
  shows "(case List.find (\<lambda>a. \<exists>n. h a = Some n \<and> \<not> locked n) xs of
       None \<Rightarrow> frame_q_get_unlocked h q = Some (None, h, q)
     | Some a \<Rightarrow> \<exists>h' q'. frame_q_get_unlocked h q = Some (Some a, h', q') \<and> queued h' q' (remove1 a xs))
    \<and> (case List.find (\<lambda>a. \<exists>n. h a = Some n \<and> findex n = i) xs of
       None \<Rightarrow> frame_q_get_index h q i = Some (None, h, q)
     | Some a \<Rightarrow> \<exists>h' q'. frame_q_get_index h q i = Some (Some a, h', q') \<and> queued h' q' (remove1 a xs))"
proof -
  have general: "case List.find (\<lambda>a. \<exists>n. h a = Some n \<and> test n) xs of
       None \<Rightarrow> get_loop test h q None (head q) = Some (None, h, q)
     | Some a \<Rightarrow> \<exists>h' q'. get_loop test h q None (head q) = Some (Some a, h', q') \<and> queued h' q' (remove1 a xs)" for test
  proof (cases "List.find (\<lambda>a. \<exists>n. h a = Some n \<and> test n) xs")
    case None
    then have "\<forall>x\<in>set xs. \<forall>m. h x = Some m \<longrightarrow> \<not> test m" by (auto simp: find_None_iff)
    then show ?thesis using None assms get_loop_none by (auto simp: queued_def)
  next
    case (Some a)
    then obtain i where i: "i < length xs" "\<exists>n. h (xs ! i) = Some n \<and> test n" "a = xs ! i"
      "\<forall>j<i. \<not> (\<exists>n. h (xs ! j) = Some n \<and> test n)" by (auto simp: find_Some_iff)
    have split: "xs = take i xs @ a # drop (Suc i) xs" using i(1,3) by (simp add: id_take_nth_drop)
    have "\<forall>x\<in>set (take i xs). \<forall>m. h x = Some m \<longrightarrow> \<not> test m" using i(1,4) by (auto simp: in_set_conv_nth)
    moreover obtain n where "h a = Some n" "test n" using i by auto
    moreover have "remove1 a xs = take i xs @ drop (Suc i) xs"
      using assms split by (metis distinct_append not_distinct_conv_prefix queued_def remove1_append remove1.simps(2) append_Cons append_Nil distinct.simps(2) disjoint_insert(2) list.simps(15))
    ultimately show ?thesis
      using get_loop_queued [of h q "take i xs" a "drop (Suc i) xs" n test] assms split Some by auto
  qed
  show ?thesis unfolding frame_q_get_unlocked_def frame_q_get_index_def using general by blast
qed

theorem frame_q_put_correct_witness:
  "\<exists>h' q'. frame_q_put (Map.empty(1 \<mapsto> \<lparr>findex = 0, locked = True, fnext = None\<rparr>, 2 \<mapsto> \<lparr>findex = 1, locked = False, fnext = None\<rparr>))
      \<lparr>tag = ''t'', head = Some 1\<rparr> (Some 2) = Some (0, h', q') \<and> queued h' q' [1, 2]"
  using frame_q_put_correct [of "Map.empty(1 \<mapsto> \<lparr>findex = 0, locked = True, fnext = None\<rparr>, 2 \<mapsto> \<lparr>findex = 1, locked = False, fnext = None\<rparr>)"
      "\<lparr>tag = ''t'', head = Some 1\<rparr>" "[1]" 2]
  by (auto simp: queued_def)

theorem frame_q_get_first_matching_witness:
  "\<exists>h' q'. frame_q_get_unlocked (Map.empty(1 \<mapsto> \<lparr>findex = 0, locked = True, fnext = Some 2\<rparr>, 2 \<mapsto> \<lparr>findex = 1, locked = False, fnext = None\<rparr>))
      \<lparr>tag = ''t'', head = Some 1\<rparr> = Some (Some 2, h', q') \<and> queued h' q' [1]"
  using frame_q_get_first_matching [of "Map.empty(1 \<mapsto> \<lparr>findex = 0, locked = True, fnext = Some 2\<rparr>, 2 \<mapsto> \<lparr>findex = 1, locked = False, fnext = None\<rparr>)"
      "\<lparr>tag = ''t'', head = Some 1\<rparr>" "[1, 2]" 0]
  by (auto simp: queued_def)

end
