(* ===== verification/Pts_Reorder.thy ===== *)
theory Pts_Reorder
  imports Prelude "HOL-Library.Multiset"
begin

text \<open>
  The reordering of presentation time stamps of Source/pts_reorder.c: a sorted array of the time
  stamps seen so far; each output frame takes the smallest one. ts is the allocated array, num
  the number of stored stamps; a write behind the array or a memmove of a negative size has no
  result.
\<close>

record pts_ro =
  ts :: "int list"
  num :: int
  run :: bool

definition pts_ro_init :: "pts_ro \<Rightarrow> pts_ro" where
  "pts_ro_init c = c\<lparr>num := 0\<rparr>"

definition pts_ro_run :: "pts_ro \<Rightarrow> pts_ro" where
  "pts_ro_run c = c\<lparr>run := True\<rparr>"

definition pts_ro_stop :: "pts_ro \<Rightarrow> pts_ro" where
  "pts_ro_stop c = c\<lparr>run := False\<rparr>"

text \<open>The structure is zeroed by acalloc; m is the array amalloc returns.\<close>

definition pts_ro_alloc :: "int list \<Rightarrow> pts_ro" where
  "pts_ro_alloc m = pts_ro_init \<lparr>ts = m, num = 0, run = False\<rparr>"

function insert_pos :: "int list \<Rightarrow> int \<Rightarrow> int \<Rightarrow> int \<Rightarrow> (int \<times> int list) option" where
  "insert_pos m n t i =
     (if i < n then do {
        x \<leftarrow> rd m i;
        if t < x then do { xs \<leftarrow> rd_blk m i (n - i); m \<leftarrow> wr_blk m (i + 1) xs; Some (i, m) }
        else insert_pos m n t (i + 1) }
      else Some (i, m))"
  by pat_completeness auto
termination by (relation "measure (\<lambda>(m, n, t, i). nat (n - i))") auto

declare insert_pos.simps [simp del]

definition pts_ro_put :: "pts_ro \<Rightarrow> int \<Rightarrow> pts_ro option" where
  "pts_ro_put c t =
     (if \<not> run c then Some c
      else do {
        (i, m) \<leftarrow> (if num c \<noteq> 0 then insert_pos (ts c) (num c) t 0 else Some (0, ts c));
        m \<leftarrow> wr m i t;
        Some (c\<lparr>ts := m, num := num c + 1\<rparr>) })"

definition pts_ro_get :: "pts_ro \<Rightarrow> (int \<times> pts_ro) option" where
  "pts_ro_get c =
     (if \<not> run c then Some (-1, c)
      else do {
        t \<leftarrow> rd (ts c) 0;
        xs \<leftarrow> rd_blk (ts c) 1 (num c - 1);
        m \<leftarrow> wr_blk (ts c) 0 xs;
        Some (t, c\<lparr>ts := m, num := num c - 1\<rparr>) })"

section \<open>The stored stamps\<close>

definition stamps :: "pts_ro \<Rightarrow> int list" where
  "stamps c = take (nat (num c)) (ts c)"

definition pts_ok :: "pts_ro \<Rightarrow> bool" where
  "pts_ok c \<longleftrightarrow> 0 \<le> num c \<and> num c \<le> int (length (ts c)) \<and> sorted (stamps c)"

lemma insert_pos_spec:
  assumes "n < length m" "i \<le> n" "\<forall>j<i. m ! j \<le> t"
  shows "\<exists>k m'. insert_pos m (int n) t (int i) = Some (int k, m') \<and> i \<le> k \<and> k \<le> n \<and> length m' = length m
    \<and> take (Suc n) (m'[k := t]) = take k m @ t # drop k (take n m) \<and> (\<forall>j<k. m ! j \<le> t) \<and> (k < n \<longrightarrow> t < m ! k)"
  using assms(2,3)
proof (induction "n - i" arbitrary: i)
  case 0
  then have "i = n" by simp
  then show ?case using assms(1) 0
    by (subst insert_pos.simps) (auto simp: list_update_append take_Suc_conv_app_nth intro!: exI [of _ n])
next
  case (Suc d)
  then have i: "i < n" "int i < int n" by auto
  show ?case
  proof (cases "t < m ! i")
    case True
    define m' where "m' = put_at m (Suc i) (take (n - i) (drop i m))"
    have "insert_pos m (int n) t (int i) = Some (int i, m')"
      using True i assms(1)
      by (subst insert_pos.simps) (simp add: rd_blk_def wr_blk_def m'_def nat_add_distrib nat_diff_distrib del: of_nat_less_iff)
    moreover have "length m' = length m" using i assms(1) by (simp add: m'_def)
    moreover have "take (Suc n) (m'[i := t]) = take i m @ t # drop i (take n m)"
    proof (rule nth_equalityI)
      fix j assume "j < length (take (Suc n) (m'[i := t]))"
      then have "j < Suc n" by simp
      then show "take (Suc n) (m'[i := t]) ! j = (take i m @ t # drop i (take n m)) ! j"
        using i assms(1) \<open>length m' = length m\<close>
        by (auto simp: m'_def nth_list_update nth_put_at nth_append nth_Cons' Suc_diff_le)
    qed (use i assms(1) \<open>length m' = length m\<close> in auto)
    ultimately show ?thesis using True i Suc.prems(2) by (intro exI [of _ i] exI [of _ m']) auto
  next
    case False
    then have "\<forall>j<Suc i. m ! j \<le> t" using Suc.prems(2) by (auto simp: less_Suc_eq)
    then obtain k m' where "insert_pos m (int n) t (int (Suc i)) = Some (int k, m')" "Suc i \<le> k" "k \<le> n" "length m' = length m"
      "take (Suc n) (m'[k := t]) = take k m @ t # drop k (take n m)" "\<forall>j<k. m ! j \<le> t" "k < n \<longrightarrow> t < m ! k"
      using Suc.hyps(1) [of "Suc i"] Suc.hyps(2) i(1) Suc_leI diff_Suc by (metis diff_Suc_1 nat.case(2))
    then show ?thesis using False i assms(1)
      by (subst insert_pos.simps) (auto simp: add.commute intro!: exI [of _ k])
  qed
qed

lemma sorted_insert_at:
  assumes "sorted xs" "k \<le> length xs" "\<forall>j<k. xs ! j \<le> t" "k < length xs \<longrightarrow> t < xs ! k"
  shows "take k xs @ t # drop k xs = insort (t::int) xs"
proof -
  have "mset (take k xs) + mset (drop k xs) = mset xs"
    by (metis append_take_drop_id mset_append)
  then have "mset (take k xs @ t # drop k xs) = mset (insort t xs)" by simp
  moreover have "x \<le> t" if "x \<in> set (take k xs)" for x
    using that assms(2,3) by (auto simp: in_set_conv_nth)
  moreover have "t \<le> x" if x: "x \<in> set (drop k xs)" for x
  proof -
    obtain j where "j < length xs - k" "x = xs ! (k + j)" using x by (auto simp: in_set_conv_nth)
    moreover from this have "xs ! k \<le> xs ! (k + j)" using assms(1) by (intro sorted_nth_mono) auto
    ultimately show ?thesis using assms(4) by auto
  qed
  ultimately have "sort (insort t xs) = take k xs @ t # drop k xs"
    using assms(1) by (intro properties_for_sort) (auto simp: sorted_append sorted_wrt_take sorted_wrt_drop dest: in_set_takeD in_set_dropD intro: order_trans)
  then show ?thesis using assms(1) by (simp add: sorted_insort sorted_sort_id)
qed

lemma pts_ro_put_spec:
  assumes "pts_ok c" "run c" "num c = int n" "n < length (ts c)"
  shows "\<exists>d. pts_ro_put c t = Some d \<and> pts_ok d \<and> stamps d = insort t (stamps c)
    \<and> run d \<and> num d = num c + 1 \<and> length (ts d) = length (ts c)"
proof -
  note n = assms(3) and True = assms(2)
  have srt: "sorted (stamps c)" and st: "stamps c = take n (ts c)" "length (stamps c) = n"
    using assms by (auto simp: pts_ok_def stamps_def)
  note room = assms(4)
  obtain k m' where k: "insert_pos (ts c) (int n) t 0 = Some (int k, m')" "k \<le> n" "length m' = length (ts c)"
    "take (Suc n) (m'[k := t]) = take k (ts c) @ t # drop k (take n (ts c))" "\<forall>j<k. ts c ! j \<le> t" "k < n \<longrightarrow> t < ts c ! k"
    using insert_pos_spec [of n "ts c" 0 t] room by auto
  have "take k (stamps c) @ t # drop k (stamps c) = insort t (stamps c)"
    using k srt st by (intro sorted_insert_at) auto
  moreover have "take k (stamps c) = take k (ts c)" using k(2) st by (simp add: min_def)
  ultimately have new: "take (Suc n) (m'[k := t]) = insort t (stamps c)" using k(4) st by simp
  have "(if num c \<noteq> 0 then insert_pos (ts c) (num c) t 0 else Some (0, ts c)) = Some (int k, m')"
  proof (cases "n = 0")
    case True
    then show ?thesis using k(1) n by (subst (asm) insert_pos.simps) simp
  qed (use k n in simp)
  then have "pts_ro_put c t = Some (c\<lparr>ts := m'[k := t], num := num c + 1\<rparr>)"
    using True k room by (simp add: pts_ro_put_def wr_def)
  moreover have "stamps (c\<lparr>ts := m'[k := t], num := num c + 1\<rparr>) = insort t (stamps c)"
    using new n by (simp add: stamps_def nat_add_distrib)
  ultimately show ?thesis
    using srt n k room True by (auto simp: pts_ok_def sorted_insort)
qed

lemma insert_pos_full:
  "n = length m \<Longrightarrow> 0 \<le> i \<Longrightarrow> i \<le> int n \<Longrightarrow> insert_pos m (int n) t i = None \<or> insert_pos m (int n) t i = Some (int n, m)"
proof (induction "nat (int n - i)" arbitrary: i)
  case 0
  then show ?case by (subst insert_pos.simps, subst (2) insert_pos.simps) auto
next
  case (Suc d)
  then have i: "0 \<le> i" "i < int n" by auto
  show ?case
  proof (cases "t < m ! nat i")
    case True
    then have "insert_pos m (int n) t i = None"
      using i Suc.prems by (subst insert_pos.simps) (auto simp: rd_def rd_blk_def wr_blk_def)
    then show ?thesis by simp
  next
    case False
    then have "insert_pos m (int n) t i = insert_pos m (int n) t (i + 1)"
      using i Suc.prems by (subst insert_pos.simps) (auto simp: rd_def)
    then show ?thesis using Suc.hyps(1) [of "i + 1"] Suc.hyps(2) i Suc.prems(1) by simp
  qed
qed

lemma pts_ro_put_full: "run c \<Longrightarrow> num c = int (length (ts c)) \<Longrightarrow> pts_ro_put c t = None"
  using insert_pos_full [of "length (ts c)" "ts c" 0 t] by (auto simp: pts_ro_put_def wr_def)

lemma pts_ro_get_spec:
  assumes "pts_ok c" "run c" "num c = int n"
  shows "case stamps c of [] \<Rightarrow> pts_ro_get c = None
     | x # xs \<Rightarrow> \<exists>d. pts_ro_get c = Some (x, d) \<and> pts_ok d \<and> stamps d = xs \<and> (\<forall>y\<in>set xs. x \<le> y)"
proof -
  note n = assms(3) and True = assms(2)
  have srt: "sorted (stamps c)" and st: "stamps c = take n (ts c)" "length (stamps c) = n"
    using assms by (auto simp: pts_ok_def stamps_def)
  show ?thesis
  proof (cases "stamps c")
    case Nil
    then have "n = 0" using st(2) by simp
    then show ?thesis using Nil True n by (simp add: pts_ro_get_def rd_blk_def)
  next
    case (Cons x xs)
    then obtain m where m: "ts c = x # m" "xs = take (n - 1) m" "0 < n" using st by (cases "ts c"; cases n) auto
    have nm: "n \<le> Suc (length m)" using assms(1) n m(1) by (simp add: pts_ok_def)
    have "rd_blk (ts c) 1 (num c - 1) = Some xs" using nm m n by (simp add: rd_blk_def nat_diff_distrib)
    moreover have "wr_blk (ts c) 0 xs = Some (put_at (ts c) 0 xs)" using m n by (simp add: wr_blk_def)
    ultimately have "pts_ro_get c = Some (x, c\<lparr>ts := put_at (ts c) 0 xs, num := num c - 1\<rparr>)"
      using True m by (simp add: pts_ro_get_def)
    moreover have "stamps (c\<lparr>ts := put_at (ts c) 0 xs, num := num c - 1\<rparr>) = xs"
      using nm m n by (simp add: stamps_def put_at_def nat_diff_distrib min_def)
    moreover have "int (length (put_at (ts c) 0 xs)) = int (length (ts c))" using nm m n by simp
    ultimately show ?thesis using Cons srt n m assms(1) by (auto simp: pts_ok_def)
  qed
qed

section \<open>Properties\<close>

text \<open>
  C25. The reorder buffer is a priority queue. While running and with room in the array,
  pts_ro_put inserts the stamp in sorted position; with at least one stamp stored pts_ro_get
  returns the smallest and removes it. Both keep the array sorted. With the array full the put
  writes behind it, and with no stamp stored the get moves a block of negative size (neither
  is checked by the code). When not running, the put does nothing and the get returns -1.
\<close>

theorem pts_reorder_priority_queue:
  assumes "pts_ok c"
  shows "(if \<not> run c then pts_ro_put c t = Some c \<and> pts_ro_get c = Some (-1, c)
     else (if num c < int (length (ts c))
           then \<exists>d. pts_ro_put c t = Some d \<and> pts_ok d \<and> stamps d = insort t (stamps c)
           else pts_ro_put c t = None)
        \<and> (case stamps c of [] \<Rightarrow> pts_ro_get c = None
           | x # xs \<Rightarrow> \<exists>d. pts_ro_get c = Some (x, d) \<and> pts_ok d \<and> stamps d = xs \<and> (\<forall>y\<in>set xs. x \<le> y)))"
proof (cases "run c")
  case False
  then show ?thesis by (simp add: pts_ro_put_def pts_ro_get_def)
next
  case True
  obtain n where n: "num c = int n" "n \<le> length (ts c)"
    using assms by (auto simp: pts_ok_def dest: nonneg_int_cases)
  with True show ?thesis
    using pts_ro_put_spec [OF assms True n(1), of t] pts_ro_put_full [of c t] pts_ro_get_spec [OF assms True n(1)] by auto
qed

theorem pts_reorder_priority_queue_witness:
  "\<exists>d. pts_ro_put \<lparr>ts = [3, 8, 0], num = 2, run = True\<rparr> 5 = Some d \<and> stamps d = [3, 5, 8]"
  using pts_reorder_priority_queue [of "\<lparr>ts = [3, 8, 0], num = 2, run = True\<rparr>" 5]
  by (auto simp: pts_ok_def stamps_def)

end
