(* ===== verification/Golomb.thy ===== *)
theory Golomb
  imports Bits
begin

text \<open>
  The exp-Golomb codes of Source/h264.c, read with the bit reader, and the relation between a
  bit-stream parser and the bit string it consumes, with which the syntax parsers of the video
  headers are verified: a parser consumes a bit string and yields a value when, on every reader
  whose next bits are that string, it succeeds with the value and stops exactly behind it.
\<close>

partial_function (option) ue_loop :: "bits \<Rightarrow> int \<Rightarrow> u32 \<Rightarrow> (int \<times> u32 \<times> bits) option" where
  "ue_loop ctx lz exp = do {
     (b, ctx) \<leftarrow> BITS_get1 ctx;
     let lz = lz + 1;
     let exp = exp * 2;
     if b = 0 then ue_loop ctx lz exp else Some (lz, exp, ctx) }"

definition get_ue_golomb :: "bits \<Rightarrow> (u32 \<times> bits) option" where
  "get_ue_golomb ctx = do {
     (lz, exp, ctx) \<leftarrow> ue_loop ctx (-1) 1;
     let exp = exp div 2;
     (v, ctx) \<leftarrow> BITS_get ctx lz;
     Some (exp - 1 + v, ctx) }"

partial_function (option) se_loop :: "bits \<Rightarrow> u32 \<Rightarrow> int \<Rightarrow> (int \<times> bits) option" where
  "se_loop ctx temp lz = (if temp = 0 then do { (t, ctx) \<leftarrow> BITS_get1 ctx; se_loop ctx t (lz + 1) } else Some (lz, ctx))"

text \<open>The shift 1 << leadingZeroBits of an int is undefined from 31 bits on.\<close>

definition get_se_golomb :: "bits \<Rightarrow> (int \<times> bits) option" where
  "get_se_golomb ctx = do {
     (t, ctx) \<leftarrow> BITS_get1 ctx;
     (lz, ctx) \<leftarrow> se_loop ctx t 0;
     (t, ctx) \<leftarrow> BITS_get ctx lz;
     if 31 \<le> lz then None
     else Some (sint (drop_bit 1 (push_bit (nat lz) 1 + t)), ctx) }"

section \<open>Parsers and the bits they consume\<close>

definition consumes :: "(bits \<Rightarrow> ('a \<times> bits) option) \<Rightarrow> bool list \<Rightarrow> 'a \<Rightarrow> bool" where
  "consumes f bs v \<longleftrightarrow> (\<forall>ctx rest. bits_ok ctx \<longrightarrow> readable ctx = bs @ rest \<longrightarrow>
     (\<exists>ctx'. f ctx = Some (v, ctx') \<and> readable ctx' = rest \<and> bits_ok ctx'))"

named_theorems reads \<open>what the parsers consume\<close>

lemma consumes_D: "consumes f bs v \<Longrightarrow> bits_ok ctx \<Longrightarrow> readable ctx = bs @ rest \<Longrightarrow>
    \<exists>ctx'. f ctx = Some (v, ctx') \<and> readable ctx' = rest \<and> bits_ok ctx'"
  by (simp add: consumes_def)

lemma consumes_bind:
  assumes "consumes f bs v" "consumes (\<lambda>ctx. g v ctx) cs w"
  shows "consumes (\<lambda>ctx. Option.bind (f ctx) (\<lambda>(x, ctx). g x ctx)) (bs @ cs) w"
  unfolding consumes_def
proof (intro allI impI)
  fix ctx rest assume "bits_ok ctx" "readable ctx = (bs @ cs) @ rest"
  then obtain c1 where c1: "f ctx = Some (v, c1)" "readable c1 = cs @ rest" "bits_ok c1"
    using consumes_D [OF assms(1), of ctx "cs @ rest"] by auto
  then show "\<exists>ctx'. Option.bind (f ctx) (\<lambda>(x, ctx). g x ctx) = Some (w, ctx') \<and> readable ctx' = rest \<and> bits_ok ctx'"
    using consumes_D [OF assms(2), of c1 rest] by simp
qed

lemma consumes_return: "consumes (\<lambda>ctx. Some (v, ctx)) [] v"
  by (simp add: consumes_def)

lemma consumes_bind_Nil: "consumes f [] v \<Longrightarrow> consumes (\<lambda>ctx. g v ctx) cs w \<Longrightarrow>
    consumes (\<lambda>ctx. Option.bind (f ctx) (\<lambda>(x, ctx). g x ctx)) cs w"
  using consumes_bind [of f "[]" v g cs w] by simp

lemma consumes_last: "consumes f bs v \<Longrightarrow> h v = w \<Longrightarrow>
    consumes (\<lambda>ctx. Option.bind (f ctx) (\<lambda>(x, ctx). Some (h x, ctx))) bs w"
  using consumes_bind [of f bs v "\<lambda>x ctx. Some (h x, ctx)" "[]" "h v"] consumes_return [of "h v"] by simp

lemma consumes_get1 [reads]: "consumes BITS_get1 [b] (of_bool b)"
  unfolding consumes_def using BITS_get1_Cons by fastforce

lemma consumes_get: "int (length bs) = n \<Longrightarrow> consumes (\<lambda>ctx. BITS_get ctx n) bs (word_of_nat (bval bs))"
  unfolding consumes_def using br.getn_exact by blast

section \<open>Exp-Golomb codes\<close>

text \<open>The code of a number, as the H.264 specification defines it.\<close>

definition nbits :: "nat \<Rightarrow> nat \<Rightarrow> bool list" where
  "nbits k n = map (\<lambda>i. bit n (k - 1 - i)) [0..<k]"

fun code_len :: "nat \<Rightarrow> nat" where
  "code_len n = (if n = 0 then 0 else Suc (code_len ((n + 1) div 2 - 1)))"

declare code_len.simps [simp del]

definition ue_code :: "nat \<Rightarrow> bool list" where
  "ue_code n = replicate (code_len n) False @ True # nbits (code_len n) (n + 1 - 2 ^ code_len n)"

lemma code_len_bounds: "2 ^ code_len n \<le> n + 1 \<and> n + 1 < 2 ^ (code_len n + 1)"
proof (induction n rule: code_len.induct)
  case (1 n)
  show ?case
  proof (cases "n = 0")
    case False
    then have e: "(n + 1) div 2 - 1 + 1 = (n + 1) div 2" by simp
    have IH: "2 ^ code_len ((n + 1) div 2 - 1) \<le> (n + 1) div 2" "(n + 1) div 2 < 2 ^ (code_len ((n + 1) div 2 - 1) + 1)"
      using "1.IH" [OF False] unfolding e by auto
    have c: "code_len n = Suc (code_len ((n + 1) div 2 - 1))" using False by (subst code_len.simps) simp
    show ?thesis unfolding c using IH by auto
  qed (simp add: code_len.simps)
qed

lemma length_nbits [simp]: "length (nbits k n) = k"
  by (simp add: nbits_def)

lemma nbits_Suc: "nbits (Suc k) n = nbits k (n div 2) @ [odd n]"
proof (rule nth_equalityI)
  fix i assume "i < length (nbits (Suc k) n)"
  then show "nbits (Suc k) n ! i = (nbits k (n div 2) @ [odd n]) ! i"
    by (cases "i < k") (auto simp: nbits_def nth_append bit_Suc [symmetric] bit_0 Suc_diff_Suc simp flip: bit_Suc)
qed simp

lemma bval_nbits: "n < 2 ^ k \<Longrightarrow> bval (nbits k n) = n"
proof (induction k arbitrary: n)
  case (Suc k)
  then have "bval (nbits k (n div 2)) = n div 2" by auto
  then show ?case by (simp add: nbits_Suc bval_snoc)
qed (simp add: nbits_def)

lemma ue_loop_zeros:
  assumes "bits_ok ctx" "readable ctx = replicate k False @ True # rest"
  shows "\<exists>ctx'. ue_loop ctx lz exp = Some (lz + int k + 1, exp * 2 ^ Suc k, ctx') \<and> readable ctx' = rest \<and> bits_ok ctx'"
  using assms
proof (induction k arbitrary: ctx lz exp)
  case 0
  then obtain ctx' where "BITS_get1 ctx = Some (of_bool True, ctx')" "readable ctx' = rest" "bits_ok ctx'"
    using BITS_get1_Cons [of ctx True rest] by auto
  then show ?case by (subst ue_loop.simps) simp
next
  case (Suc k)
  then obtain c1 where c1: "BITS_get1 ctx = Some (of_bool False, c1)" "readable c1 = replicate k False @ True # rest" "bits_ok c1"
    using BITS_get1_Cons [of ctx False "replicate k False @ True # rest"] by auto
  have "ue_loop ctx lz exp = ue_loop c1 (lz + 1) (exp * 2)"
    using c1(1) by (subst ue_loop.simps) simp
  then show ?case using Suc.IH [OF c1(3,2), of "lz + 1" "exp * 2"] by (simp add: algebra_simps)
qed

lemma consumes_ue_bits:
  assumes "length bs = k" "k \<le> 30"
  shows "consumes get_ue_golomb (replicate k False @ True # bs) (word_of_nat (2 ^ k - 1 + bval bs))"
  unfolding consumes_def
proof (intro allI impI)
  fix ctx rest assume a: "bits_ok ctx" "readable ctx = (replicate k False @ True # bs) @ rest"
  then obtain c1 where c1: "ue_loop ctx (-1) 1 = Some (int k, 2 ^ Suc k, c1)" "readable c1 = bs @ rest" "bits_ok c1"
    using ue_loop_zeros [of ctx k "bs @ rest" "-1" 1] by auto
  then obtain c2 where c2: "BITS_get c1 (int k) = Some (word_of_nat (bval bs), c2)" "readable c2 = rest" "bits_ok c2"
    using br.getn_exact [OF c1(3,2)] assms(1) by auto
  have "(2 ^ Suc k :: u32) div 2 = drop_bit 1 (push_bit (Suc k) 1)"
    by (simp add: drop_bit_eq_div push_bit_eq_mult)
  also have "\<dots> = 2 ^ k"
    by (rule bit_word_eqI) (use assms(2) in \<open>auto simp: bit_simps bit_1_iff\<close>)
  finally have "(2 ^ Suc k :: u32) div 2 = 2 ^ k" .
  moreover have "(2::u32) ^ k - 1 + word_of_nat (bval bs) = word_of_nat (2 ^ k - 1 + bval bs)"
  proof -
    obtain m where m: "(2::nat) ^ k = Suc m" using not0_implies_Suc [of "2 ^ k"] by auto
    have "(2::u32) ^ k = word_of_nat (2 ^ k)" by simp
    then show ?thesis unfolding m by simp
  qed
  ultimately show "\<exists>ctx'. get_ue_golomb ctx = Some (word_of_nat (2 ^ k - 1 + bval bs), ctx') \<and> readable ctx' = rest \<and> bits_ok ctx'"
    using c1 c2 by (simp add: get_ue_golomb_def)
qed

lemma consumes_ue [reads]:
  assumes "n < 2 ^ 31 - 1"
  shows "consumes get_ue_golomb (ue_code n) (word_of_nat n)"
proof -
  let ?k = "code_len n"
  note b = code_len_bounds [of n]
  have "(2::nat) ^ ?k < 2 ^ 31" using b assms by simp
  then have "?k \<le> 30" by (simp only: power_strict_increasing_iff)
  moreover have "n + 1 - p < p \<and> p - 1 + (n + 1 - p) = n" if "p \<le> n + 1" "n + 1 < 2 * p" for p
    using that by linarith
  from this [of "2 ^ ?k"] have "n + 1 - 2 ^ ?k < 2 ^ ?k" "2 ^ ?k - 1 + (n + 1 - 2 ^ ?k) = n"
    using b by simp_all
  moreover from this(1) have "bval (nbits ?k (n + 1 - 2 ^ ?k)) = n + 1 - 2 ^ ?k" by (rule bval_nbits)
  ultimately show ?thesis
    using consumes_ue_bits [of "nbits ?k (n + 1 - 2 ^ ?k)" ?k] by (simp add: ue_code_def)
qed

lemma se_loop_zeros:
  assumes "bits_ok ctx" "readable ctx = replicate k False @ True # rest" "BITS_get1 ctx = Some (b, c1)"
  shows "\<exists>ctx'. se_loop c1 b lz = Some (lz + int k, ctx') \<and> readable ctx' = rest \<and> bits_ok ctx'"
  using assms
proof (induction k arbitrary: ctx lz b c1)
  case 0
  then have "b = 1 \<and> readable c1 = rest \<and> bits_ok c1"
    using BITS_get1_Cons [of ctx True rest] by auto
  then show ?case by (subst se_loop.simps) simp
next
  case (Suc k)
  then have c1: "b = 0" "readable c1 = replicate k False @ True # rest" "bits_ok c1"
    using BITS_get1_Cons [of ctx False "replicate k False @ True # rest"] by auto
  have "\<exists>x c2. BITS_get1 c1 = Some (x, c2)"
    using BITS_get1_Cons [of c1] c1(2,3) by (cases k) fastforce+
  then obtain x c2 where c2: "BITS_get1 c1 = Some (x, c2)" by blast
  have "se_loop c1 b lz = se_loop c2 x (lz + 1)" using c1(1) c2 by (subst se_loop.simps) simp
  then show ?case using Suc.IH [OF c1(3,2) c2, of "lz + 1"] by (simp add: algebra_simps)
qed

lemma half_shift:
  assumes "k \<le> 30" "n < 2 ^ k"
  shows "sint (drop_bit 1 (push_bit k 1 + word_of_nat n :: u32)) = int ((2 ^ k + n) div 2)"
proof -
  have "(2::nat) ^ k \<le> 2 ^ 30" using assms(1) by (rule power_increasing) simp
  then have lt: "2 ^ k + n < 2 ^ 31" using assms(2) by simp
  have "push_bit k 1 + word_of_nat n = (word_of_nat (2 ^ k + n) :: u32)"
    by (simp add: push_bit_eq_mult)
  then have u: "unat (push_bit k 1 + word_of_nat n :: u32) = 2 ^ k + n"
    using lt by (simp only: unat_of_nat) simp
  have d: "unat (drop_bit 1 (push_bit k 1 + word_of_nat n :: u32)) = (2 ^ k + n) div 2"
    unfolding unat_drop_bit_eq u by (simp add: drop_bit_eq_div)
  then have "uint (drop_bit 1 (push_bit k 1 + word_of_nat n :: u32)) = int ((2 ^ k + n) div 2)"
    by (simp only: uint_nat)
  moreover have "int ((2 ^ k + n) div 2) < 2 ^ 31" using lt by simp
  ultimately show ?thesis
    by (simp only: sint_uint) (simp add: signed_take_bit_int_eq_self)
qed

lemma consumes_se [reads]:
  assumes "n < 2 ^ 31 - 1"
  shows "consumes get_se_golomb (ue_code n) (int ((n + 1) div 2))"
  unfolding consumes_def
proof (intro allI impI)
  let ?k = "code_len n"
  fix ctx rest assume a: "bits_ok ctx" "readable ctx = ue_code n @ rest"
  note b = code_len_bounds [of n]
  have "(2::nat) ^ ?k < 2 ^ 31" using b assms by simp
  then have k: "?k \<le> 30" by (simp only: power_strict_increasing_iff)
  have split: "n + 1 - p < p \<and> p + (n + 1 - p) = n + 1" if "p \<le> n + 1" "n + 1 < 2 * p" for p
    using that by linarith
  have p: "n + 1 - 2 ^ ?k < 2 ^ ?k" "2 ^ ?k + (n + 1 - 2 ^ ?k) = n + 1"
    using split [of "2 ^ ?k"] b by simp_all
  let ?bs = "nbits ?k (n + 1 - 2 ^ ?k)"
  have r: "readable ctx = replicate ?k False @ True # (?bs @ rest)" using a(2) by (simp add: ue_code_def)
  have "\<exists>x c1. BITS_get1 ctx = Some (x, c1)"
    using BITS_get1_Cons [OF a(1)] r by (cases ?k) fastforce+
  then obtain x c1 where c1: "BITS_get1 ctx = Some (x, c1)" by blast
  from se_loop_zeros [OF a(1) r c1, of 0] obtain c2
    where c2: "se_loop c1 x 0 = Some (int ?k, c2)" "readable c2 = ?bs @ rest" "bits_ok c2" by auto
  obtain c3 where c3: "BITS_get c2 (int ?k) = Some (word_of_nat (bval ?bs), c3)" "readable c3 = rest" "bits_ok c3"
    using br.getn_exact [OF c2(3,2)] by auto
  have "bval ?bs = n + 1 - 2 ^ ?k" using p(1) by (rule bval_nbits)
  then have "get_se_golomb ctx = Some (int ((n + 1) div 2), c3)"
    using c1 c2 c3 k half_shift [OF k p(1)] p(2) by (simp add: get_se_golomb_def)
  then show "\<exists>ctx'. get_se_golomb ctx = Some (int ((n + 1) div 2), ctx') \<and> readable ctx' = rest \<and> bits_ok ctx'"
    using c3 by simp
qed

section \<open>Properties\<close>

text \<open>
  C22. Exp-Golomb round trip. On a reader whose next bits are the exp-Golomb code of n,
  get_ue_golomb returns n and stops exactly behind the code, for every n below 2^31 - 1 (codes
  of up to 30 leading zeros).
\<close>

theorem ue_golomb_roundtrip:
  assumes "bits_ok ctx" "readable ctx = ue_code n @ rest" "n < 2 ^ 31 - 1"
  shows "\<exists>ctx'. get_ue_golomb ctx = Some (word_of_nat n, ctx') \<and> readable ctx' = rest \<and> bits_ok ctx'"
  using consumes_D [OF consumes_ue] assms by blast

theorem ue_golomb_roundtrip_witness:
  "\<exists>ctx'. get_ue_golomb (BITS_init [0x2C] 1) = Some (4, ctx') \<and> readable ctx' = [True, False, False]"
proof -
  have "readable (BITS_init [0x2C] 1) = ue_code 4 @ [True, False, False]"
    unfolding readable_init by (simp add: byte_bits_code ue_code_def code_len.simps nbits_def bit_Suc_0_iff)
  from ue_golomb_roundtrip [OF bits_ok_init this] show ?thesis by auto
qed

text \<open>The signed value the specification gives to code number n.\<close>

definition se_value :: "nat \<Rightarrow> int" where
  "se_value n = (if odd n then int ((n + 1) div 2) else - int (n div 2))"

text \<open>
  get_se_golomb loses the sign: for the code number n it consumes the right bits but
  returns the magnitude of the signed value, so every even code number (which stands for a
  negative value) is decoded wrongly.
\<close>

theorem se_golomb_magnitude:
  assumes "bits_ok ctx" "readable ctx = ue_code n @ rest" "n < 2 ^ 31 - 1"
  shows "\<exists>ctx'. get_se_golomb ctx = Some (\<bar>se_value n\<bar>, ctx') \<and> readable ctx' = rest \<and> bits_ok ctx'"
proof -
  have "\<bar>se_value n\<bar> = int ((n + 1) div 2)" by (auto simp: se_value_def elim!: evenE)
  then show ?thesis using consumes_D [OF consumes_se] assms by simp
qed

theorem se_golomb_magnitude_witness:
  "\<exists>ctx'. get_se_golomb (BITS_init [0x2C] 1) = Some (2, ctx') \<and> se_value 4 = -2"
proof -
  have "readable (BITS_init [0x2C] 1) = ue_code 4 @ [True, False, False]"
    unfolding readable_init by (simp add: byte_bits_code ue_code_def code_len.simps nbits_def bit_Suc_0_iff)
  from se_golomb_magnitude [OF bits_ok_init this] show ?thesis by (auto simp: se_value_def)
qed

end
