(* ===== verification/H264_Params.thy ===== *)
theory H264_Params
  imports Golomb
begin

text \<open>
  The parameter sets and slice headers of Source/h264.c. A parser takes the bit reader and
  returns its result and the advanced reader; None means that it reads outside the memory. The
  UINT results of the bit reader are stored in int fields (sint). Values the code reads only to
  skip them are dropped here as there; debug output is left out.
\<close>

record h264_sps =
  sps_valid :: int
  profile_idc :: int
  level_idc :: int
  width :: int
  height :: int
  frame_mbs_only_flag :: int
  mb_aff :: int
  sar_num :: int
  sar_den :: int
  timing_info_present :: int
  num_units_in_tick :: int
  time_scale :: int
  fixed_frame_rate :: int
  log2_max_frame_num :: int
  num_ref_frames :: int
  num_reorder_frames :: int
  entropy_coding_mode_flag :: int

definition pixel_aspect :: "(int \<times> int) list" where
  "pixel_aspect = [(0, 1), (1, 1), (12, 11), (10, 11), (16, 11), (40, 33), (24, 11), (20, 11), (32, 11),
     (80, 33), (18, 11), (15, 11), (64, 33), (160, 99), (4, 3), (3, 2), (2, 1)]"

text \<open>Reading a value only to skip it.\<close>

definition skip_bits :: "int \<Rightarrow> bits \<Rightarrow> (unit \<times> bits) option" where
  "skip_bits n ctx = do { (x, ctx) \<leftarrow> BITS_get ctx n; Some ((), ctx) }"

definition skip_bit :: "bits \<Rightarrow> (unit \<times> bits) option" where
  "skip_bit ctx = do { (x, ctx) \<leftarrow> BITS_get1 ctx; Some ((), ctx) }"

definition skip_ue :: "bits \<Rightarrow> (unit \<times> bits) option" where
  "skip_ue ctx = do { (x, ctx) \<leftarrow> get_ue_golomb ctx; Some ((), ctx) }"

definition skip_se :: "bits \<Rightarrow> (unit \<times> bits) option" where
  "skip_se ctx = do { (x, ctx) \<leftarrow> get_se_golomb ctx; Some ((), ctx) }"

fun skip_times :: "nat \<Rightarrow> (bits \<Rightarrow> (unit \<times> bits) option) \<Rightarrow> bits \<Rightarrow> (unit \<times> bits) option" where
  "skip_times 0 f ctx = Some ((), ctx)"
| "skip_times (Suc n) f ctx = do { (u, ctx) \<leftarrow> f ctx; skip_times n f ctx }"

definition decode_HRD :: "bits \<Rightarrow> (unit \<times> bits) option" where
  "decode_HRD ctx = do {
     (c, ctx) \<leftarrow> get_ue_golomb ctx;
     let cpb_cnt_minus1 = sint c;
     (u, ctx) \<leftarrow> skip_bits 4 ctx;
     (u, ctx) \<leftarrow> skip_bits 4 ctx;
     (u, ctx) \<leftarrow> skip_times (nat (cpb_cnt_minus1 + 1)) (skip_times 3 skip_ue) ctx;
     skip_times 4 (skip_bits 5) ctx }"

definition EXTENDED_SAR :: int where
  "EXTENDED_SAR = 255"

definition vui_aspect :: "h264_sps \<Rightarrow> bits \<Rightarrow> (h264_sps \<times> bits) option" where
  "vui_aspect sps ctx = do {
     (f, ctx) \<leftarrow> BITS_get1 ctx;
     if f = 0 then Some (sps, ctx)
     else do {
       (i, ctx) \<leftarrow> BITS_get ctx 8;
       if sint i = EXTENDED_SAR then do {
         (n, ctx) \<leftarrow> BITS_get ctx 16;
         (d, ctx) \<leftarrow> BITS_get ctx 16;
         Some (sps\<lparr>sar_num := sint n, sar_den := sint d\<rparr>, ctx) }
       else if sint i < 17 then do {
         a \<leftarrow> rd pixel_aspect (sint i);
         Some (sps\<lparr>sar_num := fst a, sar_den := snd a\<rparr>, ctx) }
       else Some (sps, ctx) } }"

definition vui_signal :: "bits \<Rightarrow> (unit \<times> bits) option" where
  "vui_signal ctx = do {
     (f, ctx) \<leftarrow> BITS_get1 ctx;
     (u, ctx) \<leftarrow> (if f \<noteq> 0 then skip_bit ctx else Some ((), ctx));
     (f, ctx) \<leftarrow> BITS_get1 ctx;
     (u, ctx) \<leftarrow> (if f \<noteq> 0 then do {
         (u, ctx) \<leftarrow> skip_bits 3 ctx;
         (u, ctx) \<leftarrow> skip_bit ctx;
         (c, ctx) \<leftarrow> BITS_get1 ctx;
         if c \<noteq> 0 then skip_times 3 (skip_bits 8) ctx else Some ((), ctx) }
       else Some ((), ctx));
     (f, ctx) \<leftarrow> BITS_get1 ctx;
     if f \<noteq> 0 then skip_times 2 skip_ue ctx else Some ((), ctx) }"

definition vui_timing :: "h264_sps \<Rightarrow> bits \<Rightarrow> (h264_sps \<times> bits) option" where
  "vui_timing sps ctx = do {
     (f, ctx) \<leftarrow> BITS_get1 ctx;
     let sps = sps\<lparr>timing_info_present := sint f\<rparr>;
     if f = 0 then Some (sps, ctx)
     else do {
       (n, ctx) \<leftarrow> BITS_get ctx 32;
       (t, ctx) \<leftarrow> BITS_get ctx 32;
       (x, ctx) \<leftarrow> BITS_get1 ctx;
       Some (sps\<lparr>num_units_in_tick := sint n, time_scale := sint t, fixed_frame_rate := sint x\<rparr>, ctx) } }"

definition vui_restriction :: "h264_sps \<Rightarrow> bits \<Rightarrow> (h264_sps \<times> bits) option" where
  "vui_restriction sps ctx = do {
     (f, ctx) \<leftarrow> BITS_get1 ctx;
     if f = 0 then Some (sps, ctx)
     else do {
       (u, ctx) \<leftarrow> skip_bit ctx;
       (u, ctx) \<leftarrow> skip_times 4 skip_ue ctx;
       (r, ctx) \<leftarrow> get_ue_golomb ctx;
       (u, ctx) \<leftarrow> skip_ue ctx;
       Some (sps\<lparr>num_reorder_frames := sint r\<rparr>, ctx) } }"

definition parse_VUI :: "h264_sps \<Rightarrow> bits \<Rightarrow> (h264_sps \<times> bits) option" where
  "parse_VUI sps ctx = do {
     (sps, ctx) \<leftarrow> vui_aspect sps ctx;
     (u, ctx) \<leftarrow> vui_signal ctx;
     (sps, ctx) \<leftarrow> vui_timing sps ctx;
     (nal_hrd, ctx) \<leftarrow> BITS_get1 ctx;
     (u, ctx) \<leftarrow> (if nal_hrd \<noteq> 0 then decode_HRD ctx else Some ((), ctx));
     (vcl_hrd, ctx) \<leftarrow> BITS_get1 ctx;
     (u, ctx) \<leftarrow> (if vcl_hrd \<noteq> 0 then decode_HRD ctx else Some ((), ctx));
     (u, ctx) \<leftarrow> (if nal_hrd \<noteq> 0 \<or> vcl_hrd \<noteq> 0 then skip_bit ctx else Some ((), ctx));
     (u, ctx) \<leftarrow> skip_bit ctx;
     vui_restriction sps ctx }"

text \<open>The loop of skip_scaling_list, with the number of elements left.\<close>

fun scaling_loop :: "nat \<Rightarrow> int \<Rightarrow> int \<Rightarrow> bits \<Rightarrow> (unit \<times> bits) option" where
  "scaling_loop 0 lastScale nextScale ctx = Some ((), ctx)"
| "scaling_loop (Suc n) lastScale nextScale ctx = do {
     (nextScale, ctx) \<leftarrow> (if nextScale \<noteq> 0 then do {
         (delta_scale, ctx) \<leftarrow> get_se_golomb ctx;
         Some (i32 (lastScale + delta_scale + 256) AND 0xff, ctx) }
       else Some (nextScale, ctx));
     let lastScale = (if nextScale \<noteq> 0 then nextScale else lastScale);
     scaling_loop n lastScale nextScale ctx }"

definition skip_scaling_list :: "nat \<Rightarrow> bits \<Rightarrow> (unit \<times> bits) option" where
  "skip_scaling_list list_size ctx = scaling_loop list_size 8 8 ctx"

fun scaling_matrices_loop :: "nat list \<Rightarrow> bits \<Rightarrow> (unit \<times> bits) option" where
  "scaling_matrices_loop [] ctx = Some ((), ctx)"
| "scaling_matrices_loop (i # is) ctx = do {
     (p, ctx) \<leftarrow> BITS_get1 ctx;
     (u, ctx) \<leftarrow> (if p \<noteq> 0 then skip_scaling_list (if i < 6 then 16 else 64) ctx else Some ((), ctx));
     scaling_matrices_loop is ctx }"

definition skip_scaling_matrices :: "bits \<Rightarrow> (unit \<times> bits) option" where
  "skip_scaling_matrices ctx = do {
     (f, ctx) \<leftarrow> BITS_get1 ctx;
     if f \<noteq> 0 then scaling_matrices_loop [0..<8] ctx else Some ((), ctx) }"

text \<open>The part of H264_parse_SPS that only a profile from 100 on has.\<close>

definition sps_high_profile :: "bits \<Rightarrow> (unit \<times> bits) option" where
  "sps_high_profile ctx = do {
     (chroma_format_idc, ctx) \<leftarrow> get_ue_golomb ctx;
     (u, ctx) \<leftarrow> (if chroma_format_idc = 3 then skip_bit ctx else Some ((), ctx));
     (u, ctx) \<leftarrow> skip_ue ctx;
     (u, ctx) \<leftarrow> skip_ue ctx;
     (u, ctx) \<leftarrow> skip_bit ctx;
     skip_scaling_matrices ctx }"

definition sps_poc :: "bits \<Rightarrow> (unit \<times> bits) option" where
  "sps_poc ctx = do {
     (p, ctx) \<leftarrow> get_ue_golomb ctx;
     let poc_type = sint p;
     if poc_type = 0 then skip_ue ctx
     else if poc_type = 1 then do {
       (u, ctx) \<leftarrow> skip_bit ctx;
       (u, ctx) \<leftarrow> skip_se ctx;
       (u, ctx) \<leftarrow> skip_se ctx;
       (n, ctx) \<leftarrow> get_ue_golomb ctx;
       skip_times (nat (sint n)) skip_se ctx }
     else Some ((), ctx) }"

definition sps_size :: "h264_sps \<Rightarrow> bits \<Rightarrow> (h264_sps \<times> bits) option" where
  "sps_size sps ctx = do {
     (n, ctx) \<leftarrow> get_ue_golomb ctx;
     let sps = sps\<lparr>num_ref_frames := sint n\<rparr>;
     (u, ctx) \<leftarrow> skip_bit ctx;
     (w, ctx) \<leftarrow> get_ue_golomb ctx;
     (h, ctx) \<leftarrow> get_ue_golomb ctx;
     let sps = sps\<lparr>width := sint (16 * (w + 1)), height := sint (16 * (h + 1))\<rparr>;
     (f, ctx) \<leftarrow> BITS_get1 ctx;
     let sps = sps\<lparr>frame_mbs_only_flag := sint f\<rparr>;
     (sps, ctx) \<leftarrow> (if f = 0 then do { (a, ctx) \<leftarrow> BITS_get1 ctx; Some (sps\<lparr>mb_aff := sint a\<rparr>, ctx) }
       else Some (sps, ctx));
     let sps = sps\<lparr>height := i32 (height sps * (2 - frame_mbs_only_flag sps))\<rparr>;
     (u, ctx) \<leftarrow> skip_bit ctx;
     (crop, ctx) \<leftarrow> BITS_get1 ctx;
     (u, ctx) \<leftarrow> (if crop \<noteq> 0 then skip_times 4 skip_ue ctx else Some ((), ctx));
     Some (sps, ctx) }"

text \<open>The body of H264_parse_SPS behind the set-up of the reader.\<close>

definition sps_body :: "h264_sps \<Rightarrow> bits \<Rightarrow> (h264_sps \<times> bits) option" where
  "sps_body sps ctx = do {
     let sps = sps\<lparr>num_reorder_frames := -1\<rparr>;
     (p, ctx) \<leftarrow> BITS_get ctx 8;
     let sps = sps\<lparr>profile_idc := sint p\<rparr>;
     (u, ctx) \<leftarrow> skip_times 4 skip_bit ctx;
     (u, ctx) \<leftarrow> skip_bits 4 ctx;
     (l, ctx) \<leftarrow> BITS_get ctx 8;
     let sps = sps\<lparr>level_idc := sint l\<rparr>;
     (u, ctx) \<leftarrow> skip_ue ctx;
     (u, ctx) \<leftarrow> (if profile_idc sps \<ge> 100 then sps_high_profile ctx else Some ((), ctx));
     (f, ctx) \<leftarrow> get_ue_golomb ctx;
     let sps = sps\<lparr>log2_max_frame_num := sint (f + 4)\<rparr>;
     (u, ctx) \<leftarrow> sps_poc ctx;
     (sps, ctx) \<leftarrow> sps_size sps ctx;
     let sps = sps\<lparr>sar_num := 1, sar_den := 1\<rparr>;
     (v, ctx) \<leftarrow> BITS_get1 ctx;
     (sps, ctx) \<leftarrow> (if v \<noteq> 0 then parse_VUI sps ctx else Some (sps, ctx));
     Some (sps\<lparr>sps_valid := 1\<rparr>, ctx) }"

text \<open>The memory m starts at the pointer p; len bytes of it belong to the NAL unit.\<close>

definition H264_parse_SPS :: "h264_sps \<Rightarrow> u8 list \<Rightarrow> int \<Rightarrow> (int \<times> h264_sps) option" where
  "H264_parse_SPS sps m len =
     (if len \<le> 0 then Some (1, sps)
      else do {
        ctx \<leftarrow> BITS_init_h264 m (i32 (len * 8));
        (sps, ctx) \<leftarrow> sps_body sps ctx;
        Some (0, sps) })"

definition H264_parse_PPS :: "h264_sps option \<Rightarrow> u8 list \<Rightarrow> int \<Rightarrow> (int \<times> h264_sps option) option" where
  "H264_parse_PPS sps m len = do {
     ctx \<leftarrow> BITS_init_h264 m (i32 (len * 8));
     (u, ctx) \<leftarrow> skip_bit ctx;
     (u, ctx) \<leftarrow> skip_bit ctx;
     (e, ctx) \<leftarrow> BITS_get1 ctx;
     Some (0, map_option (\<lambda>s. s\<lparr>entropy_coding_mode_flag := sint e\<rparr>) sps) }"

datatype field = TOP_FIELD | BOT_FIELD | FRAME

datatype frame_type = I_VOP | P_VOP | B_VOP | IDR_VOP | BR_VOP | NOCODE_VOP

definition slice_type :: "frame_type list" where
  "slice_type = [P_VOP, B_VOP, I_VOP, P_VOP, I_VOP]"

text \<open>
  The slice header: Inl 1 is the error return, Inr the frame type, the field and the frame
  number (which the code stores through the pointers that are not NULL).
\<close>

definition H264_parse_slice_header :: "h264_sps \<Rightarrow> u8 list \<Rightarrow> (int + frame_type \<times> field \<times> int) option" where
  "H264_parse_slice_header sps m = do {
     let ctx = BITS_init m (16 * 8);
     (u, ctx) \<leftarrow> skip_ue ctx;
     (s, ctx) \<leftarrow> get_ue_golomb ctx;
     let slice = sint s;
     let slice = (if slice > 4 then slice - 5 else slice);
     if slice < 0 \<or> slice > 4 then Some (Inl 1)
     else do {
       (u, ctx) \<leftarrow> skip_ue ctx;
       (n, ctx) \<leftarrow> BITS_get ctx (log2_max_frame_num sps);
       (tbf, ctx) \<leftarrow> (if frame_mbs_only_flag sps \<noteq> 0 then Some (FRAME, ctx)
         else do {
           (f, ctx) \<leftarrow> BITS_get1 ctx;
           if f \<noteq> 0 then do {
             (bottom, ctx) \<leftarrow> BITS_get1 ctx;
             Some (if bottom \<noteq> 0 then BOT_FIELD else TOP_FIELD, ctx) }
           else Some (FRAME, ctx) });
       t \<leftarrow> rd slice_type slice;
       Some (Inr (t, tbf, sint n)) } }"

section \<open>What the parsers consume\<close>

lemma consumes_if:
  "(c \<Longrightarrow> consumes f bs v) \<Longrightarrow> (\<not> c \<Longrightarrow> consumes g bs v) \<Longrightarrow> consumes (\<lambda>ctx. if c then f ctx else g ctx) bs v"
  by (cases c) simp_all

lemma consumes_flag: "consumes (g (of_bool b)) cs w \<Longrightarrow>
    consumes (\<lambda>ctx. Option.bind (BITS_get1 ctx) (\<lambda>(x, ctx). g x ctx)) (b # cs) w"
  using consumes_bind [OF consumes_get1, of g b cs w] by simp

lemma consumes_unit: "consumes f bs v \<Longrightarrow> consumes (\<lambda>ctx. Option.bind (f ctx) (\<lambda>(x, ctx). Some ((), ctx))) bs ()"
  using consumes_last [of f bs v "\<lambda>_. ()"] by simp

lemma consumes_skip_bit [reads]: "consumes skip_bit [b] ()"
  unfolding skip_bit_def by (rule consumes_unit) (rule consumes_get1)

lemma consumes_skip_bits [reads]: "int (length bs) = n \<Longrightarrow> consumes (skip_bits n) bs ()"
  unfolding skip_bits_def by (rule consumes_unit) (rule consumes_get)

lemma consumes_skip_ue [reads]: "n < 2 ^ 31 - 1 \<Longrightarrow> consumes skip_ue (ue_code n) ()"
  unfolding skip_ue_def by (rule consumes_unit) (rule consumes_ue)

lemma consumes_skip_se [reads]: "n < 2 ^ 31 - 1 \<Longrightarrow> consumes skip_se (ue_code n) ()"
  unfolding skip_se_def by (rule consumes_unit) (rule consumes_se)

lemma consumes_skip_times:
  "\<forall>bs\<in>set bss. consumes f bs () \<Longrightarrow> consumes (skip_times (length bss) f) (concat bss) ()"
proof (induction bss)
  case Nil
  then show ?case by (simp add: consumes_return)
next
  case (Cons bs bss)
  then show ?case by (auto intro: consumes_bind [of f bs "()"])
qed

text \<open>
  The sequence parameter set as an abstract value, and its bit string by the syntax table of the
  H.264 specification (without scaling matrices and VUI parameters). The sets of the profiles in
  high_profiles have the chroma format, its plane flag, the two bit depths and the bypass flag.
\<close>

datatype poc = Poc0 nat | Poc1 bool nat nat "nat list" | Poc_none nat

record sps_syntax =
  y_profile :: nat
  y_constraints :: "bool list"
  y_reserved :: "bool list"
  y_level :: nat
  y_id :: nat
  y_high :: "(nat \<times> bool \<times> nat \<times> nat \<times> bool) option"
  y_log2 :: nat
  y_poc :: poc
  y_refs :: nat
  y_gaps :: bool
  y_w :: nat
  y_h :: nat
  y_field :: "bool option"
  y_direct :: bool
  y_crop :: "nat list option"

fun high_bits :: "(nat \<times> bool \<times> nat \<times> nat \<times> bool) option \<Rightarrow> bool list" where
  "high_bits None = []"
| "high_bits (Some (c, r, l, d, b)) =
     ue_code c @ (if c = 3 then [r] else []) @ ue_code l @ ue_code d @ [b] @ [False]"

fun poc_bits :: "poc \<Rightarrow> bool list" where
  "poc_bits (Poc0 n) = ue_code 0 @ ue_code n"
| "poc_bits (Poc1 z a b os) = ue_code 1 @ [z] @ ue_code a @ ue_code b @ ue_code (length os) @ concat (map ue_code os)"
| "poc_bits (Poc_none t) = ue_code t"

definition size_bits :: "sps_syntax \<Rightarrow> bool list" where
  "size_bits y = ue_code (y_refs y) @ [y_gaps y] @ ue_code (y_w y) @ ue_code (y_h y)
     @ (case y_field y of None \<Rightarrow> [True] | Some a \<Rightarrow> [False] @ [a]) @ [y_direct y]
     @ (case y_crop y of None \<Rightarrow> [False] | Some cs \<Rightarrow> [True] @ concat (map ue_code cs))"

definition sps_bits :: "sps_syntax \<Rightarrow> bool list" where
  "sps_bits y = nbits 8 (y_profile y) @ y_constraints y @ y_reserved y @ nbits 8 (y_level y) @ ue_code (y_id y)
     @ high_bits (y_high y) @ ue_code (y_log2 y) @ poc_bits (y_poc y) @ size_bits y @ [False]"

definition small :: "nat \<Rightarrow> bool" where
  "small n \<longleftrightarrow> n < 2 ^ 31 - 1"

fun poc_wf :: "poc \<Rightarrow> bool" where
  "poc_wf (Poc0 n) = small n"
| "poc_wf (Poc1 z a b os) = (small a \<and> small b \<and> small (length os) \<and> (\<forall>n\<in>set os. small n))"
| "poc_wf (Poc_none t) = (2 \<le> t \<and> small t)"

fun high_wf :: "(nat \<times> bool \<times> nat \<times> nat \<times> bool) option \<Rightarrow> bool" where
  "high_wf None = True"
| "high_wf (Some (c, r, l, d, b)) = (small c \<and> small l \<and> small d)"

text \<open>
  The profiles whose sets have the chroma fields, as listed in the syntax table of the specification (7.3.2.1.1),
  and the ranges of the specification that matter here: sizes of up to 65535 macroblocks.
\<close>

definition high_profiles :: "nat set" where
  "high_profiles = {100, 110, 122, 244, 44, 83, 86, 118, 128, 138, 139, 134, 135}"

definition sps_ranges :: "sps_syntax \<Rightarrow> bool" where
  "sps_ranges y \<longleftrightarrow> y_profile y < 256 \<and> length (y_constraints y) = 4 \<and> length (y_reserved y) = 4 \<and> y_level y < 256
     \<and> small (y_id y) \<and> high_wf (y_high y) \<and> y_log2 y \<le> 12
     \<and> poc_wf (y_poc y) \<and> small (y_refs y) \<and> y_w y < 65535 \<and> y_h y < 65535
     \<and> (case y_crop y of None \<Rightarrow> True | Some cs \<Rightarrow> length cs = 4 \<and> (\<forall>n\<in>set cs. small n))"

definition sps_wf :: "sps_syntax \<Rightarrow> bool" where
  "sps_wf y \<longleftrightarrow> sps_ranges y \<and> (y_high y \<noteq> None \<longleftrightarrow> y_profile y \<in> high_profiles)"

text \<open>What the parser takes for a set: it expects the chroma fields from profile 100 on.\<close>

definition sps_read_wf :: "sps_syntax \<Rightarrow> bool" where
  "sps_read_wf y \<longleftrightarrow> sps_ranges y \<and> (y_high y \<noteq> None \<longleftrightarrow> 100 \<le> y_profile y)"

lemma uint_small: "n < 2 ^ 32 \<Longrightarrow> uint (word_of_nat n :: u32) = int n"
  by (simp only: uint_nat unat_of_nat) simp

lemma sint_small:
  assumes "n < 2 ^ 31"
  shows "sint (word_of_nat n :: u32) = int n"
proof -
  have "uint (word_of_nat n :: u32) = int n" using assms by (intro uint_small) simp
  moreover have "int n < 2 ^ 31" using assms by simp
  ultimately show ?thesis by (simp only: sint_uint) (simp add: signed_take_bit_int_eq_self)
qed

lemma consumes_high:
  assumes "high_wf (Some h)"
  shows "consumes sps_high_profile (high_bits (Some h)) ()"
proof -
  obtain c r l d b where h: "h = (c, r, l, d, b)" by (cases h) auto
  have s: "c < 2 ^ 31 - 1" "l < 2 ^ 31 - 1" "d < 2 ^ 31 - 1" using assms h by (auto simp: small_def)
  have c3: "(word_of_nat c :: u32) = 3 \<longleftrightarrow> c = 3"
  proof
    assume "(word_of_nat c :: u32) = 3"
    then have "int c = sint (3 :: u32)" using sint_small [of c] s(1) by simp
    then show "c = 3" by simp
  qed simp
  have m: "consumes skip_scaling_matrices [False] ()"
    unfolding skip_scaling_matrices_def by (rule consumes_flag) (simp add: consumes_return)
  have r: "consumes (\<lambda>ctx. if (word_of_nat c :: u32) = 3 then skip_bit ctx else Some ((), ctx)) (if c = 3 then [r] else []) ()"
    using c3 by (auto simp: consumes_skip_bit consumes_return)
  show ?thesis
    unfolding sps_high_profile_def h high_bits.simps
    by (intro consumes_bind [OF consumes_ue] consumes_bind [OF r] consumes_bind [OF consumes_skip_ue]
        consumes_bind [OF consumes_skip_bit] m s)
qed

lemma consumes_ues: "\<forall>n\<in>set ns. small n \<Longrightarrow> length ns = k \<Longrightarrow> consumes (skip_times k skip_ue) (concat (map ue_code ns)) ()"
  using consumes_skip_times [of "map ue_code ns" skip_ue] by (auto simp: small_def consumes_skip_ue)

lemma consumes_ses: "\<forall>n\<in>set ns. small n \<Longrightarrow> length ns = k \<Longrightarrow> consumes (skip_times k skip_se) (concat (map ue_code ns)) ()"
  using consumes_skip_times [of "map ue_code ns" skip_se] by (auto simp: small_def consumes_skip_se)

lemma consumes_poc:
  assumes "poc_wf p"
  shows "consumes sps_poc (poc_bits p) ()"
proof (cases p)
  case (Poc0 n)
  have "consumes skip_ue (ue_code n) ()" using assms Poc0 by (intro consumes_skip_ue) (simp add: small_def)
  then show ?thesis
    unfolding sps_poc_def Let_def Poc0 poc_bits.simps
    by (intro consumes_bind [OF consumes_ue]) (simp_all add: sint_small)
next
  case (Poc1 z a b os)
  have s: "a < 2 ^ 31 - 1" "b < 2 ^ 31 - 1" "length os < 2 ^ 31 - 1" "\<forall>n\<in>set os. small n"
    using assms Poc1 by (auto simp: small_def)
  have "sint (word_of_nat (length os) :: u32) = int (length os)" using s(3) by (intro sint_small) simp
  then have "consumes (\<lambda>ctx. skip_times (nat (sint (word_of_nat (length os) :: u32))) skip_se ctx) (concat (map ue_code os)) ()"
    using consumes_ses [OF s(4), of "length os"] by simp
  then have "consumes (\<lambda>ctx. do { (u, ctx) \<leftarrow> skip_bit ctx; (u, ctx) \<leftarrow> skip_se ctx; (u, ctx) \<leftarrow> skip_se ctx;
      (n, ctx) \<leftarrow> get_ue_golomb ctx; skip_times (nat (sint n)) skip_se ctx })
      ([z] @ ue_code a @ ue_code b @ ue_code (length os) @ concat (map ue_code os)) ()"
    by (intro consumes_bind [OF consumes_skip_bit] consumes_bind [OF consumes_skip_se] consumes_bind [OF consumes_ue] s)
  then show ?thesis
    unfolding sps_poc_def Let_def Poc1 poc_bits.simps
    by (intro consumes_bind [OF consumes_ue]) (simp_all add: sint_small)
next
  case (Poc_none t)
  then have t: "2 \<le> t" "t < 2 ^ 31 - 1" using assms by (auto simp: small_def)
  have "sint (word_of_nat t :: u32) = int t" using t by (intro sint_small) simp
  then have "consumes sps_poc (ue_code t @ []) ()"
    unfolding sps_poc_def Let_def
    by (intro consumes_bind [OF consumes_ue [OF t(2)]]) (use t in \<open>simp add: consumes_return\<close>)
  then show ?thesis by (simp add: Poc_none)
qed

definition sps_size_of :: "sps_syntax \<Rightarrow> h264_sps \<Rightarrow> h264_sps" where
  "sps_size_of y sps = (let s = sps\<lparr>num_ref_frames := int (y_refs y), width := 16 * (int (y_w y) + 1)\<rparr>
     in case y_field y of
          None \<Rightarrow> s\<lparr>frame_mbs_only_flag := 1, height := 16 * (int (y_h y) + 1)\<rparr>
        | Some a \<Rightarrow> s\<lparr>frame_mbs_only_flag := 0, mb_aff := of_bool a, height := 32 * (int (y_h y) + 1)\<rparr>)"

lemma sint_16_times: "n < 65535 \<Longrightarrow> sint (16 * word_of_nat n + 16 :: u32) = 16 * int n + 16"
  using sint_small [of "16 * n + 16"] by simp

lemma sint_of_bool [simp]: "sint (of_bool b :: u32) = of_bool b"
  by (cases b) simp_all

lemma consumes_size:
  assumes "sps_read_wf y"
  shows "consumes (sps_size sps) (size_bits y) (sps_size_of y sps)"
proof -
  have s: "y_refs y < 2 ^ 31 - 1" "y_w y < 2 ^ 31 - 1" "y_h y < 2 ^ 31 - 1" "y_w y < 65535" "y_h y < 65535"
    using assms by (auto simp: sps_read_wf_def sps_ranges_def small_def)
  have refs: "sint (word_of_nat (y_refs y) :: u32) = int (y_refs y)" using s(1) by (intro sint_small) simp
  have crop: "consumes (\<lambda>ctx. if of_bool (y_crop y \<noteq> None) \<noteq> (0::u32) then skip_times 4 skip_ue ctx else Some ((), ctx))
      (case y_crop y of None \<Rightarrow> [] | Some cs \<Rightarrow> concat (map ue_code cs)) ()"
    using assms by (auto simp: sps_read_wf_def sps_ranges_def consumes_return intro: consumes_ues split: option.splits)
  have crop_bits: "(case y_crop y of None \<Rightarrow> [False] | Some cs \<Rightarrow> [True] @ concat (map ue_code cs))
      = (y_crop y \<noteq> None) # (case y_crop y of None \<Rightarrow> [] | Some cs \<Rightarrow> concat (map ue_code cs))"
    by (cases "y_crop y") auto
  show ?thesis
  proof (cases "y_field y")
    case None
    have f: "consumes (\<lambda>ctx. if of_bool True = (0::u32) then do { (a, ctx) \<leftarrow> BITS_get1 ctx; Some (s1\<lparr>mb_aff := sint a\<rparr>, ctx) } else Some (s1, ctx)) [] s1" for s1
      by (simp add: consumes_return)
    have "consumes (sps_size sps) (ue_code (y_refs y) @ [y_gaps y] @ ue_code (y_w y) @ ue_code (y_h y)
       @ [True] @ [] @ [y_direct y] @ (y_crop y \<noteq> None) # (case y_crop y of None \<Rightarrow> [] | Some cs \<Rightarrow> concat (map ue_code cs)))
       (sps_size_of y sps)"
      unfolding sps_size_def Let_def
      by (rule consumes_bind [OF consumes_ue [OF s(1)]], rule consumes_bind [OF consumes_skip_bit],
          rule consumes_bind [OF consumes_ue [OF s(2)]], rule consumes_bind [OF consumes_ue [OF s(3)]],
          rule consumes_bind [OF consumes_get1], rule consumes_bind [OF f], rule consumes_bind [OF consumes_skip_bit],
          rule consumes_flag, rule consumes_last [OF crop])
        (use s None in \<open>simp add: sps_size_of_def sint_16_times refs i32_id\<close>)
    then show ?thesis by (simp add: size_bits_def None crop_bits)
  next
    case (Some a)
    have f: "consumes (\<lambda>ctx. if of_bool False = (0::u32) then do { (a, ctx) \<leftarrow> BITS_get1 ctx; Some (s1\<lparr>mb_aff := sint a\<rparr>, ctx) } else Some (s1, ctx))
        [a] (s1\<lparr>mb_aff := of_bool a\<rparr>)" for s1
      using consumes_last [OF consumes_get1, of "\<lambda>x. s1\<lparr>mb_aff := sint x\<rparr>" a] by simp
    have "consumes (sps_size sps) (ue_code (y_refs y) @ [y_gaps y] @ ue_code (y_w y) @ ue_code (y_h y)
       @ [False] @ [a] @ [y_direct y] @ (y_crop y \<noteq> None) # (case y_crop y of None \<Rightarrow> [] | Some cs \<Rightarrow> concat (map ue_code cs)))
       (sps_size_of y sps)"
      unfolding sps_size_def Let_def
      by (rule consumes_bind [OF consumes_ue [OF s(1)]], rule consumes_bind [OF consumes_skip_bit],
          rule consumes_bind [OF consumes_ue [OF s(2)]], rule consumes_bind [OF consumes_ue [OF s(3)]],
          rule consumes_bind [OF consumes_get1], rule consumes_bind [OF f], rule consumes_bind [OF consumes_skip_bit],
          rule consumes_flag, rule consumes_last [OF crop])
        (use s Some in \<open>simp add: sps_size_of_def sint_16_times refs i32_id\<close>)
    then show ?thesis by (simp add: size_bits_def Some crop_bits)
  qed
qed

text \<open>The fields H264_parse_SPS stores for a parameter set.\<close>

definition sps_of :: "sps_syntax \<Rightarrow> h264_sps \<Rightarrow> h264_sps" where
  "sps_of y sps = (sps_size_of y (sps\<lparr>num_reorder_frames := -1, profile_idc := int (y_profile y),
       level_idc := int (y_level y), log2_max_frame_num := int (y_log2 y) + 4\<rparr>))
     \<lparr>sar_num := 1, sar_den := 1, sps_valid := 1\<rparr>"

lemma consumes_sps_body:
  assumes "sps_read_wf y"
  shows "consumes (sps_body sps) (sps_bits y) (sps_of y sps)"
proof -
  have s: "y_profile y < 256" "length (y_constraints y) = 4" "length (y_reserved y) = 4" "y_level y < 256"
    "y_id y < 2 ^ 31 - 1" "y_log2 y < 2 ^ 31 - 1" "y_high y \<noteq> None \<longleftrightarrow> 100 \<le> y_profile y" "high_wf (y_high y)"
    "y_log2 y \<le> 12" "poc_wf (y_poc y)"
    using assms by (auto simp: sps_read_wf_def sps_ranges_def small_def)
  have byte: "consumes (\<lambda>ctx. BITS_get ctx 8) (nbits 8 n) (word_of_nat n)" if "n < 256" for n
    using consumes_get [of "nbits 8 n" 8] that by (simp add: bval_nbits)
  have flags: "consumes (skip_times 4 skip_bit) (y_constraints y) ()"
    using consumes_skip_times [of "map (\<lambda>b. [b]) (y_constraints y)" skip_bit] s(2) by (simp add: consumes_skip_bit concat_map_singleton)
  have reserved: "consumes (skip_bits 4) (y_reserved y) ()" using s(3) by (intro consumes_skip_bits) simp
  have prof: "sint (word_of_nat (y_profile y) :: u32) = int (y_profile y)" "sint (word_of_nat (y_level y) :: u32) = int (y_level y)"
    using s by (simp_all add: sint_small)
  have log2: "sint (word_of_nat (y_log2 y) + 4 :: u32) = int (y_log2 y) + 4"
    using sint_small [of "y_log2 y + 4"] s(9) by simp
  have high: "consumes (\<lambda>ctx. if 100 \<le> profile_idc s1 then sps_high_profile ctx else Some ((), ctx)) (high_bits (y_high y)) ()"
    if "profile_idc s1 = int (y_profile y)" for s1
    using s(7,8) that by (cases "y_high y") (auto simp: consumes_return intro: consumes_high simp del: high_bits.simps(2))
  have vui: "consumes (\<lambda>ctx. if of_bool False \<noteq> (0::u32) then parse_VUI s1 ctx else Some (s1, ctx)) [] s1" for s1
    by (simp add: consumes_return)
  have "consumes (sps_body sps) (nbits 8 (y_profile y) @ y_constraints y @ y_reserved y @ nbits 8 (y_level y) @ ue_code (y_id y)
     @ high_bits (y_high y) @ ue_code (y_log2 y) @ poc_bits (y_poc y) @ size_bits y @ [False]) (sps_of y sps)"
    unfolding sps_body_def Let_def
    by (rule consumes_bind [OF byte [OF s(1)]], rule consumes_bind [OF flags], rule consumes_bind [OF reserved],
        rule consumes_bind [OF byte [OF s(4)]], rule consumes_bind [OF consumes_skip_ue [OF s(5)]],
        rule consumes_bind, rule high, simp add: prof,
        rule consumes_bind [OF consumes_ue [OF s(6)]], rule consumes_bind [OF consumes_poc [OF s(10)]],
        rule consumes_bind [OF consumes_size [OF assms]], rule consumes_flag, rule consumes_last [OF vui])
      (simp_all add: sps_of_def prof log2)
  then show ?thesis by (simp add: sps_bits_def)
qed

section \<open>Properties\<close>

lemma H264_parse_SPS_reads:
  assumes "sps_read_wf y" "BITS_init_h264 m (i32 (len * 8)) = Some ctx" "readable ctx = sps_bits y @ rest" "0 < len"
  shows "H264_parse_SPS sps m len = Some (0, sps_of y sps)"
proof -
  have "bits_ok ctx" using assms(2) by (auto simp: BITS_init_h264_def bits_ok_def bind_eq_Some_iff)
  from consumes_D [OF consumes_sps_body [OF assms(1), of sps] this assms(3)] show ?thesis
    using assms(2,4) by (auto simp: H264_parse_SPS_def)
qed


definition example_sps :: sps_syntax where
  "example_sps = \<lparr>y_profile = 66, y_constraints = [False, False, False, False], y_reserved = [False, False, False, False],
     y_level = 30, y_id = 0, y_high = None, y_log2 = 0, y_poc = Poc_none 2, y_refs = 1, y_gaps = False, y_w = 19, y_h = 14,
     y_field = None, y_direct = True, y_crop = None\<rparr>"



text \<open>
  A set of profile 44 (CAVLC 4:4:4 Intra) with 320 x 240 luma samples: the parser takes the chroma
  fields for the ones behind them and finds 16 x 32.
\<close>

definition sps_44 :: sps_syntax where
  "sps_44 = example_sps\<lparr>y_profile := 44, y_high := Some (1, False, 0, 0, False), y_poc := Poc0 0, y_refs := 2\<rparr>"

definition sps_44_read :: sps_syntax where
  "sps_44_read = example_sps\<lparr>y_profile := 44, y_log2 := 1, y_poc := Poc0 0, y_refs := 6, y_w := 0, y_h := 0,
     y_field := Some False, y_direct := False\<rparr>"

lemma H264_parse_SPS_profile_44:
  assumes "BITS_init_h264 m (i32 (len * 8)) = Some ctx" "readable ctx = sps_bits sps_44 @ rest" "0 < len"
  shows "sps_wf sps_44 \<and> width (sps_of sps_44 sps) = 320 \<and> height (sps_of sps_44 sps) = 240
    \<and> (\<exists>s. H264_parse_SPS sps m len = Some (0, s) \<and> width s = 16 \<and> height s = 32)"
proof -
  have "\<exists>r. sps_bits sps_44 = sps_bits sps_44_read @ r"
    by (simp add: sps_bits_def sps_44_def sps_44_read_def example_sps_def size_bits_def ue_code_def code_len.simps nbits_def
        upt_rec bit_Suc_0_iff)
  then obtain r where "readable ctx = sps_bits sps_44_read @ r @ rest" using assms(2) by auto
  moreover have "sps_read_wf sps_44_read"
    by (simp add: sps_read_wf_def sps_ranges_def sps_44_read_def example_sps_def small_def)
  ultimately have "H264_parse_SPS sps m len = Some (0, sps_of sps_44_read sps)"
    using assms by (intro H264_parse_SPS_reads) auto
  moreover have "sps_wf sps_44"
    by (simp add: sps_wf_def sps_ranges_def sps_44_def example_sps_def small_def high_profiles_def)
  ultimately show ?thesis
    by (simp add: sps_of_def sps_size_of_def sps_44_def sps_44_read_def example_sps_def Let_def)
qed

end
