(* ===== verification/Video_Props.thy ===== *)
theory Video_Props
  imports H264_Params
begin

text \<open>
  The properties of a video track (VIDEO_PROPERTIES of Include/av.h, the fields the modelled
  parsers use), the codec constants, and the chunk description the manglers change
  (STREAM_CDATA of Include/stream.h).
\<close>

record video_props =
  v_valid :: int
  bytesPerSec :: int
  scale :: int
  rate :: int
  format :: int
  subfmt :: int
  profile :: int
  profile_name :: string
  level :: int
  level_name :: string
  extraDataSize :: int
  extraData :: "u8 list"
  extraDataSize2 :: int
  extraData2 :: "u8 list option"
  fourcc :: int
  v_width :: int
  v_height :: int
  aspect_n :: int
  aspect_d :: int
  msPerFrame :: int
  framesPerSec :: int
  interlaced :: int
  v_sps :: h264_sps
  nal_unit_size :: int
  vol :: int
  sprite_usage :: int

definition zero_sps :: h264_sps where
  "zero_sps = \<lparr>sps_valid = 0, profile_idc = 0, level_idc = 0, width = 0, height = 0, frame_mbs_only_flag = 0, mb_aff = 0,
     sar_num = 0, sar_den = 0, timing_info_present = 0, num_units_in_tick = 0, time_scale = 0, fixed_frame_rate = 0,
     log2_max_frame_num = 0, num_ref_frames = 0, num_reorder_frames = 0, entropy_coding_mode_flag = 0\<rparr>"

text \<open>All bytes 0; n is the size of the extraData array.\<close>

definition zero_props :: "nat \<Rightarrow> video_props" where
  "zero_props n = \<lparr>v_valid = 0, bytesPerSec = 0, scale = 0, rate = 0, format = 0, subfmt = 0, profile = 0, profile_name = '''',
     level = 0, level_name = '''', extraDataSize = 0, extraData = replicate n 0, extraDataSize2 = 0, extraData2 = None,
     fourcc = 0, v_width = 0, v_height = 0, aspect_n = 0, aspect_d = 0, msPerFrame = 0, framesPerSec = 0, interlaced = 0,
     v_sps = zero_sps, nal_unit_size = 0, vol = 0, sprite_usage = 0\<rparr>"

definition mmioFOURCC :: "char \<Rightarrow> char \<Rightarrow> char \<Rightarrow> char \<Rightarrow> int" where
  "mmioFOURCC a b c d = of_char a + of_char b * 256 + of_char c * 65536 + of_char d * 16777216"

definition VIDEO_FORMAT_MPG4 :: int where "VIDEO_FORMAT_MPG4 = 1"
definition VIDEO_FORMAT_MPEG :: int where "VIDEO_FORMAT_MPEG = 8"
definition VIDEO_FORMAT_H264 :: int where "VIDEO_FORMAT_H264 = 9"
definition VIDEO_FORMAT_HEVC :: int where "VIDEO_FORMAT_HEVC = 29"

definition VIDEO_FOURCC_H264 :: int where
  "VIDEO_FOURCC_H264 = mmioFOURCC (CHR ''H'') (CHR ''2'') (CHR ''6'') (CHR ''4'')"

definition VIDEO_FOURCC_HEVC :: int where
  "VIDEO_FOURCC_HEVC = mmioFOURCC (CHR ''H'') (CHR ''E'') (CHR ''V'') (CHR ''C'')"

definition VIDEO_FOURCC_MPG1 :: int where
  "VIDEO_FOURCC_MPG1 = mmioFOURCC (CHR ''M'') (CHR ''P'') (CHR ''G'') (CHR ''1'')"

definition VIDEO_FOURCC_MPG2 :: int where
  "VIDEO_FOURCC_MPG2 = mmioFOURCC (CHR ''M'') (CHR ''P'') (CHR ''G'') (CHR ''2'')"

definition VIDEO_SUBFMT_MPEG2 :: int where "VIDEO_SUBFMT_MPEG2 = 2"

text \<open>Decimal digits of a natural number, for the level names.\<close>

fun show_nat :: "nat \<Rightarrow> string" where
  "show_nat n = (if n < 10 then [char_of (48 + n)] else show_nat (n div 10) @ [char_of (48 + n mod 10)])"

declare show_nat.simps [simp del]

text \<open>A level in tenths printed with one decimal.\<close>

definition level_tenths :: "int \<Rightarrow> string" where
  "level_tenths l = (if l < 0 then ''-'' else '''') @ show_nat (nat \<bar>l\<bar> div 10) @ ''.'' @ show_nat (nat \<bar>l\<bar> mod 10)"

text \<open>The values of the enumeration constants: FRAME_TYPE is stored in fields of type int.\<close>

fun frame_code :: "frame_type \<Rightarrow> int" where
  "frame_code I_VOP = 0"
| "frame_code P_VOP = 1"
| "frame_code B_VOP = 2"
| "frame_code IDR_VOP = 3"
| "frame_code BR_VOP = 4"
| "frame_code NOCODE_VOP = 5"

text \<open>The chunk description, with the fields the manglers use.\<close>

record stream_cdata =
  c_size :: int
  frm_type :: int
  c_time :: int
  c_valid :: int
  c_user_ID :: int

end
