(* ===== verification/H264_Nal.thy ===== *)
theory H264_Nal
  imports Video_Props Cbe
begin

text \<open>
  NAL units of Source/h264.c: finding start codes in a byte stream, the avcC configuration
  record, the conversion of length-prefixed units to start codes, and the H.264 mangler. Memory
  is a list with an offset for each pointer; the search functions and the conversions read
  exactly the cells the code reads, so None is a read (or write) outside.
\<close>

definition sync_word :: "u8 list" where
  "sync_word = [0, 0, 0, 1]"

lemma length_sync_word [simp]: "length sync_word = 4"
  by (simp add: sync_word_def)

definition NAL_SLICE :: int where "NAL_SLICE = 1"
definition NAL_IDR_SLICE :: int where "NAL_IDR_SLICE = 5"
definition NAL_SPS :: int where "NAL_SPS = 7"
definition NAL_AUD :: int where "NAL_AUD = 9"

definition H264_get_profile_name :: "int \<Rightarrow> nat \<Rightarrow> string" where
  "H264_get_profile_name pidc len =
     take len (if pidc = 66 then ''Baseline'' else if pidc = 77 then ''Main''
       else if pidc = 88 then ''Extended'' else if pidc = 100 then ''High''
       else if pidc = 110 then ''High10'' else if pidc = 122 then ''High 4:2:2''
       else if pidc = 144 then ''High 4:4:4'' else ''Unknown'')"

definition H264_get_level_name :: "int \<Rightarrow> nat \<Rightarrow> string" where
  "H264_get_level_name lidc len = take (len - 1) (level_tenths lidc)"

section \<open>Searching\<close>

text \<open>
  wm is whether the pointer argument called more is not NULL: the byte behind the NAL header is read
  then. The result is the offset with the values stored through the pointers.
\<close>

function find_NAL2_loop :: "u8 list \<Rightarrow> int \<Rightarrow> int \<Rightarrow> bool \<Rightarrow> int \<Rightarrow> (int \<times> int \<times> int \<times> int) option" where
  "find_NAL2_loop m p len wm i =
     (if i < len - 4 then do {
        b \<leftarrow> mem_match m (p + i) sync_word;
        c \<leftarrow> (if b then rd m (p + i + 4) else Some 0x80);
        if b \<and> c AND 0x80 = 0 then do {
          x \<leftarrow> (if wm then rd m (p + i + 5) else Some 0);
          Some (i, uint (c AND 0x1F), uint (drop_bit 5 c AND 3), uint x) }
        else find_NAL2_loop m p len wm (i + 1) }
      else Some (-1, 0, 0, 0))"
  by pat_completeness auto
termination by (relation "measure (\<lambda>(m, p, len, wm, i). nat (len - 4 - i))") auto

declare find_NAL2_loop.simps [simp del]

definition H264_find_NAL2 :: "u8 list \<Rightarrow> int \<Rightarrow> int \<Rightarrow> bool \<Rightarrow> (int \<times> int \<times> int \<times> int) option" where
  "H264_find_NAL2 m p len wm = find_NAL2_loop m p len wm 0"

definition H264_find_NAL :: "u8 list \<Rightarrow> int \<Rightarrow> int \<Rightarrow> (int \<times> int) option" where
  "H264_find_NAL m p len = do { (i, nal, nri, x) \<leftarrow> H264_find_NAL2 m p len False; Some (i, nal) }"

function find_AUD_loop :: "u8 list \<Rightarrow> int \<Rightarrow> int \<Rightarrow> int \<Rightarrow> int option" where
  "find_AUD_loop m p len i =
     (if i < len then do {
        b \<leftarrow> mem_match m (p + i) sync_word;
        if b then do {
          c \<leftarrow> rd m (p + i + 4);
          if uint (c AND 0x1F) = NAL_AUD then Some i else find_AUD_loop m p len (i + 4) }
        else find_AUD_loop m p len (i + 1) }
      else Some (-1))"
  by pat_completeness auto
termination by (relation "measure (\<lambda>(m, p, len, i). nat (len - i))") auto

declare find_AUD_loop.simps [simp del]

definition H264_find_AUD :: "u8 list \<Rightarrow> int \<Rightarrow> int \<Rightarrow> int option" where
  "H264_find_AUD m p len = find_AUD_loop m p len 0"

text \<open>sps is whether that pointer is not NULL; the second result is the flag stored through it.\<close>

function find_SLICE_loop :: "u8 list \<Rightarrow> int \<Rightarrow> int \<Rightarrow> bool \<Rightarrow> int \<Rightarrow> (int \<times> bool) option" where
  "find_SLICE_loop m p len sps i =
     (if i < len then do {
        b \<leftarrow> mem_match m (p + i) sync_word;
        if b then do {
          c \<leftarrow> rd m (p + i + 4);
          let nal = uint (c AND 0x1F);
          if nal = NAL_SLICE \<or> nal = NAL_IDR_SLICE then Some (i, False)
          else if nal = NAL_SPS \<and> sps then Some (i, True)
          else find_SLICE_loop m p len sps (i + 4) }
        else find_SLICE_loop m p len sps (i + 1) }
      else Some (-1, False))"
  by pat_completeness auto
termination by (relation "measure (\<lambda>(m, p, len, sps, i). nat (len - i))") auto

declare find_SLICE_loop.simps [simp del]

definition H264_find_SLICE :: "u8 list \<Rightarrow> int \<Rightarrow> int \<Rightarrow> bool \<Rightarrow> (int \<times> bool) option" where
  "H264_find_SLICE m p len sps = find_SLICE_loop m p len sps 0"

text \<open>The fields H264_get_video_props sets once the parameter set is parsed.\<close>

definition props_of_sps :: "video_props \<Rightarrow> h264_sps \<Rightarrow> video_props" where
  "props_of_sps video sps =
     (let video = video\<lparr>profile := profile_idc sps, profile_name := H264_get_profile_name (profile_idc sps) 256,
            level := level_idc sps, level_name := H264_get_level_name (level_idc sps) 256,
            v_width := width sps, v_height := height sps, aspect_n := sar_num sps, aspect_d := sar_den sps,
            scale := uw32 (num_units_in_tick sps * 2), rate := uw32 (time_scale sps)\<rparr>;
          video = (if scale video = 0 \<or> rate video = 0 then video\<lparr>scale := 1, rate := 25\<rparr> else video)
      in video\<lparr>bytesPerSec := 0, fourcc := VIDEO_FOURCC_H264, format := VIDEO_FORMAT_H264, v_valid := 1\<rparr>)"

function get_video_props_loop ::
  "video_props \<Rightarrow> u8 list \<Rightarrow> int \<Rightarrow> int \<Rightarrow> h264_sps \<Rightarrow> (int \<times> video_props \<times> h264_sps) option" where
  "get_video_props_loop video m p stop sps =
     (if p < stop then do {
        b \<leftarrow> mem_match m p sync_word;
        if b then do {
          c \<leftarrow> rd m (p + 4);
          if uint (c AND 0x1F) = NAL_SPS then do {
            (r, sps) \<leftarrow> H264_parse_SPS sps (drop (nat (p + 5)) m) (i32 (stop - (p + 5)));
            Some (0, props_of_sps video sps, sps) }
          else get_video_props_loop video m (p + 4) stop sps }
        else get_video_props_loop video m (p + 1) stop sps }
      else Some (1, video, sps))"
  by pat_completeness auto
termination by (relation "measure (\<lambda>(v, m, p, stop, sps). nat (stop - p))") auto

declare get_video_props_loop.simps [simp del]

definition H264_get_video_props ::
  "video_props \<Rightarrow> u8 list \<Rightarrow> int \<Rightarrow> int \<Rightarrow> h264_sps \<Rightarrow> (int \<times> video_props \<times> h264_sps) option" where
  "H264_get_video_props video m p len sps = get_video_props_loop video m p (p + len) sps"

section \<open>Length-prefixed units\<close>

text \<open>The big-endian length of a unit, nal_unit_size bytes; the first byte is always read.\<close>

fun nal_size_loop :: "u8 list \<Rightarrow> nat \<Rightarrow> int \<Rightarrow> int \<Rightarrow> (int \<times> int) option" where
  "nal_size_loop m 0 d v = Some (v, d)"
| "nal_size_loop m (Suc k) d v = do {
     c \<leftarrow> rd m d;
     nal_size_loop m k (d + 1) (i32 (v * 256) OR uint c) }"

partial_function (option) H264_parse_NAL ::
  "u8 list \<Rightarrow> int \<Rightarrow> int \<Rightarrow> cbe \<Rightarrow> int \<Rightarrow> int \<Rightarrow> (int \<times> cbe \<times> int) option" where
  "H264_parse_NAL m d sz c out_size nus =
     (if sz > 0 then do {
        b \<leftarrow> rd m d;
        (v, d) \<leftarrow> nal_size_loop m (nat (nus - 1)) (d + 1) (uint b);
        let sz = sz - nus;
        let n = max 0 (min v sz);
        if n > 0 then do {
          (r, c) \<leftarrow> cbe_write c sync_word 4;
          xs \<leftarrow> rd_blk m d n;
          (r, c) \<leftarrow> cbe_write c xs n;
          H264_parse_NAL m (d + n) (sz - n) c (out_size + 4 + n) nus }
        else H264_parse_NAL m d (sz - n) c out_size nus }
      else Some (0, c, out_size))"

section \<open>The avcC record\<close>

record avcc =
  a_video :: video_props
  a_mem :: "u8 list"
  a_cbe :: "cbe option"
  a_out :: int
  a_nal :: int

definition patch_level :: "u8 list \<Rightarrow> int \<Rightarrow> u8 list option" where
  "patch_level m i = do { l \<leftarrow> rd m i; if l = 1 then wr m i 10 else Some m }"

definition put_unit :: "avcc \<Rightarrow> int \<Rightarrow> int \<Rightarrow> avcc option" where
  "put_unit a p sz = (case a_cbe a of None \<Rightarrow> Some a
     | Some c \<Rightarrow> do {
         (r, c) \<leftarrow> cbe_write c sync_word 4;
         xs \<leftarrow> rd_blk (a_mem a) p sz;
         (r, c) \<leftarrow> cbe_write c xs sz;
         Some (a\<lparr>a_cbe := Some c, a_out := a_out a + 4 + sz\<rparr>) })"

text \<open>
  The loop over the sequence (is_sps) or picture parameter sets; i counts up, k the sets left.
  Inl is the error return with what was changed before it.
\<close>

fun avcc_sets :: "bool \<Rightarrow> nat \<Rightarrow> nat \<Rightarrow> avcc \<Rightarrow> int \<Rightarrow> int \<Rightarrow> (avcc + avcc \<times> int \<times> int) option" where
  "avcc_sets is_sps i 0 a p rest = Some (Inr (a, p, rest))"
| "avcc_sets is_sps i (Suc k) a p rest = do {
     hi \<leftarrow> rd (a_mem a) p;
     lo \<leftarrow> rd (a_mem a) (p + 1);
     let sz = uint hi * 256 + uint lo;
     let p = p + 2;
     let rest = rest - 2;
     if sz = 0 \<or> sz > rest then Some (Inl a)
     else do {
       m \<leftarrow> (if is_sps then patch_level (a_mem a) (p + 3) else Some (a_mem a));
       let a = a\<lparr>a_mem := m\<rparr>;
       a \<leftarrow> (if i = 0 then
               (if is_sps then do {
                  (r, s) \<leftarrow> H264_parse_SPS (v_sps (a_video a)) (drop (nat (p + 1)) m) (sz - 1);
                  Some (a\<lparr>a_video := (a_video a)\<lparr>v_sps := s\<rparr>\<rparr>) }
                else do {
                  (r, s) \<leftarrow> H264_parse_PPS (Some (v_sps (a_video a))) (drop (nat (p + 1)) m) (sz - 1);
                  s \<leftarrow> s;
                  Some (a\<lparr>a_video := (a_video a)\<lparr>v_sps := s\<rparr>\<rparr>) })
             else Some a);
       a \<leftarrow> put_unit a p sz;
       avcc_sets is_sps (Suc i) k a (p + sz) (rest - sz) } }"

definition parse_avcc_raw :: "avcc \<Rightarrow> int \<Rightarrow> (int \<times> avcc) option" where
  "parse_avcc_raw a rest = do {
     version \<leftarrow> rd (a_mem a) 0;
     prof \<leftarrow> rd (a_mem a) 1;
     compat \<leftarrow> rd (a_mem a) 2;
     lev \<leftarrow> rd (a_mem a) 3;
     let a = a\<lparr>a_video := (a_video a)\<lparr>profile := uint prof, level := uint lev,
           profile_name := H264_get_profile_name (uint prof) 256, level_name := H264_get_level_name (uint lev) 256\<rparr>\<rparr>;
     m \<leftarrow> (if lev = 1 then wr (a_mem a) 3 10 else Some (a_mem a));
     let a = a\<lparr>a_mem := m\<rparr>;
     if version \<noteq> 1 then Some (1, a)
     else do {
       b \<leftarrow> rd (a_mem a) 4;
       let a = a\<lparr>a_nal := 1 + uint (b AND 3)\<rparr>;
       n \<leftarrow> rd (a_mem a) 5;
       r \<leftarrow> avcc_sets True 0 (unat (n AND 0x1F)) a 6 (rest - 6);
       (case r of Inl a \<Rightarrow> Some (1, a)
        | Inr (a, p, rest) \<Rightarrow> do {
            n \<leftarrow> rd (a_mem a) p;
            r \<leftarrow> avcc_sets False 0 (unat (n AND 0x1F)) a (p + 1) (rest - 1);
            (case r of Inl a \<Rightarrow> Some (1, a)
             | Inr (a, p, rest) \<Rightarrow>
                 let s = v_sps (a_video a) in
                 Some (0, if sar_num s \<noteq> 0 \<and> sar_den s \<noteq> 0
                   then a\<lparr>a_video := (a_video a)\<lparr>aspect_n := sar_num s, aspect_d := sar_den s\<rparr>\<rparr> else a)) }) } }"

definition H264_parse_avcc ::
  "video_props \<Rightarrow> cbe option \<Rightarrow> int \<Rightarrow> int \<Rightarrow> (int \<times> video_props \<times> cbe option \<times> int \<times> int) option" where
  "H264_parse_avcc video c out_size nus =
     (if extraDataSize video \<noteq> 0 then do {
        (r, a) \<leftarrow> parse_avcc_raw \<lparr>a_video = video, a_mem = extraData video, a_cbe = c, a_out = out_size, a_nal = nus\<rparr> (extraDataSize video);
        Some (if r \<noteq> 0 then 1 else 0, (a_video a)\<lparr>extraData := a_mem a\<rparr>, a_cbe a, a_out a, a_nal a) }
      else (case extraData2 video of
        Some x \<Rightarrow> if extraDataSize2 video \<noteq> 0 then do {
          (r, a) \<leftarrow> parse_avcc_raw \<lparr>a_video = video, a_mem = x, a_cbe = c, a_out = out_size, a_nal = nus\<rparr> (extraDataSize2 video);
          Some (if r \<noteq> 0 then 1 else 0, (a_video a)\<lparr>extraData2 := Some (a_mem a)\<rparr>, a_cbe a, a_out a, a_nal a) }
          else Some (1, video, c, out_size, nus)
      | None \<Rightarrow> Some (1, video, c, out_size, nus)))"

section \<open>Converting the avcC record to start codes in place\<close>

text \<open>
  One parameter set list of the record: k units left at p, the output so far in out (the code's
  out_size is its length). Inl is the jump to ErrorExit.
\<close>

fun convert_units :: "nat \<Rightarrow> u8 list \<Rightarrow> int \<Rightarrow> int \<Rightarrow> u8 list \<Rightarrow> (unit + int \<times> u8 list) option" where
  "convert_units 0 m p sz out = Some (Inr (p, out))"
| "convert_units (Suc k) m p sz out =
     (if sz - p < 2 then Some (Inl ())
      else do {
        hi \<leftarrow> rd m p;
        lo \<leftarrow> rd m (p + 1);
        let n = uint hi * 256 + uint lo;
        let p = p + 2;
        if n < 0 \<or> sz - p < n then Some (Inl ())
        else if int (length out) + 4 + n > sz then Some (Inl ())
        else do {
          xs \<leftarrow> rd_blk m p n;
          convert_units k m (p + n) sz (out @ sync_word @ xs) } })"

definition convert_list :: "u8 list \<Rightarrow> int \<Rightarrow> int \<Rightarrow> u8 list \<Rightarrow> (unit + int \<times> u8 list) option" where
  "convert_list m p sz out =
     (if sz - p < 1 then Some (Inl ())
      else do { c \<leftarrow> rd m p; convert_units (unat (c AND 0x1F)) m (p + 1) sz out })"

text \<open>
  The result: the return value, the data, and the two values stored through the pointers (None
  where nothing is stored). alloc_ok is the success of the allocator.
\<close>

definition convert_extradata :: "bool \<Rightarrow> u8 list \<Rightarrow> int \<Rightarrow> (int \<times> u8 list \<times> int option \<times> int option) option" where
  "convert_extradata alloc_ok m sz =
     (if sz < 5 then Some (-1, m, None, None)
      else do {
        v \<leftarrow> rd m 0;
        if v \<noteq> 1 then Some (1, m, None, None)
        else if \<not> alloc_ok then Some (-1, m, None, None)
        else do {
          b \<leftarrow> rd m 4;
          let nus = uint (b AND 3) + 1;
          r \<leftarrow> convert_list m 5 sz [];
          (case r of Inl _ \<Rightarrow> Some (1, m, None, Some nus)
           | Inr (p, out) \<Rightarrow> do {
               r \<leftarrow> convert_list m p sz out;
               (case r of Inl _ \<Rightarrow> Some (1, m, None, Some nus)
                | Inr (p, out) \<Rightarrow> do {
                    m \<leftarrow> wr_blk m 0 out;
                    Some (0, m, Some (int (length out)), Some nus) }) }) } })"

definition H264_convert_extradata :: "bool \<Rightarrow> video_props \<Rightarrow> (int \<times> video_props) option" where
  "H264_convert_extradata alloc_ok video =
     (if extraDataSize video \<noteq> 0 then do {
        (r, m, s, n) \<leftarrow> convert_extradata alloc_ok (extraData video) (extraDataSize video);
        Some (r, video\<lparr>extraData := m, extraDataSize := (case s of None \<Rightarrow> extraDataSize video | Some x \<Rightarrow> x),
          nal_unit_size := (case n of None \<Rightarrow> nal_unit_size video | Some x \<Rightarrow> x)\<rparr>) }
      else if extraDataSize2 video \<noteq> 0 then do {
        x \<leftarrow> extraData2 video;
        (r, m, s, n) \<leftarrow> convert_extradata alloc_ok x (extraDataSize2 video);
        Some (r, video\<lparr>extraData2 := Some m, extraDataSize := (case s of None \<Rightarrow> extraDataSize video | Some x \<Rightarrow> x),
          nal_unit_size := (case n of None \<Rightarrow> nal_unit_size video | Some x \<Rightarrow> x)\<rparr>) }
      else Some (1, video))"

section \<open>The mangler\<close>

partial_function (option) h264_pre_loop :: "h264_sps \<Rightarrow> u8 list \<Rightarrow> int \<Rightarrow> int \<Rightarrow> stream_cdata \<Rightarrow> stream_cdata option" where
  "h264_pre_loop sps m p rest cd =
     (if rest > 0 then do {
        (ofs, nal, nri, wm) \<leftarrow> H264_find_NAL2 m p rest True;
        if ofs \<noteq> -1 then
          (if nal = NAL_SLICE \<or> nal = NAL_IDR_SLICE then do {
             h \<leftarrow> H264_parse_slice_header sps (drop (nat (p + ofs + 5)) m);
             let cd = (case h of Inl _ \<Rightarrow> cd | Inr (t, f, n) \<Rightarrow> cd\<lparr>frm_type := frame_code t\<rparr>);
             Some (if frm_type cd = frame_code B_VOP \<and> nri \<noteq> 0 then cd\<lparr>frm_type := frame_code BR_VOP\<rparr> else cd) }
           else h264_pre_loop sps m (p + ofs + 1) (rest - (ofs + 1)) cd)
        else Some cd }
      else Some cd)"

definition h264_pre :: "h264_sps \<Rightarrow> cbe \<Rightarrow> stream_cdata \<Rightarrow> (int \<times> stream_cdata) option" where
  "h264_pre sps c cd = do { cd \<leftarrow> h264_pre_loop sps (cdata c) (cbe_get_p c) (c_size cd) cd; Some (0, cd) }"

section \<open>Conversion: safety and result\<close>

lemma unit_nonneg: "\<not> uint a * 256 + uint b < 0" for a b :: u8
proof -
  have "0 \<le> uint a * 256 + uint b" by simp
  then show ?thesis by (simp only: not_less)
qed

lemma convert_units_safe:
  assumes "0 \<le> p" "p \<le> int (length m)" "length out \<le> length m"
  shows "convert_units k m p (int (length m)) out = Some (Inl ())
    \<or> (\<exists>p' out'. convert_units k m p (int (length m)) out = Some (Inr (p', out')) \<and> p \<le> p'
         \<and> p' \<le> int (length m) \<and> length out' \<le> length m)"
  using assms
proof (induction k arbitrary: p out)
  case (Suc k)
  show ?case
  proof (cases "int (length m) - p < 2")
    case False
    define n where "n = uint (m ! nat p) * 256 + uint (m ! nat (p + 1))"
    have n: "0 \<le> n" by (simp add: n_def)
    define xs where "xs = take (nat n) (drop (nat (p + 2)) m)"
    have unfolded: "convert_units (Suc k) m p (int (length m)) out
      = (if int (length m) - (p + 2) < n \<or> int (length out) + 4 + n > int (length m) then Some (Inl ())
         else convert_units k m (p + 2 + n) (int (length m)) (out @ sync_word @ xs))"
      using False Suc.prems unit_nonneg [of "m ! nat p" "m ! nat (p + 1)"] by (auto simp: rd_def rd_blk_def n_def xs_def Let_def)
    show ?thesis
    proof (cases "int (length m) - (p + 2) < n \<or> int (length out) + 4 + n > int (length m)")
      case True
      then show ?thesis by (simp only: unfolded) simp
    next
      case False
      then have "length xs = nat n" using Suc.prems n unfolding xs_def length_take length_drop by arith
      then have "length (out @ sync_word @ xs) \<le> length m" "0 \<le> p + 2 + n" "p + 2 + n \<le> int (length m)"
        using False Suc.prems n by (auto simp: sync_word_def)
      note IH = Suc.IH [OF this(2,3,1)]
      have eq: "convert_units (Suc k) m p (int (length m)) out
          = convert_units k m (p + 2 + n) (int (length m)) (out @ sync_word @ xs)"
        by (subst unfolded) (use False in auto)
      show ?thesis unfolding eq using IH n by fastforce
    qed
  qed simp
qed auto

lemma convert_list_safe:
  assumes "0 \<le> p" "p \<le> int (length m)" "length out \<le> length m"
  shows "convert_list m p (int (length m)) out = Some (Inl ())
    \<or> (\<exists>p' out'. convert_list m p (int (length m)) out = Some (Inr (p', out')) \<and> p \<le> p'
         \<and> p' \<le> int (length m) \<and> length out' \<le> length m)"
proof (cases "int (length m) - p < 1")
  case False
  then have "convert_list m p (int (length m)) out
      = convert_units (unat (m ! nat p AND 0x1F)) m (p + 1) (int (length m)) out"
    using assms by (simp add: convert_list_def rd_def)
  then show ?thesis using convert_units_safe [of "p + 1" m out "unat (m ! nat p AND 0x1F)"] assms False by fastforce
qed (simp add: convert_list_def)

text \<open>
  C19. _convert_extradata is memory safe on every input: whatever the record contains (truncated
  lists, lengths beyond its end, too many sets), reading stays inside the data_size bytes and
  the copy back fits. It returns 0 exactly when it rewrites the data, keeps the data unchanged
  otherwise, and the size it reports is at most data_size.
\<close>

theorem convert_extradata_safe:
  "\<exists>r m' s n. convert_extradata ok m (int (length m)) = Some (r, m', s, n) \<and> length m' = length m
     \<and> (r = 0 \<longleftrightarrow> s \<noteq> None) \<and> (r \<noteq> 0 \<longrightarrow> m' = m) \<and> (\<forall>k. s = Some k \<longrightarrow> 0 \<le> k \<and> k \<le> int (length m))"
proof (cases "int (length m) < 5 \<or> m ! 0 \<noteq> 1 \<or> \<not> ok")
  case True
  then show ?thesis by (auto simp: convert_extradata_def)
next
  case False
  then have m5: "5 \<le> length m" "m ! 0 = 1" ok by auto
  have ne: "m \<noteq> []" "4 < length m" using m5(1) by auto
  let ?nus = "uint (m ! 4 AND 3) + 1"
  show ?thesis
  proof (cases "convert_list m 5 (int (length m)) [] = Some (Inl ())")
    case True
    then show ?thesis using m5 ne by (auto simp: convert_extradata_def)
  next
    case False
    then obtain p out where l1: "convert_list m 5 (int (length m)) [] = Some (Inr (p, out))" "0 \<le> p" "p \<le> int (length m)" "length out \<le> length m"
      using convert_list_safe [of 5 m "[]"] m5 by auto
    show ?thesis
    proof (cases "convert_list m p (int (length m)) out = Some (Inl ())")
      case True
      then show ?thesis using m5 ne l1 by (auto simp: convert_extradata_def)
    next
      case False
      then obtain p' out' where "convert_list m p (int (length m)) out = Some (Inr (p', out'))" "length out' \<le> length m"
        using convert_list_safe [OF l1(2-4)] by auto
      then show ?thesis using m5 ne l1 by (auto simp: convert_extradata_def wr_blk_def)
    qed
  qed
qed

theorem convert_extradata_safe_witness:
  "\<exists>r m' s n. convert_extradata True [1, 2, 3] 3 = Some (r, m', s, n) \<and> length m' = 3"
  using convert_extradata_safe [of True "[1, 2, 3]"] by auto

section \<open>Well-formed records\<close>

text \<open>An avcC record with its sequence and picture parameter sets.\<close>

definition unit_bytes :: "u8 list \<Rightarrow> u8 list" where
  "unit_bytes u = [word_of_nat (length u div 256), word_of_nat (length u mod 256)] @ u"

definition avcc_bytes :: "u8 \<Rightarrow> u8 \<Rightarrow> u8 \<Rightarrow> u8 \<Rightarrow> u8 list list \<Rightarrow> u8 list list \<Rightarrow> u8 list" where
  "avcc_bytes b c d n spss ppss = [1, b, c, d, n] @ [0xE0 OR word_of_nat (length spss)] @ concat (map unit_bytes spss)
     @ [word_of_nat (length ppss)] @ concat (map unit_bytes ppss)"

definition annexb :: "u8 list list \<Rightarrow> u8 list" where
  "annexb us = concat (map (\<lambda>u. sync_word @ u) us)"

lemma length_annexb: "length (annexb us) = 4 * length us + sum_list (map length us)"
  by (induction us) (auto simp: annexb_def sync_word_def)

lemma length_units: "length (concat (map unit_bytes us)) = 2 * length us + sum_list (map length us)"
  by (induction us) (auto simp: unit_bytes_def)

lemma uint8_small: "n < 256 \<Longrightarrow> uint (word_of_nat n :: u8) = int n"
  by (simp only: uint_nat unat_of_nat) simp

lemma unit_size: "l < 65536 \<Longrightarrow> uint (word_of_nat (l div 256) :: u8) * 256 + uint (word_of_nat (l mod 256) :: u8) = int l"
proof -
  assume "l < 65536"
  then have "l div 256 < 256" "l mod 256 < 256" by auto
  then have "uint (word_of_nat (l div 256) :: u8) = int (l div 256)" "uint (word_of_nat (l mod 256) :: u8) = int (l mod 256)"
    by (simp_all only: uint8_small)
  then have "uint (word_of_nat (l div 256) :: u8) * 256 + uint (word_of_nat (l mod 256) :: u8) = int (l div 256) * 256 + int (l mod 256)"
    by simp
  also have "\<dots> = int (l div 256 * 256 + l mod 256)"
    by (simp only: of_nat_add of_nat_mult of_nat_numeral)
  finally show ?thesis by (simp only: div_mult_mod_eq)
qed

lemma convert_units_step:
  assumes "rd m p = Some hi" "rd m (p + 1) = Some lo" "uint hi * 256 + uint lo = n" "rd_blk m (p + 2) n = Some xs"
    "2 \<le> sz - p" "n \<le> sz - (p + 2)"
  shows "convert_units (Suc k) m p sz out = (if int (length out) + 4 + n > sz then Some (Inl ())
     else convert_units k m (p + 2 + n) sz (out @ sync_word @ xs))"
proof -
  have "\<not> n < 0" unfolding assms(3) [symmetric] by (rule unit_nonneg)
  then show ?thesis using assms by (simp add: Let_def)
qed

lemma convert_units_wf:
  assumes "\<forall>u\<in>set us. length u < 65536" "sz = int (length pre + length (concat (map unit_bytes us)) + length post)"
  shows "convert_units (length us) (pre @ concat (map unit_bytes us) @ post) (int (length pre)) sz out =
    (if us = [] \<or> int (length out + length (annexb us)) \<le> sz
     then Some (Inr (int (length pre + length (concat (map unit_bytes us))), out @ annexb us))
     else Some (Inl ()))"
  using assms
proof (induction us arbitrary: pre out)
  case Nil
  then show ?case by (simp add: annexb_def)
next
  case (Cons u us)
  let ?m = "pre @ concat (map unit_bytes (u # us)) @ post" and ?l = "length u"
  have l: "?l < 65536" using Cons.prems(1) by simp
  define m where "m = ?m"
  have m: "m = pre @ unit_bytes u @ (concat (map unit_bytes us) @ post)"
    "m = (pre @ unit_bytes u) @ concat (map unit_bytes us) @ post" by (simp_all add: m_def)
  have rds: "rd m (int (length pre)) = Some (word_of_nat (?l div 256))"
    "rd m (int (length pre) + 1) = Some (word_of_nat (?l mod 256))"
    "rd_blk m (int (length pre) + 2) (int ?l) = Some u"
    unfolding m(1) unit_bytes_def by (simp_all add: rd_append_right rd_blk_def nat_add_distrib)
  have sz: "sz = int (length pre + length (unit_bytes u) + length (concat (map unit_bytes us)) + length post)"
    using Cons.prems(2) by simp
  then have room: "2 \<le> sz - int (length pre)" "int ?l \<le> sz - (int (length pre) + 2)"
    by (auto simp: unit_bytes_def)
  note step = convert_units_step [OF rds(1,2) unit_size [OF l] rds(3) room, of "length us" out]
  have p': "int (length pre) + 2 + int ?l = int (length (pre @ unit_bytes u))" by (simp add: unit_bytes_def)
  have IH: "convert_units (length us) m (int (length (pre @ unit_bytes u))) sz (out @ sync_word @ u) =
     (if us = [] \<or> int (length (out @ sync_word @ u) + length (annexb us)) \<le> sz
      then Some (Inr (int (length (pre @ unit_bytes u) + length (concat (map unit_bytes us))), (out @ sync_word @ u) @ annexb us))
      else Some (Inl ()))"
    unfolding m(2) using Cons.prems sz by (intro Cons.IH) auto
  have fit: "(\<not> int (length out) + 4 + int ?l > sz \<and> (us = [] \<or> int (length (out @ sync_word @ u) + length (annexb us)) \<le> sz))
      = (int (length out + length (annexb (u # us))) \<le> sz)"
    by (auto simp: length_annexb sync_word_def)
  have app: "(out @ sync_word @ u) @ annexb us = out @ annexb (u # us)" by (simp add: annexb_def)
  have pos: "length (pre @ unit_bytes u) + length (concat (map unit_bytes us)) = length pre + length (concat (map unit_bytes (u # us)))"
    by simp
  show ?case
    unfolding m_def [symmetric] length_Cons step p' IH app pos using fit by auto
qed

lemma set_count:
  assumes "n < 32"
  shows "unat ((0xE0 OR word_of_nat n) AND 0x1F :: u8) = n" "unat (word_of_nat n AND 0x1F :: u8) = n"
proof -
  have *: "(word_of_nat n :: u8) AND 0x1F = word_of_nat n"
  proof -
    have "(word_of_nat n :: u8) AND 0x1F = take_bit 5 (word_of_nat n)"
      by (simp add: take_bit_eq_mask mask_eq_exp_minus_1)
    also have "\<dots> = word_of_nat (take_bit 5 n)" by (simp add: of_nat_take_bit)
    also have "take_bit 5 n = n" using assms by (simp add: take_bit_nat_eq_self)
    finally show ?thesis .
  qed
  show "unat (word_of_nat n AND 0x1F :: u8) = n"
    unfolding * using assms by (simp only: unat_of_nat) simp
  have "(0xE0 OR word_of_nat n) AND 0x1F = (word_of_nat n AND 0x1F :: u8)"
    by (simp add: bit.conj_disj_distrib2)
  then show "unat ((0xE0 OR word_of_nat n) AND 0x1F :: u8) = n"
    using \<open>unat (word_of_nat n AND 0x1F :: u8) = n\<close> by simp
qed

lemma convert_list_wf:
  assumes "\<forall>u\<in>set us. length u < 65536" "length us < 32" "unat (c AND 0x1F :: u8) = length us"
    "sz = int (length pre + 1 + length (concat (map unit_bytes us)) + length post)"
  shows "convert_list (pre @ [c] @ concat (map unit_bytes us) @ post) (int (length pre)) sz out =
    (if us = [] \<or> int (length out + length (annexb us)) \<le> sz
     then Some (Inr (int (length pre + 1 + length (concat (map unit_bytes us))), out @ annexb us))
     else Some (Inl ()))"
proof -
  have "rd (pre @ [c] @ concat (map unit_bytes us) @ post) (int (length pre)) = Some c"
    by (simp add: rd_append_right)
  moreover have "sz = int (length (pre @ [c]) + length (concat (map unit_bytes us)) + length post)"
    using assms(4) by simp
  note convert_units_wf [OF assms(1) this, of out]
  ultimately show ?thesis
    using assms(3,4) by (simp add: convert_list_def add.commute)
qed

text \<open>
  C20. _convert_extradata turns a well-formed avcC record into Annex B: with at most three
  parameter sets the data becomes the sets in order, each behind a start code, and the reported
  size is that of the start-code form. With four sets or more the start codes (four bytes each
  instead of a two-byte length) outgrow the original buffer and the conversion gives up with
  the record unchanged.
\<close>

theorem convert_extradata_correct:
  assumes "\<forall>u\<in>set (spss @ ppss). length u < 65536" "length spss < 32" "length ppss < 32"
    and "m = avcc_bytes b c d n spss ppss"
  shows "convert_extradata True m (int (length m)) =
    (if length spss + length ppss \<le> 3
     then Some (0, annexb (spss @ ppss) @ drop (length (annexb (spss @ ppss))) m,
                Some (int (length (annexb (spss @ ppss)))), Some (uint (n AND 3) + 1))
     else Some (1, m, None, Some (uint (n AND 3) + 1)))"
proof -
  let ?S = "concat (map unit_bytes spss)" and ?P = "concat (map unit_bytes ppss)" and ?sz = "int (length m)"
  let ?k = "0xE0 OR word_of_nat (length spss) :: u8"
  have m1: "m = [1, b, c, d, n] @ [?k] @ ?S @ ([word_of_nat (length ppss)] @ ?P)"
    and m2: "m = ([1, b, c, d, n] @ [?k] @ ?S) @ [word_of_nat (length ppss)] @ ?P @ []"
    using assms(4) by (simp_all add: avcc_bytes_def)
  have len: "length m = 7 + length ?S + length ?P" unfolding m1 by simp
  have szS: "?sz = int (length [1, b, c, d, n] + 1 + length ?S + length ([word_of_nat (length ppss)] @ ?P))"
    and szP: "?sz = int (length ([1, b, c, d, n] @ [?k] @ ?S) + 1 + length ?P + length ([] :: u8 list))"
    unfolding len by simp_all
  have uS: "\<forall>u\<in>set spss. length u < 65536" and uP: "\<forall>u\<in>set ppss. length u < 65536" using assms(1) by auto
  have l1: "convert_list m 5 ?sz [] = (if spss = [] \<or> length (annexb spss) \<le> length m
      then Some (Inr (int (6 + length ?S), annexb spss)) else Some (Inl ()))"
    using convert_list_wf [OF uS assms(2) set_count(1) [OF assms(2)] szS, of "[]"] unfolding m1 [symmetric] by simp
  have l2: "convert_list m (6 + int (length ?S)) ?sz out = (if ppss = [] \<or> length out + length (annexb ppss) \<le> length m
      then Some (Inr (int (7 + length ?S + length ?P), out @ annexb ppss)) else Some (Inl ()))" for out
    using convert_list_wf [OF uP assms(3) set_count(2) [OF assms(3)] szP, of out] unfolding m2 [symmetric] by simp
  have head: "rd m 0 = Some 1" "rd m 4 = Some n" by (simp_all add: m1)
  have fit: "(spss = [] \<or> length (annexb spss) \<le> length m) \<and> (ppss = [] \<or> length (annexb spss) + length (annexb ppss) \<le> length m)
      \<longleftrightarrow> length spss + length ppss \<le> 3"
    unfolding len by (auto simp: length_annexb length_units)
  have app: "annexb (spss @ ppss) = annexb spss @ annexb ppss" by (simp add: annexb_def)
  show ?thesis
  proof (cases "length spss + length ppss \<le> 3")
    case True
    then have "length (annexb spss) + length (annexb ppss) \<le> length m" "5 \<le> length m" by (simp_all add: len length_annexb length_units)
    then show ?thesis
      using True fit head by (simp add: convert_extradata_def Let_def l1 l2 app wr_blk_def put_at_def del: rd_0 rd_numeral)
  next
    case False
    moreover have "5 \<le> length m" by (simp add: len)
    ultimately show ?thesis using fit head by (auto simp: convert_extradata_def Let_def l1 l2 simp del: rd_0 rd_numeral)
  qed
qed

theorem convert_extradata_correct_witness:
  "convert_extradata True [1, 66, 0, 30, 0xFF, 0xE1, 0, 2, 0x67, 0x42, 1, 0, 1, 0x68] 14
     = Some (0, [0, 0, 0, 1, 0x67, 0x42, 0, 0, 0, 1, 0x68, 0, 1, 0x68], Some 11, Some 4)"
  using convert_extradata_correct [where spss = "[[0x67, 0x42]]" and ppss = "[[0x68]]" and b = 66 and c = 0 and d = 30 and n = "0xFF", OF _ _ _ refl]
  by (simp add: avcc_bytes_def unit_bytes_def annexb_def sync_word_def)

text \<open>
  H264_convert_extradata on a track whose configuration lies in extraData2: it rewrites
  extraData2, but stores the new size in extraDataSize, the size of the other buffer, and leaves
  extraDataSize2 at the old value.
\<close>

theorem convert_extradata2_wrong_size:
  assumes "extraDataSize video = 0" "extraData2 video = Some m" "extraDataSize2 video = int (length m)" "m \<noteq> []"
    and "convert_extradata True m (int (length m)) = Some (0, m', Some k, Some n)"
  shows "H264_convert_extradata True video
    = Some (0, video\<lparr>extraData2 := Some m', extraDataSize := k, nal_unit_size := n\<rparr>)"
  using assms by (simp add: H264_convert_extradata_def)

theorem convert_extradata2_wrong_size_witness:
  "\<exists>v. H264_convert_extradata True v = Some (0, v\<lparr>extraData2 := Some [0, 0, 0, 1, 0x67, 0x42, 0, 0, 0, 1, 0x68, 0, 1, 0x68],
       extraDataSize := 11, nal_unit_size := 4\<rparr>) \<and> extraDataSize2 v = 14"
proof -
  let ?m = "[1, 66, 0, 30, 0xFF, 0xE1, 0, 2, 0x67, 0x42, 1, 0, 1, 0x68] :: u8 list"
  define v where "v = (undefined :: video_props)\<lparr>extraDataSize := 0, extraData2 := Some ?m, extraDataSize2 := 14\<rparr>"
  have "convert_extradata True ?m 14 = Some (0, [0, 0, 0, 1, 0x67, 0x42, 0, 0, 0, 1, 0x68, 0, 1, 0x68], Some 11, Some 4)"
    by code_simp
  then show ?thesis
    using convert_extradata2_wrong_size [of v ?m _ 11 4] by (intro exI [of _ v]) (simp add: v_def)
qed

section \<open>Length prefixes\<close>

lemma cbe_append:
  assumes "cbe_ok c" "int (length (cbe_content c) + length xs) < csize c"
  shows "\<exists>q. cbe_write c xs (int (length xs)) = Some (int (length xs), q) \<and> cbe_ok q
       \<and> cbe_content q = cbe_content c @ xs \<and> csize q = csize c"
proof -
  have room: "length (cbe_content c) + length xs < nat (csize c)" using assms(2) by linarith
  obtain q where q: "cbe_write c xs (int (length xs)) = Some (int (length xs), q)" "cbe_ok q" "cbe_content q = cbe_content c @ xs"
    using cbe_write_ok [of c xs] assms room by (auto simp: cbe_ok_def)
  moreover have "csize q = csize c"
    using q(1) cbe_write_cells [of c xs] assms room by (auto simp: cbe_ok_def)
  ultimately show ?thesis by blast
qed

definition be_value :: "int \<Rightarrow> u8 list \<Rightarrow> int" where
  "be_value v bs = foldl (\<lambda>v b. v * 256 + uint b) v bs"

lemma be_value_ge: "0 \<le> v \<Longrightarrow> v \<le> be_value v bs"
proof (induction bs arbitrary: v)
  case (Cons b bs)
  have "0 \<le> uint b" by simp
  then have "v \<le> v * 256 + uint b" "0 \<le> v * 256 + uint b" using Cons.prems by linarith+
  then show ?case using Cons.IH [of "v * 256 + uint b"] by (simp add: be_value_def)
qed (simp add: be_value_def)

lemma shift_or_byte: "(v * 256) OR uint (b :: u8) = v * 256 + uint b"
proof -
  have "(v * 256) AND uint b = 0"
  proof (rule bit_eqI)
    fix n
    have "\<not> bit (uint b) n" if "8 \<le> n" using that by (simp add: bit_uint_iff)
    moreover have "\<not> bit (v * 256) n" if "n < 8"
    proof -
      have "v * 256 = push_bit 8 v" by (simp add: push_bit_eq_mult)
      then show ?thesis using that by (simp add: bit_push_bit_iff)
    qed
    ultimately show "bit ((v * 256) AND uint b) n = bit 0 n" by (cases "n < 8") (auto simp: bit_and_iff)
  qed
  then show ?thesis by (simp add: disjunctive_add_eq_or)
qed

lemma nal_size_loop_value:
  assumes "0 \<le> v" "be_value v bs < 2147483648"
  shows "nal_size_loop (pre @ bs @ post) (length bs) (int (length pre)) v
    = Some (be_value v bs, int (length pre + length bs))"
  using assms
proof (induction bs arbitrary: v pre)
  case (Cons b bs)
  have v: "0 \<le> v * 256 + uint b" using Cons.prems by simp
  have "be_value v (b # bs) = be_value (v * 256 + uint b) bs" by (simp add: be_value_def)
  moreover have "v * 256 + uint b < 2147483648" using be_value_ge [OF v, of bs] Cons.prems(2) calculation by simp
  then have "v * 256 < 2147483648" using Cons.prems(1) by (smt (verit) uint_nonnegative)
  then have "i32 (v * 256) OR uint b = v * 256 + uint b" using Cons.prems(1) by (simp add: i32_id shift_or_byte)
  ultimately show ?case
    using Cons.IH [of "v * 256 + uint b" "pre @ [b]"] Cons.prems v by (simp add: rd_append_right add.commute)
qed (simp add: be_value_def)

text \<open>A unit with its length prefix; a sequence of units as the container stores them.\<close>

definition framed :: "nat \<Rightarrow> u8 list \<times> u8 list \<Rightarrow> bool" where
  "framed k u \<longleftrightarrow> length (fst u) = k \<and> be_value 0 (fst u) = int (length (snd u)) \<and> snd u \<noteq> []"

definition frame_bytes :: "(u8 list \<times> u8 list) list \<Rightarrow> u8 list" where
  "frame_bytes us = concat (map (\<lambda>u. fst u @ snd u) us)"

lemma nal_prefix:
  assumes "framed k u" "0 < k" "length (snd u) < 2147483648" "m = pre @ (fst u @ snd u) @ post"
  shows "\<exists>b. rd m (int (length pre)) = Some b
    \<and> nal_size_loop m (k - 1) (int (length pre) + 1) (uint b) = Some (int (length (snd u)), int (length pre + k))
    \<and> rd_blk m (int (length pre + k)) (int (length (snd u))) = Some (snd u)"
proof -
  obtain b bs where bs: "fst u = b # bs" "length bs = k - 1"
    using assms(1,2) by (cases "fst u") (auto simp: framed_def)
  have v: "be_value (uint b) bs = int (length (snd u))"
    using assms(1) bs(1) by (simp add: framed_def be_value_def)
  have m: "m = (pre @ [b]) @ bs @ (snd u @ post)" by (simp add: assms(4) bs(1))
  have "nal_size_loop m (k - 1) (int (length pre) + 1) (uint b) = Some (int (length (snd u)), int (length pre + k))"
    using nal_size_loop_value [of "uint b" bs "pre @ [b]" "snd u @ post"] assms(2,3) v bs(2) unfolding m by (simp add: add.commute)
  moreover have "rd m (int (length pre)) = Some b" unfolding m by (simp add: rd_append_right)
  moreover have "rd_blk m (int (length pre + k)) (int (length (snd u))) = Some (snd u)"
  proof -
    have "length pre + k = length (pre @ [b] @ bs)" using bs(2) assms(2) by simp
    then have "drop (length pre + k) m = snd u @ post" unfolding m by (simp only: append.assoc drop_append) simp
    moreover have "length pre + k + length (snd u) \<le> length m" using bs(2) assms(2) by (simp add: m)
    ultimately show ?thesis unfolding rd_blk_def by (simp only: nat_int) simp
  qed
  ultimately show ?thesis by blast
qed

text \<open>
  C21. H264_parse_NAL turns a packet of length-prefixed units (prefixes of one to four bytes)
  into start-code form: if the output has room, each unit is appended to the CBE behind a start
  code, in order, nothing else is written, and out_size grows by what was appended.
\<close>

theorem H264_parse_NAL_correct:
  assumes "cbe_ok c" "\<forall>u\<in>set us. framed k u" "0 < k"
    and "int (length (cbe_content c) + length (annexb (map snd us))) < csize c"
  shows "\<exists>q. H264_parse_NAL (pre @ frame_bytes us) (int (length pre)) (int (length (frame_bytes us))) c out (int k)
      = Some (0, q, out + int (length (annexb (map snd us))))
    \<and> cbe_ok q \<and> csize q = csize c \<and> cbe_content q = cbe_content c @ annexb (map snd us)"
  using assms
proof (induction us arbitrary: pre c out)
  case Nil
  then show ?case by (subst H264_parse_NAL.simps) (simp add: frame_bytes_def annexb_def)
next
  case (Cons u us)
  define l where "l = length (snd u)"
  define m where "m = pre @ frame_bytes (u # us)"
  have fr: "framed k u" "l \<noteq> 0" using Cons.prems(2) by (auto simp: l_def framed_def)
  have ann: "annexb (map snd (u # us)) = (sync_word @ snd u) @ annexb (map snd us)" by (simp add: annexb_def)
  have cs: "csize c < 2147483648" using Cons.prems(1) by (simp add: cbe_ok_def cbe_shape_def)
  have room: "int (length (cbe_content c) + 4 + l + length (annexb (map snd us))) < csize c"
    using Cons.prems(4) unfolding ann by (simp add: sync_word_def l_def)
  then have l: "length (snd u) < 2147483648" using cs by (simp add: l_def)
  have m: "m = pre @ (fst u @ snd u) @ frame_bytes us" by (simp add: m_def frame_bytes_def)
  obtain b where b: "rd m (int (length pre)) = Some b"
    "nal_size_loop m (k - 1) (int (length pre) + 1) (uint b) = Some (int l, int (length pre + k))"
    "rd_blk m (int (length pre + k)) (int l) = Some (snd u)"
    using nal_prefix [OF fr(1) Cons.prems(3) l m] by (auto simp: l_def)
  obtain c1 where c1: "cbe_write c sync_word 4 = Some (4, c1)" "cbe_ok c1" "csize c1 = csize c"
    "cbe_content c1 = cbe_content c @ sync_word"
    using cbe_append [of c sync_word] Cons.prems(1) room by (auto simp: sync_word_def)
  obtain c2 where c2: "cbe_write c1 (snd u) (int l) = Some (int l, c2)" "cbe_ok c2" "csize c2 = csize c"
    "cbe_content c2 = cbe_content c @ sync_word @ snd u"
    using cbe_append [of c1 "snd u"] c1 room by (auto simp: sync_word_def l_def)
  have len: "int (length (frame_bytes (u # us))) = int k + int l + int (length (frame_bytes us))"
    using fr(1) by (simp add: frame_bytes_def framed_def l_def)
  have pre: "int (length (pre @ fst u @ snd u)) = int (length pre + k) + int l" "m = (pre @ fst u @ snd u) @ frame_bytes us"
    using fr(1) by (simp_all add: framed_def l_def m)
  have step: "H264_parse_NAL m (int (length pre)) (int (length (frame_bytes (u # us)))) c out (int k)
      = H264_parse_NAL m (int (length (pre @ fst u @ snd u))) (int (length (frame_bytes us))) c2 (out + 4 + int l) (int k)"
    unfolding pre(1) len using b c1(1) c2(1) fr(2) Cons.prems(3)
    by (subst H264_parse_NAL.simps) (simp add: nat_diff_distrib' Let_def min_def)
  have "int (length (cbe_content c2) + length (annexb (map snd us))) < csize c2"
    using room c2(3,4) by (simp add: sync_word_def l_def)
  note IH = Cons.IH [OF c2(2) _ Cons.prems(3) this, of "pre @ fst u @ snd u" "out + 4 + int l"]
  show ?case
    using IH Cons.prems(2) c2 unfolding m_def [symmetric] step pre(2) [symmetric] ann
    by (simp add: sync_word_def l_def algebra_simps)
qed

theorem H264_parse_NAL_correct_witness:
  "\<exists>c q. cbe_ok c \<and> H264_parse_NAL [0, 2, 0x65, 1, 0, 1, 0x41] 0 7 c 0 2 = Some (0, q, 11)
     \<and> cbe_content q = [0, 0, 0, 1, 0x65, 1, 0, 0, 0, 1, 0x41]"
proof -
  obtain c where c: "cbe_new 32 4 False True (Some (replicate 36 0)) = Some c" "cbe_ok c" "cbe_content c = []"
    using cbe_new_ok [of 32 4 "replicate 36 0" False] by auto
  have "csize c = 32" using c(1) by (auto simp: cbe_new_def cbe_flush_def uw32_def split: if_splits)
  then have "\<exists>q. H264_parse_NAL [0, 2, 0x65, 1, 0, 1, 0x41] 0 7 c 0 2 = Some (0, q, 11)
     \<and> cbe_content q = [0, 0, 0, 1, 0x65, 1, 0, 0, 0, 1, 0x41]"
    using H264_parse_NAL_correct [of c "[([0, 2], [0x65, 1]), ([0, 1], [0x41])]" 2 "[]" 0] c(2,3)
    by (auto simp: framed_def be_value_def frame_bytes_def annexb_def sync_word_def)
  then show ?thesis using c(2) by blast
qed

section \<open>Start codes\<close>

text \<open>A NAL unit starts at i: a start code and a header byte with a clear top bit.\<close>

definition nal_at :: "u8 list \<Rightarrow> nat \<Rightarrow> bool" where
  "nal_at m i \<longleftrightarrow> take 4 (drop i m) = sync_word \<and> m ! (i + 4) AND 0x80 = 0"

lemma find_NAL2_loop_step:
  assumes "i + 4 < n" "p + n \<le> length m" "wm \<longrightarrow> p + n < length m"
  shows "find_NAL2_loop m (int p) (int n) wm (int i) =
    (if nal_at m (p + i) then Some (int i, uint (m ! (p + i + 4) AND 0x1F), uint (drop_bit 5 (m ! (p + i + 4)) AND 3),
       if wm then uint (m ! (p + i + 5)) else 0)
     else find_NAL2_loop m (int p) (int n) wm (int (Suc i)))"
proof -
  have "mem_match m (int p + int i) sync_word = Some (take 4 (drop (p + i) m) = sync_word)"
    using mem_match_in_range [of "int p + int i" sync_word m] assms by (simp add: nat_add_distrib)
  moreover have "rd m (int p + int i + 4) = Some (m ! (p + i + 4))"
    using assms by (simp add: rd_def nat_add_distrib)
  moreover have "wm \<Longrightarrow> rd m (int p + int i + 5) = Some (m ! (p + i + 5))"
    using assms by (simp add: rd_def nat_add_distrib)
  ultimately show ?thesis
    using assms by (subst find_NAL2_loop.simps) (auto simp: nal_at_def add.commute)
qed

lemma find_NAL2_loop_stop: "n \<le> i + 4 \<Longrightarrow> find_NAL2_loop m p (int n) wm (int i) = Some (-1, 0, 0, 0)"
  by (subst find_NAL2_loop.simps) simp

lemma find_NAL2_loop_found:
  assumes "p + n \<le> length m" "wm \<longrightarrow> p + n < length m" "i \<le> k" "k + 4 < n" "nal_at m (p + k)"
    "\<forall>j. i \<le> j \<longrightarrow> j < k \<longrightarrow> \<not> nal_at m (p + j)"
  shows "find_NAL2_loop m (int p) (int n) wm (int i) = Some (int k, uint (m ! (p + k + 4) AND 0x1F),
    uint (drop_bit 5 (m ! (p + k + 4)) AND 3), if wm then uint (m ! (p + k + 5)) else 0)"
  using assms(3,6)
proof (induction rule: inc_induct)
  case base
  then show ?case using assms(1,2,4,5) by (subst find_NAL2_loop_step) auto
next
  case (step j)
  then show ?case using assms(1,2,4) by (subst find_NAL2_loop_step) (auto simp del: of_nat_Suc)
qed

lemma find_NAL2_loop_none:
  assumes "p + n \<le> length m" "wm \<longrightarrow> p + n < length m" "\<forall>j. i \<le> j \<longrightarrow> j + 4 < n \<longrightarrow> \<not> nal_at m (p + j)"
  shows "find_NAL2_loop m (int p) (int n) wm (int i) = Some (-1, 0, 0, 0)"
  using assms(3)
proof (induction "n - i" arbitrary: i rule: less_induct)
  case less
  show ?case
  proof (cases "i + 4 < n")
    case True
    then have "\<not> nal_at m (p + i)" using less.prems by auto
    moreover have "find_NAL2_loop m (int p) (int n) wm (int (Suc i)) = Some (-1, 0, 0, 0)"
      using True less.prems by (intro less.hyps) auto
    ultimately show ?thesis using find_NAL2_loop_step [OF True assms(1,2)] by simp
  qed (simp add: find_NAL2_loop_stop)
qed

text \<open>
  H264_find_NAL2 over n bytes at p finds the first NAL unit: it returns the least offset
  below n - 4 with a start code and a header byte whose forbidden bit is clear, with the unit
  type and the reference indicator of that header, and -1 exactly when there is none. The read
  of the byte behind the header is why a caller that asks for it must have one more byte.
\<close>

theorem H264_find_NAL2_first:
  assumes "p + n \<le> length m" "wm \<longrightarrow> p + n < length m"
  shows "(\<exists>k. k + 4 < n \<and> nal_at m (p + k) \<and> (\<forall>j<k. \<not> nal_at m (p + j))
      \<and> H264_find_NAL2 m (int p) (int n) wm = Some (int k, uint (m ! (p + k + 4) AND 0x1F),
          uint (drop_bit 5 (m ! (p + k + 4)) AND 3), if wm then uint (m ! (p + k + 5)) else 0))
    \<or> (\<forall>j. j + 4 < n \<longrightarrow> \<not> nal_at m (p + j)) \<and> H264_find_NAL2 m (int p) (int n) wm = Some (-1, 0, 0, 0)"
proof (cases "\<exists>j. j + 4 < n \<and> nal_at m (p + j)")
  case True
  define k where "k = (LEAST j. j + 4 < n \<and> nal_at m (p + j))"
  have k: "k + 4 < n" "nal_at m (p + k)" using LeastI_ex [OF True] by (simp_all add: k_def)
  have "\<not> nal_at m (p + j)" if "j < k" for j
    using not_less_Least [of j "\<lambda>j. j + 4 < n \<and> nal_at m (p + j)"] that k(1) by (auto simp: k_def)
  then show ?thesis
    using find_NAL2_loop_found [OF assms le0 k] k by (intro disjI1 exI [of _ k]) (simp add: H264_find_NAL2_def)
next
  case False
  then show ?thesis using find_NAL2_loop_none [OF assms, of 0] by (simp add: H264_find_NAL2_def)
qed

theorem H264_find_NAL2_first_witness:
  "\<exists>x. H264_find_NAL2 [9, 0, 0, 0, 1, 0x65, 7] 0 6 True = Some x"
  using H264_find_NAL2_first [of 0 6 "[9, 0, 0, 0, 1, 0x65, 7]" True] by auto

text \<open>
  H264_find_AUD and H264_find_SLICE compare four bytes at every offset below len, so on a
  buffer of exactly len bytes they read beyond its end whenever no start code with the wanted
  type comes first: for a buffer without any start code the search is undefined.
\<close>

theorem find_AUD_reads_beyond:
  assumes "m \<noteq> []" "\<forall>i < length m. take 4 (drop i m) \<noteq> sync_word"
  shows "H264_find_AUD m 0 (int (length m)) = None \<and> H264_find_SLICE m 0 (int (length m)) sps = None"
proof -
  have "find_AUD_loop m 0 (int (length m)) (int i) = None \<and> find_SLICE_loop m 0 (int (length m)) sps (int i) = None"
    if "i < length m" for i
    using that
  proof (induction "length m - i" arbitrary: i rule: less_induct)
    case less
    show ?case
    proof (cases "i + 4 \<le> length m")
      case True
      then have "mem_match m (int i) sync_word = Some False"
        using assms(2) less.prems by (subst mem_match_in_range) auto
      moreover have "find_AUD_loop m 0 (int (length m)) (int (Suc i)) = None \<and> find_SLICE_loop m 0 (int (length m)) sps (int (Suc i)) = None"
        using True less.prems by (intro less.hyps) auto
      ultimately show ?thesis using less.prems
        by (subst find_AUD_loop.simps, subst find_SLICE_loop.simps) (simp add: add.commute)
    next
      case False
      then have "mem_match m (int i) sync_word = None" by (simp add: mem_match_def rd_blk_def)
      then show ?thesis using less.prems by (subst find_AUD_loop.simps, subst find_SLICE_loop.simps) simp
    qed
  qed
  from this [of 0] assms(1) show ?thesis by (simp add: H264_find_AUD_def H264_find_SLICE_def)
qed

theorem find_AUD_reads_beyond_witness:
  "H264_find_AUD [1, 2, 3, 4] 0 4 = None \<and> H264_find_SLICE [1, 2, 3, 4] 0 4 True = None"
  using find_AUD_reads_beyond [of "[1, 2, 3, 4]" True] by (simp add: sync_word_def less_Suc_eq)

end
