(* ===== verification/Hevc.thy ===== *)
theory Hevc
  imports H264_Nal
begin

text \<open>
  Source/hevc.c: the conversion of an hvcC configuration record to parameter sets behind start
  codes, into a buffer of the caller or in place, and the conversion of length-prefixed units.
  Input and output are separate memories; the output position counts what has been written.
\<close>

text \<open>The units of one array: k left. Inl is the error exit, with what was written before it.\<close>

fun hvcc_units :: "nat \<Rightarrow> u8 list \<Rightarrow> int \<Rightarrow> int \<Rightarrow> u8 list \<Rightarrow> int \<Rightarrow> int
    \<Rightarrow> (u8 list + int \<times> u8 list \<times> int) option" where
  "hvcc_units 0 m p stop out out_size pos = Some (Inr (p, out, pos))"
| "hvcc_units (Suc k) m p stop out out_size pos =
     (if stop - p < 2 then Some (Inl out)
      else do {
        hi \<leftarrow> rd m p;
        lo \<leftarrow> rd m (p + 1);
        let n = uint hi * 256 + uint lo;
        let p = p + 2;
        if n < 0 \<or> stop - p < n then Some (Inl out)
        else if pos + 4 + n > out_size then Some (Inl out)
        else do {
          out \<leftarrow> wr_blk out pos sync_word;
          xs \<leftarrow> rd_blk m p n;
          out \<leftarrow> wr_blk out (pos + 4) xs;
          hvcc_units k m (p + n) stop out out_size (pos + 4 + n) } })"

fun hvcc_arrays :: "nat \<Rightarrow> u8 list \<Rightarrow> int \<Rightarrow> int \<Rightarrow> u8 list \<Rightarrow> int \<Rightarrow> int
    \<Rightarrow> (u8 list + int \<times> u8 list \<times> int) option" where
  "hvcc_arrays 0 m p stop out out_size pos = Some (Inr (p, out, pos))"
| "hvcc_arrays (Suc k) m p stop out out_size pos =
     (if stop - p < 3 then Some (Inl out)
      else do {
        type \<leftarrow> rd m p;
        hi \<leftarrow> rd m (p + 1);
        lo \<leftarrow> rd m (p + 2);
        r \<leftarrow> hvcc_units (nat (uint hi * 256 + uint lo)) m (p + 3) stop out out_size pos;
        (case r of Inl out \<Rightarrow> Some (Inl out)
         | Inr (p, out, pos) \<Rightarrow> hvcc_arrays k m p stop out out_size pos) })"

text \<open>The test of the first bytes: data that starts with a start code is not a record.\<close>

definition not_hvcc :: "u8 list \<Rightarrow> int \<Rightarrow> bool option" where
  "not_hvcc m sz =
     (if sz \<le> 3 then Some True
      else do {
        a \<leftarrow> rd m 0;
        b \<leftarrow> rd m 1;
        c \<leftarrow> rd m 2;
        Some (a = 0 \<and> b = 0 \<and> c \<le> 1) })"

text \<open>
  The results: the return value, the output buffer, and the values stored through the two
  pointers (None where nothing is stored).
\<close>

definition HEVC_convert_nal_units ::
  "u8 list \<Rightarrow> int \<Rightarrow> u8 list \<Rightarrow> int \<Rightarrow> (int \<times> u8 list \<times> int option \<times> int option) option" where
  "HEVC_convert_nal_units m sz out out_size = do {
     bad \<leftarrow> not_hvcc m sz;
     if bad then Some (-1, out, None, None)
     else if sz < 23 then Some (-1, out, None, None)
     else do {
       c \<leftarrow> rd m 21;
       let nus = uint (c AND 3) + 1;
       k \<leftarrow> rd m 22;
       r \<leftarrow> hvcc_arrays (unat k) m 23 sz out out_size 0;
       (case r of Inl out \<Rightarrow> Some (-1, out, None, Some nus)
        | Inr (p, out, pos) \<Rightarrow> Some (0, out, Some pos, Some nus)) } }"

text \<open>alloc is the block the allocator returns (of sz bytes), None when it fails.\<close>

definition convert_extradata_hevc ::
  "u8 list option \<Rightarrow> u8 list \<Rightarrow> int \<Rightarrow> (int \<times> u8 list \<times> int option \<times> int option) option" where
  "convert_extradata_hevc alloc m sz = do {
     bad \<leftarrow> not_hvcc m sz;
     if bad then Some (-1, m, None, None)
     else if sz < 23 then Some (-1, m, None, None)
     else (case alloc of None \<Rightarrow> Some (-1, m, None, None)
       | Some blk \<Rightarrow> do {
           c \<leftarrow> rd m 21;
           let nus = uint (c AND 3) + 1;
           k \<leftarrow> rd m 22;
           r \<leftarrow> hvcc_arrays (unat k) m 23 sz blk sz 0;
           (case r of Inl _ \<Rightarrow> Some (1, m, None, Some nus)
            | Inr (p, out, pos) \<Rightarrow> do {
                xs \<leftarrow> rd_blk out 0 pos;
                m \<leftarrow> wr_blk m 0 xs;
                Some (0, m, Some pos, Some nus) }) }) }"

definition HEVC_convert_extradata :: "(int \<Rightarrow> u8 list option) \<Rightarrow> video_props \<Rightarrow> (int \<times> video_props) option" where
  "HEVC_convert_extradata alloc video =
     (if extraDataSize video \<noteq> 0 then do {
        (r, m, s, n) \<leftarrow> convert_extradata_hevc (alloc (extraDataSize video)) (extraData video) (extraDataSize video);
        Some (r, video\<lparr>extraData := m, extraDataSize := (case s of None \<Rightarrow> extraDataSize video | Some x \<Rightarrow> x),
          nal_unit_size := (case n of None \<Rightarrow> nal_unit_size video | Some x \<Rightarrow> x)\<rparr>) }
      else if extraDataSize2 video \<noteq> 0 then do {
        x \<leftarrow> extraData2 video;
        (r, m, s, n) \<leftarrow> convert_extradata_hevc (alloc (extraDataSize2 video)) x (extraDataSize2 video);
        Some (r, video\<lparr>extraData2 := Some m, extraDataSize := (case s of None \<Rightarrow> extraDataSize video | Some x \<Rightarrow> x),
          nal_unit_size := (case n of None \<Rightarrow> nal_unit_size video | Some x \<Rightarrow> x)\<rparr>) }
      else Some (1, video))"

partial_function (option) HEVC_parse_NAL ::
  "u8 list \<Rightarrow> int \<Rightarrow> int \<Rightarrow> cbe \<Rightarrow> int \<Rightarrow> int \<Rightarrow> (int \<times> cbe \<times> int) option" where
  "HEVC_parse_NAL m d sz c out_size nus =
     (if sz > 0 then do {
        b \<leftarrow> rd m d;
        (v, d) \<leftarrow> nal_size_loop m (nat (nus - 1)) (d + 1) (uint b);
        let sz = sz - nus;
        let n = max 0 (min v sz);
        if n > 0 then do {
          (r, c) \<leftarrow> cbe_write c sync_word 4;
          xs \<leftarrow> rd_blk m d n;
          (r, c) \<leftarrow> cbe_write c xs n;
          HEVC_parse_NAL m (d + n) (sz - n) c (out_size + 4 + n) nus }
        else HEVC_parse_NAL m d (sz - n) c out_size nus }
      else Some (0, c, out_size))"

section \<open>Memory safety\<close>

lemma put_at_append:
  assumes "i + length xs + length ys \<le> length m"
  shows "put_at (put_at m i xs) (i + length xs) ys = put_at m i (xs @ ys)"
proof (rule nth_equalityI)
  fix j assume "j < length (put_at (put_at m i xs) (i + length xs) ys)"
  then have j: "j < length m" using assms by simp
  have len: "length (put_at m i xs) = length m" using assms by simp
  then show "put_at (put_at m i xs) (i + length xs) ys ! j = put_at m i (xs @ ys) ! j"
    using assms j by (auto simp: nth_put_at nth_append)
qed (use assms in simp)

lemma hvcc_units_step:
  assumes "0 \<le> p" "2 \<le> int (length m) - p" "n = uint (m ! nat p) * 256 + uint (m ! nat (p + 1))"
    "n \<le> int (length m) - (p + 2)" "0 \<le> pos" "pos + 4 + n \<le> osz" "osz \<le> int (length out)"
    "xs = take (nat n) (drop (nat (p + 2)) m)"
  shows "hvcc_units (Suc k) m p (int (length m)) out osz pos
      = hvcc_units k m (p + 2 + n) (int (length m)) (put_at out (nat pos) (sync_word @ xs)) osz (pos + 4 + n)"
proof -
  have n: "\<not> n < 0" unfolding assms(3) by (rule unit_nonneg)
  then have xs: "length xs = nat n" using assms(1,4) unfolding assms(8) length_take length_drop by linarith
  have "wr_blk out pos sync_word = Some (put_at out (nat pos) sync_word)"
    using assms(5-7) n by (simp add: wr_blk_def)
  moreover have "rd_blk m (p + 2) n = Some xs" using assms(1,4,8) n by (simp add: rd_blk_def)
  moreover have "wr_blk (put_at out (nat pos) sync_word) (pos + 4) xs = Some (put_at out (nat pos) (sync_word @ xs))"
  proof -
    have l: "length (put_at out (nat pos) sync_word) = length out" using assms(5-7) n by simp
    have "put_at (put_at out (nat pos) sync_word) (nat (pos + 4)) xs = put_at out (nat pos) (sync_word @ xs)"
      using put_at_append [of "nat pos" sync_word xs out] assms(5-7) n xs by (simp add: nat_add_distrib)
    then show ?thesis using assms(5-7) n xs l by (simp add: wr_blk_def)
  qed
  moreover have "rd m p = Some (m ! nat p)" "rd m (p + 1) = Some (m ! nat (p + 1))"
    using assms(1,2) by (auto simp: rd_def)
  ultimately show ?thesis
    using assms(2,4,6) n unfolding assms(3) by (simp add: Let_def)
qed

lemma hvcc_units_safe:
  assumes "0 \<le> p" "p \<le> int (length m)" "0 \<le> pos" "pos \<le> osz" "osz \<le> int (length out)"
  shows "\<exists>r. hvcc_units k m p (int (length m)) out osz pos = Some r \<and>
    (case r of Inl out' \<Rightarrow> length out' = length out
     | Inr (p', out', pos') \<Rightarrow> length out' = length out \<and> 0 \<le> p' \<and> p' \<le> int (length m) \<and> 0 \<le> pos' \<and> pos' \<le> osz)"
  using assms
proof (induction k arbitrary: p out pos)
  case (Suc k)
  show ?case
  proof (cases "int (length m) - p < 2")
    case pos2: False
    define n where "n = uint (m ! nat p) * 256 + uint (m ! nat (p + 1))"
    have n: "\<not> n < 0" unfolding n_def by (rule unit_nonneg)
    have r: "rd m p = Some (m ! nat p)" "rd m (p + 1) = Some (m ! nat (p + 1))"
      using Suc.prems(1,2) pos2 by (auto simp: rd_def)
    show ?thesis
    proof (cases "int (length m) - (p + 2) < n \<or> osz < pos + 4 + n")
      case True
      then have "hvcc_units (Suc k) m p (int (length m)) out osz pos = Some (Inl out)"
        using r pos2 n by (auto simp: n_def Let_def)
      then show ?thesis by simp
    next
      case False
      then have ok: "n \<le> int (length m) - (p + 2)" "pos + 4 + n \<le> osz" by auto
      define xs where "xs = take (nat n) (drop (nat (p + 2)) m)"
      have eq: "hvcc_units (Suc k) m p (int (length m)) out osz pos
        = hvcc_units k m (p + 2 + n) (int (length m)) (put_at out (nat pos) (sync_word @ xs)) osz (pos + 4 + n)"
        using Suc.prems pos2 ok by (intro hvcc_units_step n_def xs_def) auto
      have "length xs = nat n" using ok n Suc.prems(1) unfolding xs_def length_take length_drop by linarith
      then have l: "length (put_at out (nat pos) (sync_word @ xs)) = length out"
        using Suc.prems(3,5) ok n by (intro length_put_at) simp
      show ?thesis unfolding eq l [symmetric] using Suc.prems ok n l by (intro Suc.IH) auto
    qed
  qed simp
qed simp

lemma hvcc_arrays_safe:
  assumes "0 \<le> p" "p \<le> int (length m)" "0 \<le> pos" "pos \<le> osz" "osz \<le> int (length out)"
  shows "\<exists>r. hvcc_arrays k m p (int (length m)) out osz pos = Some r \<and>
    (case r of Inl out' \<Rightarrow> length out' = length out
     | Inr (p', out', pos') \<Rightarrow> length out' = length out \<and> 0 \<le> pos' \<and> pos' \<le> osz)"
  using assms
proof (induction k arbitrary: p out pos)
  case (Suc k)
  show ?case
  proof (cases "int (length m) - p < 3")
    case False
    then have rds: "rd m p = Some (m ! nat p)" "rd m (p + 1) = Some (m ! nat (p + 1))" "rd m (p + 2) = Some (m ! nat (p + 2))"
      using Suc.prems(1,2) by (auto simp: rd_def)
    let ?c = "nat (uint (m ! nat (p + 1)) * 256 + uint (m ! nat (p + 2)))"
    obtain r where u: "hvcc_units ?c m (p + 3) (int (length m)) out osz pos = Some r"
      "case r of Inl out' \<Rightarrow> length out' = length out
        | Inr (p', out', pos') \<Rightarrow> length out' = length out \<and> 0 \<le> p' \<and> p' \<le> int (length m) \<and> 0 \<le> pos' \<and> pos' \<le> osz"
      using hvcc_units_safe [of "p + 3" m pos osz out ?c] Suc.prems False by auto
    show ?thesis
    proof (cases r)
      case (Inl out')
      then show ?thesis using u False rds by (simp add: Let_def)
    next
      case (Inr x)
      then obtain p' out' pos' where x: "r = Inr (p', out', pos')" "length out' = length out" "0 \<le> p'" "p' \<le> int (length m)" "0 \<le> pos'" "pos' \<le> osz"
        using u(2) by (cases x) auto
      have eq: "hvcc_arrays (Suc k) m p (int (length m)) out osz pos = hvcc_arrays k m p' (int (length m)) out' osz pos'"
        using u(1) x(1) False rds by (simp add: Let_def)
      show ?thesis unfolding eq x(2) [symmetric] using Suc.prems(5) x(2-6) by (intro Suc.IH) auto
    qed
  qed simp
qed simp

section \<open>Well-formed records\<close>

text \<open>An array is a type byte and its units; head21 is what stands before the length size.\<close>

definition array_bytes :: "u8 \<times> u8 list list \<Rightarrow> u8 list" where
  "array_bytes a = [fst a, word_of_nat (length (snd a) div 256), word_of_nat (length (snd a) mod 256)]
     @ concat (map unit_bytes (snd a))"

definition hvcc_bytes :: "u8 list \<Rightarrow> u8 \<Rightarrow> (u8 \<times> u8 list list) list \<Rightarrow> u8 list" where
  "hvcc_bytes head21 c as = head21 @ [c, word_of_nat (length as)] @ concat (map array_bytes as)"

definition array_ok :: "u8 \<times> u8 list list \<Rightarrow> bool" where
  "array_ok a \<longleftrightarrow> length (snd a) < 65536 \<and> (\<forall>u\<in>set (snd a). length u < 65536)"

lemma annexb_append: "annexb (us @ vs) = annexb us @ annexb vs"
  by (simp add: annexb_def)

lemma hvcc_units_wf:
  assumes "\<forall>u\<in>set us. length u < 65536" "int (length (pre @ concat (map unit_bytes us) @ post)) = stop"
    "pos \<le> osz" "osz \<le> length out"
  shows "(if pos + length (annexb us) \<le> osz
     then hvcc_units (length us) (pre @ concat (map unit_bytes us) @ post) (int (length pre)) stop out (int osz) (int pos)
       = Some (Inr (int (length (pre @ concat (map unit_bytes us))), put_at out pos (annexb us), int (pos + length (annexb us))))
     else \<exists>out'. hvcc_units (length us) (pre @ concat (map unit_bytes us) @ post) (int (length pre)) stop out (int osz) (int pos)
       = Some (Inl out'))"
  using assms
proof (induction us arbitrary: pre out pos)
  case Nil
  then show ?case by (simp add: annexb_def)
next
  case (Cons u us)
  let ?l = "length u"
  have l: "?l < 65536" using Cons.prems(1) by simp
  define m where "m = pre @ concat (map unit_bytes (u # us)) @ post"
  have m1: "m = pre @ unit_bytes u @ (concat (map unit_bytes us) @ post)"
    and m2: "m = (pre @ unit_bytes u) @ concat (map unit_bytes us) @ post" by (simp_all add: m_def)
  have stop: "stop = int (length m)" using Cons.prems(2) by (simp add: m_def)
  have nth: "m ! length pre = word_of_nat (?l div 256)" "m ! (length pre + 1) = word_of_nat (?l mod 256)"
    unfolding m1 unit_bytes_def by (simp_all add: nth_append)
  have xs: "u = take (nat (int ?l)) (drop (nat (int (length pre) + 2)) m)"
    unfolding m1 unit_bytes_def by (simp add: nat_add_distrib)
  have room: "2 \<le> int (length m) - int (length pre)" "int ?l \<le> int (length m) - (int (length pre) + 2)"
    unfolding m1 unit_bytes_def by simp_all
  have v: "int ?l = uint (m ! nat (int (length pre))) * 256 + uint (m ! nat (int (length pre) + 1))"
    using unit_size [OF l] nth by (simp add: nat_add_distrib)
  have ann: "annexb (u # us) = (sync_word @ u) @ annexb us" by (simp add: annexb_def)
  show ?case
  proof (cases "pos + 4 + ?l \<le> osz")
    case True
    let ?o = "put_at out pos (sync_word @ u)" and ?q = "pos + 4 + ?l"
    have len: "length ?o = length out" using True Cons.prems(4) by (intro length_put_at) simp
    have step: "hvcc_units (Suc (length us)) m (int (length pre)) stop out (int osz) (int pos)
      = hvcc_units (length us) m (int (length (pre @ unit_bytes u))) stop ?o (int osz) (int ?q)"
    proof -
      have e: "int (length (pre @ unit_bytes u)) = int (length pre) + 2 + int ?l" "int ?q = int pos + 4 + int ?l" "nat (int pos) = pos"
        by (simp_all add: unit_bytes_def)
      show ?thesis
        using hvcc_units_step [OF _ room(1) v room(2) _ _ _ xs, of "int pos" "int osz" out "length us"] True Cons.prems(4)
        unfolding e stop by simp
    qed
    have app: "put_at ?o ?q (annexb us) = put_at out pos (annexb (u # us))" if "?q + length (annexb us) \<le> osz"
      using put_at_append [of pos "sync_word @ u" "annexb us" out] that Cons.prems(4) by (simp add: ann add.assoc)
    have "int (length ((pre @ unit_bytes u) @ concat (map unit_bytes us) @ post)) = stop" using stop m2 by simp
    note IH = Cons.IH [OF _ this True, of ?o]
    have total: "pos + length (annexb (u # us)) = ?q + length (annexb us)" by (simp add: ann)
    show ?thesis
      using IH Cons.prems(1,4) len app unfolding m_def [symmetric] m2 [symmetric] length_Cons step total
      by (auto split: if_splits)
  next
    case False
    have "hvcc_units (Suc (length us)) m (int (length pre)) stop out (int osz) (int pos) = Some (Inl out)"
      using room False v nth by (simp add: stop rd_def nat_add_distrib Let_def)
    then show ?thesis using False unfolding m_def by (auto simp: ann)
  qed
qed

lemma hvcc_arrays_wf:
  assumes "\<forall>a\<in>set as. array_ok a" "int (length (pre @ concat (map array_bytes as))) = stop"
    "pos \<le> osz" "osz \<le> length out"
  shows "(if pos + length (annexb (concat (map snd as))) \<le> osz
     then hvcc_arrays (length as) (pre @ concat (map array_bytes as)) (int (length pre)) stop out (int osz) (int pos)
       = Some (Inr (stop, put_at out pos (annexb (concat (map snd as))), int (pos + length (annexb (concat (map snd as))))))
     else \<exists>out'. hvcc_arrays (length as) (pre @ concat (map array_bytes as)) (int (length pre)) stop out (int osz) (int pos)
       = Some (Inl out'))"
  using assms
proof (induction as arbitrary: pre out pos)
  case Nil
  then show ?case by (simp add: annexb_def)
next
  case (Cons a as)
  let ?us = "snd a" and ?rest = "concat (map array_bytes as)"
  have ok: "length ?us < 65536" "\<forall>u\<in>set ?us. length u < 65536" using Cons.prems(1) by (auto simp: array_ok_def)
  define h where "h = [fst a, word_of_nat (length ?us div 256), word_of_nat (length ?us mod 256)]"
  define m where "m = pre @ concat (map array_bytes (a # as))"
  have m1: "m = (pre @ h) @ concat (map unit_bytes ?us) @ ?rest" and m2: "m = (pre @ array_bytes a) @ ?rest"
    by (simp_all add: m_def array_bytes_def h_def)
  have stop: "stop = int (length m)" using Cons.prems(2) by (simp add: m_def)
  have rds: "rd m (int (length pre)) = Some (fst a)" "rd m (int (length pre) + 1) = Some (word_of_nat (length ?us div 256))"
    "rd m (int (length pre) + 2) = Some (word_of_nat (length ?us mod 256))"
    unfolding m1 h_def by (simp_all add: rd_append_right)
  have room: "3 \<le> stop - int (length pre)" unfolding stop m1 h_def by simp
  have cnt: "nat (uint (word_of_nat (length ?us div 256) :: u8) * 256 + uint (word_of_nat (length ?us mod 256) :: u8)) = length ?us"
    unfolding unit_size [OF ok(1)] by simp
  have p3: "int (length (pre @ h)) = int (length pre) + 3" by (simp add: h_def)
  have p4: "pre @ h @ concat (map unit_bytes ?us) = pre @ array_bytes a" by (simp add: h_def array_bytes_def)
  have "int (length ((pre @ h) @ concat (map unit_bytes ?us) @ ?rest)) = stop" using stop m1 by simp
  note U = hvcc_units_wf [OF ok(2) this Cons.prems(3,4), unfolded m1 [symmetric] p3, unfolded append.assoc p4]
  have ann: "annexb (concat (map snd (a # as))) = annexb ?us @ annexb (concat (map snd as))"
    by (simp add: annexb_append)
  have head: "hvcc_arrays (Suc (length as)) m (int (length pre)) stop out (int osz) (int pos)
     = hvcc_units (length ?us) m (int (length pre) + 3) stop out (int osz) (int pos)
        \<bind> case_sum (\<lambda>out. Some (Inl out)) (\<lambda>(p, out, pos). hvcc_arrays (length as) m p stop out (int osz) pos)"
    using room rds cnt by (simp add: Let_def)
  show ?case
  proof (cases "pos + length (annexb ?us) \<le> osz")
    case True
    let ?o = "put_at out pos (annexb ?us)" and ?q = "pos + length (annexb ?us)"
    have len: "length ?o = length out" using True Cons.prems(4) by (intro length_put_at) simp
    have step: "hvcc_arrays (Suc (length as)) m (int (length pre)) stop out (int osz) (int pos)
      = hvcc_arrays (length as) m (int (length (pre @ array_bytes a))) stop ?o (int osz) (int ?q)"
      using U True unfolding head by simp
    have app: "put_at ?o ?q (annexb (concat (map snd as))) = put_at out pos (annexb (concat (map snd (a # as))))"
      if "?q + length (annexb (concat (map snd as))) \<le> osz"
      using put_at_append [of pos "annexb ?us" "annexb (concat (map snd as))" out] that Cons.prems(4)
      unfolding ann by (simp add: add.assoc)
    have "int (length ((pre @ array_bytes a) @ ?rest)) = stop" using stop m2 by simp
    note IH = Cons.IH [OF _ this True, of ?o]
    have total: "pos + length (annexb (concat (map snd (a # as)))) = ?q + length (annexb (concat (map snd as)))"
      unfolding ann by simp
    show ?thesis
      using IH Cons.prems(1,4) len app unfolding m_def [symmetric] m2 [symmetric] length_Cons step total
      by (auto split: if_splits)
  next
    case False
    then show ?thesis using U unfolding m_def [symmetric] length_Cons head ann by auto
  qed
qed

lemma byte_le_1: "(z :: u8) \<le> 1 \<longleftrightarrow> z = 0 \<or> z = 1"
  by (auto simp: word_le_nat_alt le_Suc_eq word_unat_eq_iff)

text \<open>
  C28. The hvcC conversions. HEVC_convert_nal_units is memory safe on every input (it stays inside
  the data_size input bytes and the out_size output bytes whatever lengths the record claims).
  On a well-formed record it writes the units of all arrays in order behind start codes and
  returns their total size if that fits the output, and returns -1 otherwise.
\<close>

theorem HEVC_convert_nal_units_correct:
  assumes "osz \<le> length out"
  shows "(\<exists>r out' s n. HEVC_convert_nal_units m (int (length m)) out (int osz) = Some (r, out', s, n) \<and> length out' = length out)
    \<and> (length head21 = 21 \<longrightarrow> take 3 head21 \<noteq> [0, 0, 0] \<longrightarrow> take 3 head21 \<noteq> [0, 0, 1] \<longrightarrow> length as < 256 \<longrightarrow>
       (\<forall>a\<in>set as. array_ok a) \<longrightarrow> m = hvcc_bytes head21 c as \<longrightarrow>
       (let us = annexb (concat (map snd as)) in
        if length us \<le> osz
        then HEVC_convert_nal_units m (int (length m)) out (int osz)
          = Some (0, us @ drop (length us) out, Some (int (length us)), Some (uint (c AND 3) + 1))
        else \<exists>out'. HEVC_convert_nal_units m (int (length m)) out (int osz) = Some (-1, out', None, Some (uint (c AND 3) + 1))))"
proof -
  have bad: "\<exists>b. not_hvcc m (int (length m)) = Some b" by (auto simp: not_hvcc_def)
  have "\<exists>r out' s n. HEVC_convert_nal_units m (int (length m)) out (int osz) = Some (r, out', s, n) \<and> length out' = length out"
  proof (cases "not_hvcc m (int (length m)) = Some True \<or> length m < 23")
    case True
    then show ?thesis using bad by (auto simp: HEVC_convert_nal_units_def)
  next
    case False
    then have b: "not_hvcc m (int (length m)) = Some False" "23 \<le> length m" using bad by auto
    obtain r where "hvcc_arrays (unat (m ! 22)) m 23 (int (length m)) out (int osz) 0 = Some r"
      "case r of Inl out' \<Rightarrow> length out' = length out | Inr (p', out', pos') \<Rightarrow> length out' = length out \<and> 0 \<le> pos' \<and> pos' \<le> int osz"
      using hvcc_arrays_safe [of 23 m 0 "int osz" out "unat (m ! 22)"] b(2) assms by auto
    then show ?thesis using b by (cases r) (auto simp: HEVC_convert_nal_units_def)
  qed
  moreover have "let us = annexb (concat (map snd as)) in
        if length us \<le> osz
        then HEVC_convert_nal_units m (int (length m)) out (int osz)
          = Some (0, us @ drop (length us) out, Some (int (length us)), Some (uint (c AND 3) + 1))
        else \<exists>out'. HEVC_convert_nal_units m (int (length m)) out (int osz) = Some (-1, out', None, Some (uint (c AND 3) + 1))"
    if h: "length head21 = 21" "take 3 head21 \<noteq> [0, 0, 0]" "take 3 head21 \<noteq> [0, 0, 1]" "length as < 256"
      "\<forall>a\<in>set as. array_ok a" "m = hvcc_bytes head21 c as"
  proof -
    have m: "m = (head21 @ [c, word_of_nat (length as)]) @ concat (map array_bytes as)" by (simp add: h(6) hvcc_bytes_def)
    have n: "m ! 21 = c" "m ! 22 = word_of_nat (length as)" "length (head21 @ [c, word_of_nat (length as)]) = 23"
      unfolding m using h(1) by (simp_all add: nth_append)
    have l: "23 \<le> length m" unfolding m using h(1) by simp
    obtain x y z ws where hd: "head21 = x # y # z # ws" using h(1) by (auto simp: length_Suc_conv numeral_eq_Suc)
    then have "\<not> (x = 0 \<and> y = 0 \<and> z \<le> 1)" using h(2,3) by (auto simp: byte_le_1)
    moreover have "m ! 0 = x" "m ! 1 = y" "m ! 2 = z" unfolding m hd by simp_all
    ultimately have b: "not_hvcc m (int (length m)) = Some False" using l by (auto simp: not_hvcc_def)
    have k: "unat (m ! 22) = length as" unfolding n(2) using h(4) by (simp only: unat_of_nat) simp
    note A = hvcc_arrays_wf [OF h(5) _ le0 assms, of "head21 @ [c, word_of_nat (length as)]" "int (length m)", folded m, unfolded n(3)]
    show ?thesis
      using A b l k n(1) by (auto simp: HEVC_convert_nal_units_def Let_def put_at_def)
  qed
  ultimately show ?thesis by blast
qed

theorem HEVC_convert_nal_units_correct_witness:
  "HEVC_convert_nal_units (hvcc_bytes (1 # replicate 20 0) 3 [(0x20, [[0x40, 1]]), (0x22, [[0x44]])]) 36 (replicate 16 9) 16
     = Some (0, [0, 0, 0, 1, 0x40, 1, 0, 0, 0, 1, 0x44] @ replicate 5 9, Some 11, Some 4)"
proof -
  let ?as = "[(0x20, [[0x40, 1]]), (0x22, [[0x44]])] :: (u8 \<times> u8 list list) list"
  let ?m = "hvcc_bytes (1 # replicate 20 0) 3 ?as"
  have l: "length ?m = 36" by (simp add: hvcc_bytes_def array_bytes_def unit_bytes_def)
  show ?thesis
    using HEVC_convert_nal_units_correct [of 16 "replicate 16 9" ?m "1 # replicate 20 0" ?as 3]
    unfolding l by (simp add: array_ok_def annexb_def sync_word_def)
qed

text \<open>The in-place conversion does the same with a block as large as the record.\<close>

lemma convert_extradata_hevc_nal_units:
  assumes "HEVC_convert_nal_units m (int (length m)) blk (int (length m)) = Some (0, out, Some (int k), n)"
    "length blk = length m"
  shows "convert_extradata_hevc (Some blk) m (int (length m)) = Some (0, take k out @ drop k m, Some (int k), n)"
proof -
  have b: "not_hvcc m (int (length m)) = Some False" "23 \<le> length m"
    using assms(1) by (auto simp: HEVC_convert_nal_units_def bind_eq_Some_iff split: if_splits)
  obtain r where r: "hvcc_arrays (unat (m ! 22)) m 23 (int (length m)) blk (int (length m)) 0 = Some r"
    using assms(1) b by (cases "hvcc_arrays (unat (m ! 22)) m 23 (int (length m)) blk (int (length m)) 0")
      (auto simp: HEVC_convert_nal_units_def Let_def)
  then obtain p where a: "hvcc_arrays (unat (m ! 22)) m 23 (int (length m)) blk (int (length m)) 0 = Some (Inr (p, out, int k))"
    "n = Some (uint (m ! 21 AND 3) + 1)"
    using assms(1) b by (cases r) (auto simp: HEVC_convert_nal_units_def Let_def)
  have "length out = length m \<and> k \<le> length m"
    using hvcc_arrays_safe [of 23 m 0 "int (length m)" blk "unat (m ! 22)"] a(1) b(2) assms(2) by auto
  then show ?thesis
    using a b by (simp add: convert_extradata_hevc_def rd_blk_def wr_blk_def put_at_def)
qed

end
