(* ===== verification/Timers.thy ===== *)
theory Timers
  imports Prelude
begin

text \<open>
  The timer list of Source/timers.c: a pool of timer slots, the used ones linked into a ring that
  is sorted by the time they are due and closed by a sentinel (dummy). A pointer to a timer is
  None for the sentinel and Some i for slot i of the pool. The time (atime) and the width of
  ULONG are arguments; functions are identified by numbers. None as a result is an assertion
  that fails, a NULL dereference or an overflow of the id counter.
\<close>

definition INT32_MAX :: int where
  "INT32_MAX = 2147483647"

record timer =
  tid :: int
  timeout :: int
  interval :: int
  callback :: "nat option"
  callback_ctx :: "nat option"
  ctx :: nat
  caller :: string
  tnext :: "nat option"

record timers =
  data :: "timer list"
  dummy :: timer
  tsize :: int
  cnt :: int
  id_counter :: int

datatype timer_mode = TIMER_REPEATED | TIMER_SINGLE

definition ulong :: "nat \<Rightarrow> int \<Rightarrow> int" where
  "ulong w x = x mod 2 ^ w"

definition node :: "timers \<Rightarrow> nat option \<Rightarrow> timer" where
  "node s p = (case p of None \<Rightarrow> dummy s | Some i \<Rightarrow> data s ! i)"

definition set_node :: "timers \<Rightarrow> nat option \<Rightarrow> timer \<Rightarrow> timers" where
  "set_node s p t = (case p of None \<Rightarrow> s\<lparr>dummy := t\<rparr> | Some i \<Rightarrow> s\<lparr>data := (data s)[i := t]\<rparr>)"

definition Timers_init :: "timers \<Rightarrow> timers" where
  "Timers_init s = s\<lparr>dummy := (dummy s)\<lparr>tid := -1, tnext := None, timeout := INT32_MAX\<rparr>,
     data := map (\<lambda>t. t\<lparr>tid := -1\<rparr>) (take (nat (tsize s)) (data s)) @ drop (nat (tsize s)) (data s)\<rparr>"

text \<open>The element behind which a timer that is due at t belongs.\<close>

partial_function (option) insert_point :: "timers \<Rightarrow> nat option \<Rightarrow> int \<Rightarrow> nat option option" where
  "insert_point s before t =
     (if timeout (node s (tnext (node s before))) < t then insert_point s (tnext (node s before)) t
      else Some before)"

definition timer_insert :: "timers \<Rightarrow> nat \<Rightarrow> timers option" where
  "timer_insert s i = do {
     before \<leftarrow> insert_point s None (timeout (node s (Some i)));
     let s = set_node s (Some i) ((node s (Some i))\<lparr>tnext := tnext (node s before)\<rparr>);
     let s = set_node s before ((node s before)\<lparr>tnext := Some i\<rparr>);
     Some (s\<lparr>cnt := cnt s + 1\<rparr>) }"

definition timer_unlink :: "timers \<Rightarrow> nat option \<Rightarrow> timers" where
  "timer_unlink s before =
     (let s = set_node s before ((node s before)\<lparr>tnext := tnext (node s (tnext (node s before)))\<rparr>)
      in s\<lparr>cnt := cnt s - 1\<rparr>)"

fun find_unused :: "timer list \<Rightarrow> nat \<Rightarrow> nat option" where
  "find_unused [] i = None"
| "find_unused (t # ts) i = (if tid t = -1 then Some i else find_unused ts (Suc i))"

definition Timers_internalAdd ::
  "timers \<Rightarrow> nat \<Rightarrow> int \<Rightarrow> nat option \<Rightarrow> nat option \<Rightarrow> nat \<Rightarrow> int \<Rightarrow> int \<Rightarrow> timer_mode \<Rightarrow> string \<Rightarrow> (int \<times> timers) option" where
  "Timers_internalAdd s w now cb cb_ctx listener ivl delay mode clr =
     (if cnt s < tsize s then do {
        let tm = ulong w now;
        i \<leftarrow> find_unused (take (nat (tsize s)) (data s)) 0;
        let nid = id_counter s;
        if nid = INT32_MAX then None
        else do {
          let s = s\<lparr>id_counter := nid + 1\<rparr>;
          let s = set_node s (Some i) ((node s (Some i))\<lparr>tid := nid, timeout := i32 (tm + delay),
                interval := (if mode = TIMER_SINGLE then -1 else ivl), callback := cb,
                callback_ctx := cb_ctx, ctx := listener, caller := take 128 clr\<rparr>);
          s \<leftarrow> timer_insert s i;
          Some (nid, s) } }
      else Some (-1, s))"

definition Timers_Add where
  "Timers_Add s w now onTimeout ivl mode clr =
     (if ivl > 0 then Timers_internalAdd s w now (Some onTimeout) None 0 ivl ivl mode clr else None)"

definition Timers_DelayedAdd where
  "Timers_DelayedAdd s w now onTimeout ivl delay clr =
     (if ivl > 0 then Timers_internalAdd s w now (Some onTimeout) None 0 ivl delay TIMER_REPEATED clr else None)"

definition Timers_AddWithParam where
  "Timers_AddWithParam s w now onTimeout listener ivl mode clr =
     (if ivl > 0 then Timers_internalAdd s w now None (Some onTimeout) listener ivl ivl mode clr else None)"

definition Timers_DelayedAddWithParam where
  "Timers_DelayedAddWithParam s w now onTimeout listener ivl delay clr =
     (if ivl > 0 then Timers_internalAdd s w now None (Some onTimeout) listener ivl delay TIMER_REPEATED clr else None)"

partial_function (option) remove_loop :: "timers \<Rightarrow> int \<Rightarrow> nat option \<Rightarrow> timers option" where
  "remove_loop s x before =
     (let nx = tnext (node s before) in
      if timeout (node s nx) < INT32_MAX then
        (if tid (node s nx) = x then Some (timer_unlink (set_node s nx ((node s nx)\<lparr>tid := -1\<rparr>)) before)
         else remove_loop s x nx)
      else Some s)"

text \<open>The id pointer is None for NULL; the second result is the id afterwards.\<close>

definition Timers_remove :: "timers \<Rightarrow> int option \<Rightarrow> (timers \<times> int option) option" where
  "Timers_remove s idp = (case idp of None \<Rightarrow> Some (s, None)
     | Some x \<Rightarrow> if x = -1 \<or> x = 0 then Some (s, Some x)
         else do { s \<leftarrow> remove_loop s x None; Some (s, Some (-1)) })"

definition Timers_Remove :: "timers \<Rightarrow> int option \<Rightarrow> (timers \<times> int option) option" where
  "Timers_Remove s idp = Timers_remove s idp"

definition Timers_safeAdd where
  "Timers_safeAdd s w now idp onTimeout listener ivl mode clr = (case idp of None \<Rightarrow> None
     | Some x \<Rightarrow> if ivl > 0 then do {
         (s, y) \<leftarrow> (if x \<noteq> -1 \<and> x \<noteq> 0 then Timers_remove s (Some x) else Some (s, Some x));
         Timers_internalAdd s w now None (Some onTimeout) listener ivl ivl mode clr } else None)"

definition Timers_safeDelayedAdd where
  "Timers_safeDelayedAdd s w now idp onTimeout listener ivl delay clr = (case idp of None \<Rightarrow> None
     | Some x \<Rightarrow> if ivl > 0 then do {
         (s, y) \<leftarrow> (if x \<noteq> -1 then Timers_remove s (Some x) else Some (s, Some x));
         Timers_internalAdd s w now None (Some onTimeout) listener ivl delay TIMER_REPEATED clr } else None)"

section \<open>Triggering\<close>

text \<open>
  One round of the trigger loop has a locked part, which takes the first timer out (or puts it
  behind its next deadline), and the call of its callback after the unlock. due is the loop
  condition.
\<close>

definition due :: "nat \<Rightarrow> int \<Rightarrow> timers \<Rightarrow> bool" where
  "due w tm s \<longleftrightarrow> ulong w (timeout (node s (tnext (node s None)))) \<le> tm"

definition trigger_take :: "int \<Rightarrow> timers \<Rightarrow> (nat option \<times> timers) option" where
  "trigger_take tm s =
     (let p = tnext (node s None) in
      if interval (node s p) > 0 then do {
        let s = timer_unlink s None;
        let s = set_node s p ((node s p)\<lparr>timeout := i32 (tm + interval (node s p))\<rparr>);
        i \<leftarrow> p;
        s \<leftarrow> timer_insert s i;
        Some (p, s) }
      else
        (let s = set_node s p ((node s p)\<lparr>tid := -1\<rparr>) in Some (p, timer_unlink s None)))"

definition call_of :: "timers \<Rightarrow> nat option \<Rightarrow> (nat \<times> nat option) list" where
  "call_of s p = (case callback (node s p) of Some f \<Rightarrow> [(f, None)]
     | None \<Rightarrow> (case callback_ctx (node s p) of Some f \<Rightarrow> [(f, Some (ctx (node s p)))] | None \<Rightarrow> []))"

text \<open>run is what a list of calls (at most one) does to the timers; the calls are collected.\<close>

partial_function (option) trigger_loop ::
  "((nat \<times> nat option) list \<Rightarrow> timers \<Rightarrow> timers) \<Rightarrow> nat \<Rightarrow> int \<Rightarrow> timers \<Rightarrow> (nat \<times> nat option) list
    \<Rightarrow> (timers \<times> (nat \<times> nat option) list) option" where
  "trigger_loop run w tm s calls =
     (if due w tm s then do {
        (p, s) \<leftarrow> trigger_take tm s;
        trigger_loop run w tm (run (call_of s p) s) (calls @ call_of s p) }
      else Some (s, calls))"

definition Timers_trigger where
  "Timers_trigger run w now s = trigger_loop run w (ulong w now) s []"

definition Timers_nextTimeout :: "timers \<Rightarrow> int" where
  "Timers_nextTimeout s = (if cnt s \<noteq> 0 then timeout (node s (tnext (node s None))) else 0)"

partial_function (option) listener_loop :: "timers \<Rightarrow> nat \<Rightarrow> nat option \<Rightarrow> int option" where
  "listener_loop s listener before =
     (let nx = tnext (node s before) in
      if timeout (node s nx) < INT32_MAX then
        (if ctx (node s nx) = listener then Some 1 else listener_loop s listener nx)
      else Some 0)"

definition Timers_haveListener :: "bool \<Rightarrow> timers \<Rightarrow> nat \<Rightarrow> int option" where
  "Timers_haveListener inited s listener = (if \<not> inited then Some 0 else listener_loop s listener None)"

section \<open>The ring\<close>

text \<open>
  xs lists the linked slots in order. pos xs k is the pointer to the k-th element of the ring,
  with the sentinel at 0; succ xs k the pointer stored there.
\<close>

definition pos :: "nat list \<Rightarrow> nat \<Rightarrow> nat option" where
  "pos xs k = (if k = 0 then None else Some (xs ! (k - 1)))"

definition succ :: "nat list \<Rightarrow> nat \<Rightarrow> nat option" where
  "succ xs k = (if k < length xs then Some (xs ! k) else None)"

definition linked :: "timers \<Rightarrow> nat list \<Rightarrow> bool" where
  "linked s xs \<longleftrightarrow> (\<forall>k \<le> length xs. tnext (node s (pos xs k)) = succ xs k)"

definition due_at :: "timers \<Rightarrow> nat \<Rightarrow> int" where
  "due_at s i = timeout (data s ! i)"

lemma node_simps: "node s None = dummy s" "node s (Some i) = data s ! i"
  by (simp_all add: node_def)

lemma insort_due_cong:
  "(\<And>y. y \<in> insert x (set xs) \<Longrightarrow> f y = g y) \<Longrightarrow> insort_key f x xs = insort_key g x xs"
  by (induction xs) auto

lemma linked_D: "linked s xs \<Longrightarrow> k \<le> length xs \<Longrightarrow> tnext (node s (pos xs k)) = succ xs k"
  by (simp add: linked_def)

lemma pos_0 [simp]: "pos xs 0 = None"
  by (simp add: pos_def)

lemma pos_Suc [simp]: "pos xs (Suc k) = Some (xs ! k)"
  by (simp add: pos_def)

lemma succ_pos: "k < length xs \<Longrightarrow> succ xs k = pos xs (Suc k)"
  by (simp add: succ_def pos_def)

lemma insert_point_found:
  assumes "linked s xs" "timeout (dummy s) = INT32_MAX" "t \<le> INT32_MAX"
    "k \<le> j" "j = length (takeWhile (\<lambda>i. due_at s i < t) xs)"
  shows "insert_point s (pos xs k) t = Some (pos xs j)"
  using assms(4)
proof (induction rule: inc_induct)
  case base
  have j: "j \<le> length xs" unfolding assms(5) by (rule length_takeWhile_le)
  have "\<not> timeout (node s (succ xs j)) < t"
  proof (cases "j < length xs")
    case True
    then have "\<not> due_at s (xs ! j) < t" unfolding assms(5) by (rule nth_length_takeWhile)
    then show ?thesis using True by (simp add: succ_def node_def due_at_def)
  next
    case False
    then show ?thesis using assms(2,3) by (simp add: succ_def node_def)
  qed
  then show ?case by (subst insert_point.simps) (simp add: linked_D [OF assms(1) j])
next
  case (step k)
  have k: "k < length xs" using step.hyps length_takeWhile_le [of "\<lambda>i. due_at s i < t" xs] unfolding assms(5) by linarith
  have "xs ! k \<in> set (takeWhile (\<lambda>i. due_at s i < t) xs)"
    using step.hyps(2) unfolding assms(5) by (metis nth_mem takeWhile_nth)
  then have "timeout (node s (succ xs k)) < t" using k by (auto simp: succ_def node_def due_at_def dest: set_takeWhileD)
  then show ?case
    using step.IH k by (subst insert_point.simps) (simp add: linked_D [OF assms(1)] succ_pos)
qed

lemma insort_key_takeWhile:
  "insort_key f x xs = takeWhile (\<lambda>y. f y < f x) xs @ x # drop (length (takeWhile (\<lambda>y. f y < f x) xs)) xs"
  by (induction xs) auto

lemma pos_insert:
  assumes "k \<le> length xs" "j \<le> Suc (length xs)"
  shows "pos (take k xs @ i # drop k xs) j = (if j \<le> k then pos xs j else if j = Suc k then Some i else pos xs (j - 1))"
    "succ (take k xs @ i # drop k xs) j = (if j < k then succ xs j else if j = k then Some i else succ xs (j - 1))"
proof -
  show "pos (take k xs @ i # drop k xs) j = (if j \<le> k then pos xs j else if j = Suc k then Some i else pos xs (j - 1))"
  proof (cases "j \<le> Suc k")
    case False
    then obtain d where "j = k + d + 2" using le_Suc_ex [of "k + 2" j] by auto
    then show ?thesis using assms by (simp add: pos_def nth_append)
  qed (use assms in \<open>auto simp: pos_def nth_append le_Suc_eq\<close>)
  show "succ (take k xs @ i # drop k xs) j = (if j < k then succ xs j else if j = k then Some i else succ xs (j - 1))"
  proof (cases "j \<le> k")
    case False
    then obtain d where "j = k + d + 1" using le_Suc_ex [of "k + 1" j] by auto
    then show ?thesis using assms by (auto simp: succ_def nth_append)
  qed (use assms in \<open>auto simp: succ_def nth_append\<close>)
qed

lemma pos_remove:
  assumes "k < length xs" "j < length xs"
  shows "pos (take k xs @ drop (Suc k) xs) j = (if j \<le> k then pos xs j else pos xs (Suc j))"
    "succ (take k xs @ drop (Suc k) xs) j = (if j < k then succ xs j else succ xs (Suc j))"
proof -
  show "pos (take k xs @ drop (Suc k) xs) j = (if j \<le> k then pos xs j else pos xs (Suc j))"
  proof (cases "j \<le> k")
    case False
    then obtain d where "j = k + d + 1" using le_Suc_ex [of "k + 1" j] by auto
    then show ?thesis using assms by (simp add: pos_def nth_append)
  qed (use assms in \<open>auto simp: pos_def nth_append\<close>)
  show "succ (take k xs @ drop (Suc k) xs) j = (if j < k then succ xs j else succ xs (Suc j))"
  proof (cases "j < k")
    case False
    then obtain d where "j = k + d" using le_Suc_ex [of k j] by auto
    then show ?thesis using assms by (auto simp: succ_def nth_append)
  qed (use assms in \<open>auto simp: succ_def nth_append\<close>)
qed

lemma pos_eq_iff:
  assumes "distinct xs" "a \<le> length xs" "b \<le> length xs"
  shows "pos xs a = pos xs b \<longleftrightarrow> a = b"
  using assms by (cases a; cases b) (auto simp: pos_def nth_eq_iff_index_eq)

definition valid :: "timers \<Rightarrow> nat option \<Rightarrow> bool" where
  "valid s p \<longleftrightarrow> (\<forall>i. p = Some i \<longrightarrow> i < length (data s))"

lemma node_set_node [simp]: "valid s p \<Longrightarrow> node (set_node s p t) q = (if p = q then t else node s q)"
  by (auto simp: node_def set_node_def valid_def split: option.splits)

lemma set_node_fields [simp]:
  "cnt (set_node s p t) = cnt s" "tsize (set_node s p t) = tsize s" "id_counter (set_node s p t) = id_counter s"
  "length (data (set_node s p t)) = length (data s)" "valid (set_node s p t) q = valid s q"
  by (auto simp: set_node_def valid_def split: option.splits)

text \<open>Two states that differ in links and count only.\<close>

definition same :: "timers \<Rightarrow> timers \<Rightarrow> bool" where
  "same s s' \<longleftrightarrow> (\<forall>p. valid s p \<longrightarrow> (node s' p)\<lparr>tnext := None\<rparr> = (node s p)\<lparr>tnext := None\<rparr>)
     \<and> length (data s') = length (data s) \<and> tsize s' = tsize s \<and> id_counter s' = id_counter s"

lemma same_node:
  assumes "same s s'" "valid s p"
  shows "timeout (node s' p) = timeout (node s p)" "tid (node s' p) = tid (node s p)"
    "interval (node s' p) = interval (node s p)" "callback (node s' p) = callback (node s p)"
    "callback_ctx (node s' p) = callback_ctx (node s p)" "ctx (node s' p) = ctx (node s p)"
proof -
  have "(node s' p)\<lparr>tnext := None\<rparr> = (node s p)\<lparr>tnext := None\<rparr>" using assms by (simp add: same_def)
  then show "timeout (node s' p) = timeout (node s p)" "tid (node s' p) = tid (node s p)"
    "interval (node s' p) = interval (node s p)" "callback (node s' p) = callback (node s p)"
    "callback_ctx (node s' p) = callback_ctx (node s p)" "ctx (node s' p) = ctx (node s p)"
    by (cases "node s p"; cases "node s' p"; simp)+
qed

lemma same_slot:
  assumes "same s s'" "i < length (data s)"
  shows "due_at s' i = due_at s i" "tid (data s' ! i) = tid (data s ! i)"
  using same_node [OF assms(1), of "Some i"] assms(2) by (auto simp: valid_def node_def due_at_def)

definition ring :: "timers \<Rightarrow> nat list \<Rightarrow> bool" where
  "ring s xs \<longleftrightarrow> linked s xs \<and> distinct xs \<and> sorted (map (due_at s) xs)
     \<and> (\<forall>i\<in>set xs. i < length (data s) \<and> due_at s i \<le> INT32_MAX) \<and> timeout (dummy s) = INT32_MAX"

lemma ring_valid: "ring s xs \<Longrightarrow> k \<le> length xs \<Longrightarrow> valid s (pos xs k)"
  by (auto simp: ring_def valid_def pos_def)

lemma ring_same:
  assumes "ring s xs" "same s s'" "linked s' ys" "distinct ys" "set ys \<subseteq> insert i (set xs)" "i < length (data s)"
    "due_at s i \<le> INT32_MAX" "sorted (map (due_at s) ys)"
  shows "ring s' ys"
proof -
  have i: "\<forall>j\<in>set ys. j < length (data s) \<and> due_at s j \<le> INT32_MAX"
    using assms(1,5,6,7) by (auto simp: ring_def)
  then have "map (due_at s') ys = map (due_at s) ys" using same_slot(1) [OF assms(2)] by auto
  then have "sorted (map (due_at s') ys)" using assms(8) by (simp only:)
  moreover have "timeout (dummy s') = timeout (dummy s)"
    using same_node(1) [OF assms(2), of None] by (simp add: valid_def node_def)
  moreover have "\<forall>j\<in>set ys. due_at s' j = due_at s j" using same_slot(1) [OF assms(2)] i by auto
  moreover have "timeout (dummy s) = INT32_MAX" "length (data s') = length (data s)"
    using assms(1,2) by (simp_all add: ring_def same_def)
  ultimately show ?thesis using assms(3,4) i unfolding ring_def by simp
qed

lemma pos_not_in: "i \<notin> set xs \<Longrightarrow> k \<le> length xs \<Longrightarrow> pos xs k \<noteq> Some i"
  by (auto simp: pos_def in_set_conv_nth split: if_splits)

lemma ring_insert:
  assumes "ring s xs" "i < length (data s)" "i \<notin> set xs" "due_at s i \<le> INT32_MAX"
  shows "\<exists>s'. timer_insert s i = Some s' \<and> ring s' (insort_key (due_at s) i xs) \<and> same s s' \<and> cnt s' = cnt s + 1"
proof -
  define j where "j = length (takeWhile (\<lambda>y. due_at s y < due_at s i) xs)"
  have j: "j \<le> length xs" unfolding j_def by (rule length_takeWhile_le)
  have r: "linked s xs" "distinct xs" "timeout (dummy s) = INT32_MAX" using assms(1) by (auto simp: ring_def)
  let ?b = "pos xs j"
  have ip: "insert_point s None (timeout (node s (Some i))) = Some ?b"
    using insert_point_found [OF r(1,3), of "due_at s i" 0 j] assms(4) by (simp add: j_def node_def due_at_def)
  define s1 where "s1 = set_node s (Some i) ((node s (Some i))\<lparr>tnext := succ xs j\<rparr>)"
  define s2 where "s2 = (set_node s1 ?b ((node s1 ?b)\<lparr>tnext := Some i\<rparr>))\<lparr>cnt := cnt s + 1\<rparr>"
  have v: "valid s (Some i)" "valid s ?b" using assms(2) ring_valid [OF assms(1) j] by (auto simp: valid_def)
  have ne: "?b \<noteq> Some i" using pos_not_in [OF assms(3) j] .
  have "timer_insert s i = Some s2"
    using ip linked_D [OF r(1) j] by (simp add: timer_insert_def s2_def s1_def Let_def)
  have "node (x\<lparr>cnt := c\<rparr>) p = node x p" "data (x\<lparr>cnt := c\<rparr>) = data x" for x c p
    by (simp_all add: node_def split: option.split)
  note cn = this
  have nd: "node s2 p = (if p = ?b then (node s p)\<lparr>tnext := Some i\<rparr> else if p = Some i then (node s p)\<lparr>tnext := succ xs j\<rparr> else node s p)" for p
    using v ne by (auto simp: s2_def s1_def cn)
  have same: "same s s2" unfolding same_def nd by (simp add: s2_def s1_def)
  have l: "linked s2 (take j xs @ i # drop j xs)"
    unfolding linked_def
  proof (intro allI impI)
    fix k assume "k \<le> length (take j xs @ i # drop j xs)"
    then have k: "k \<le> Suc (length xs)" by simp
    have old: "tnext (node s2 (pos xs k')) = succ xs k'" if "k' \<le> length xs" "k' \<noteq> j" for k'
    proof -
      have "pos xs k' \<noteq> ?b" using pos_eq_iff [OF r(2) that(1) j] that(2) by simp
      then show ?thesis using pos_not_in [OF assms(3) that(1)] linked_D [OF r(1) that(1)] by (simp only: nd if_False)
    qed
    show "tnext (node s2 (pos (take j xs @ i # drop j xs) k)) = succ (take j xs @ i # drop j xs) k"
    proof (cases "k \<le> j")
      case True
      then show ?thesis unfolding pos_insert [OF j k] using old [of k] j by (cases "k = j") (simp_all add: nd)
    next
      case False
      then show ?thesis unfolding pos_insert [OF j k] using old [of "k - 1"] k ne by (cases "k = Suc j") (simp_all add: nd)
    qed
  qed
  have e: "insort_key (due_at s) i xs = take j xs @ i # drop j xs"
    unfolding insort_key_takeWhile j_def by (metis takeWhile_eq_take)
  have so: "sorted (map (due_at s) xs)" using assms(1) by (simp add: ring_def)
  have "ring s2 (insort_key (due_at s) i xs)"
  proof (rule ring_same [OF assms(1) same, where i = i])
    show "linked s2 (insort_key (due_at s) i xs)" unfolding e by (rule l)
    show "distinct (insort_key (due_at s) i xs)" using r(2) assms(3) by (simp add: distinct_insort)
    show "set (insort_key (due_at s) i xs) \<subseteq> insert i (set xs)" by (simp add: set_insort_key)
    show "sorted (map (due_at s) (insort_key (due_at s) i xs))" using so by (simp add: sorted_insort_key)
  qed (use assms in auto)
  then show ?thesis
    using \<open>timer_insert s i = Some s2\<close> same by (auto simp: s2_def)
qed

lemma ring_unlink:
  assumes "ring s xs" "k < length xs"
  shows "ring (timer_unlink s (pos xs k)) (take k xs @ drop (Suc k) xs)"
    "same s (timer_unlink s (pos xs k))" "cnt (timer_unlink s (pos xs k)) = cnt s - 1"
proof -
  have r: "linked s xs" "distinct xs" using assms(1) by (auto simp: ring_def)
  have k: "k \<le> length xs" using assms(2) by simp
  let ?b = "pos xs k"
  define s2 where "s2 = timer_unlink s ?b"
  have v: "valid s ?b" by (rule ring_valid [OF assms(1) k])
  have cn: "node (x\<lparr>cnt := c\<rparr>) p = node x p" for x :: timers and c p
    by (simp add: node_def split: option.split)
  have nx: "tnext (node s (tnext (node s ?b))) = succ xs (Suc k)"
    using assms(2) linked_D [OF r(1), of "Suc k"] by (simp add: linked_D [OF r(1) k] succ_pos)
  have nd: "node s2 p = (if p = ?b then (node s p)\<lparr>tnext := succ xs (Suc k)\<rparr> else node s p)" for p
    unfolding s2_def timer_unlink_def Let_def cn nx using v by simp
  show same: "same s (timer_unlink s ?b)"
    unfolding same_def s2_def [symmetric] nd by (simp add: s2_def timer_unlink_def Let_def)
  show "cnt (timer_unlink s ?b) = cnt s - 1" by (simp add: timer_unlink_def Let_def)
  have l: "linked s2 (take k xs @ drop (Suc k) xs)"
    unfolding linked_def
  proof (intro allI impI)
    fix j assume "j \<le> length (take k xs @ drop (Suc k) xs)"
    then have j: "j < length xs" using assms(2) by simp
    have old: "tnext (node s2 (pos xs k')) = succ xs k'" if "k' \<le> length xs" "k' \<noteq> k" for k'
      using pos_eq_iff [OF r(2) that(1) k] that(2) linked_D [OF r(1) that(1)] by (simp add: nd)
    show "tnext (node s2 (pos (take k xs @ drop (Suc k) xs) j)) = succ (take k xs @ drop (Suc k) xs) j"
    proof (cases "j \<le> k")
      case True
      then show ?thesis unfolding pos_remove [OF assms(2) j] using old [of j] j by (cases "j = k") (simp_all add: nd)
    next
      case False
      then show ?thesis unfolding pos_remove [OF assms(2) j] using old [of "Suc j"] j by simp
    qed
  qed
  have sub: "set (take k xs @ drop (Suc k) xs) \<subseteq> set xs"
    using set_take_subset set_drop_subset by fastforce
  have xk: "xs = take k xs @ xs ! k # drop (Suc k) xs" using assms(2) by (simp add: id_take_nth_drop)
  have so: "sorted (map (due_at s) xs)" using assms(1) by (simp add: ring_def)
  show "ring (timer_unlink s ?b) (take k xs @ drop (Suc k) xs)"
  proof (rule ring_same [OF assms(1) same, where i = "xs ! k"])
    show "linked (timer_unlink s ?b) (take k xs @ drop (Suc k) xs)" using l by (simp add: s2_def)
    show "distinct (take k xs @ drop (Suc k) xs)" using r(2) by (subst (asm) xk) simp
    show "sorted (map (due_at s) (take k xs @ drop (Suc k) xs))" using so by (subst (asm) xk) (simp add: sorted_append)
  qed (use assms sub in \<open>auto simp: ring_def\<close>)
qed

text \<open>Changing fields of a slot that is not linked, or fields the ring does not depend on.\<close>

lemma ring_set_node:
  assumes "ring s xs" "i < length (data s)" "i \<in> set xs \<Longrightarrow> timeout t = due_at s i \<and> tnext t = tnext (data s ! i)"
  shows "ring (set_node s (Some i) t) xs"
proof -
  let ?s = "set_node s (Some i) t"
  have v: "valid s (Some i)" using assms(2) by (simp add: valid_def)
  have "tnext (node ?s (pos xs k)) = succ xs k" if "k \<le> length xs" for k
  proof -
    have "pos xs k = Some i \<Longrightarrow> i \<in> set xs" using that by (auto simp: pos_def split: if_splits)
    then show ?thesis
    proof (cases "pos xs k = Some i")
      case True
      then show ?thesis using \<open>pos xs k = Some i \<Longrightarrow> i \<in> set xs\<close> assms(1,3) linked_D [OF _ that, of s] v
        by (simp add: ring_def) (simp add: node_def)
    next
      case False
      then show ?thesis using assms(1) linked_D [OF _ that, of s] v by (simp add: ring_def)
    qed
  qed
  moreover have "due_at ?s j = due_at s j" if "j \<in> set xs" for j
    using assms that by (cases "j = i") (auto simp: due_at_def set_node_def)
  then have "map (due_at ?s) xs = map (due_at s) xs" "\<forall>j\<in>set xs. due_at ?s j = due_at s j" by auto
  ultimately show ?thesis
    using assms(1) unfolding ring_def linked_def by (auto simp: set_node_def simp del: map_eq_conv)
qed

text \<open>
  The whole state: the ring, the pool (a slot is in use exactly when it is linked), the counts,
  distinct positive ids below the counter, and a sentinel without callbacks. lost is by how much the count is too
  small; it is 0 in a list that is well formed altogether.
\<close>

definition timers_inv :: "nat \<Rightarrow> timers \<Rightarrow> nat list \<Rightarrow> bool" where
  "timers_inv lost s xs \<longleftrightarrow> ring s xs \<and> cnt s = int (length xs) - int lost \<and> tsize s = int (length (data s))
     \<and> (\<forall>i < length (data s). tid (data s ! i) \<noteq> -1 \<longleftrightarrow> i \<in> set xs)
     \<and> 0 < id_counter s \<and> id_counter s \<le> INT32_MAX \<and> (\<forall>i\<in>set xs. 0 < tid (data s ! i) \<and> tid (data s ! i) < id_counter s)
     \<and> inj_on (\<lambda>i. tid (data s ! i)) (set xs)
     \<and> interval (dummy s) \<le> 0 \<and> callback (dummy s) = None \<and> callback_ctx (dummy s) = None"

abbreviation timers_ok :: "timers \<Rightarrow> nat list \<Rightarrow> bool" where
  "timers_ok \<equiv> timers_inv 0"

lemma timers_ok_same:
  assumes "timers_inv lost s xs" "same s s'" "ring s' xs" "cnt s' = cnt s"
  shows "timers_inv lost s' xs"
proof -
  have l: "length (data s') = length (data s)" "id_counter s' = id_counter s" "tsize s' = tsize s"
    using assms(2) by (auto simp: same_def)
  have d: "interval (dummy s') = interval (dummy s)" "callback (dummy s') = callback (dummy s)" "callback_ctx (dummy s') = callback_ctx (dummy s)"
    using same_node [OF assms(2), of None] by (auto simp: valid_def node_def)
  have t: "i < length (data s) \<Longrightarrow> tid (data s' ! i) = tid (data s ! i)" for i by (rule same_slot(2) [OF assms(2)])
  have i: "i \<in> set xs \<Longrightarrow> i < length (data s)" for i using assms(1) by (auto simp: timers_inv_def ring_def)
  have "inj_on (\<lambda>i. tid (data s' ! i)) (set xs) = inj_on (\<lambda>i. tid (data s ! i)) (set xs)"
    using t i by (auto intro!: inj_on_cong)
  then show ?thesis using assms(1,3,4) l d t i by (auto simp: timers_inv_def)
qed

lemma find_unused_Some:
  "find_unused ts k = Some i \<Longrightarrow> k \<le> i \<and> i - k < length ts \<and> tid (ts ! (i - k)) = -1"
  by (induction ts k rule: find_unused.induct) (auto split: if_splits simp: nth_Cons')

lemma find_unused_None: "find_unused ts k = None \<Longrightarrow> \<forall>t\<in>set ts. tid t \<noteq> -1"
  by (induction ts k rule: find_unused.induct) (auto split: if_splits)

lemma timers_ok_unused:
  assumes "timers_ok s xs" "cnt s < tsize s"
  shows "\<exists>i. find_unused (take (nat (tsize s)) (data s)) 0 = Some i \<and> i < length (data s) \<and> i \<notin> set xs"
proof -
  have t: "take (nat (tsize s)) (data s) = data s" using assms(1) by (simp add: timers_inv_def)
  have "card (set xs) < length (data s)" using assms card_length [of xs] by (auto simp: timers_inv_def)
  then have "\<not> {..<length (data s)} \<subseteq> set xs" using card_mono [of "set xs" "{..<length (data s)}"] by auto
  then obtain j where j: "j < length (data s)" "tid (data s ! j) = -1" using assms(1) by (auto simp: timers_inv_def)
  then obtain i where i: "find_unused (data s) 0 = Some i" using find_unused_None [of "data s" 0] by fastforce
  then show ?thesis using find_unused_Some [OF i] assms(1) t by (auto simp: timers_inv_def)
qed

lemma i32_le_max [simp]: "i32 x \<le> INT32_MAX"
  using i32_range(2) [of x] by (simp add: INT32_MAX_def)

lemma timers_add_ok:
  assumes "timers_inv lost s xs" "cnt s < tsize s" "id_counter s < INT32_MAX" "find_unused (data s) 0 = Some i"
  shows "\<exists>s'. Timers_internalAdd s w now cb cb_ctx l ivl delay mode clr = Some (id_counter s, s')
    \<and> i \<notin> set xs \<and> i < length (data s) \<and> timers_inv lost s' (insort_key (due_at s') i xs)
    \<and> id_counter s' = id_counter s + 1 \<and> due_at s' i = i32 (ulong w now + delay) \<and> tid (data s' ! i) = id_counter s
    \<and> callback (data s' ! i) = cb \<and> callback_ctx (data s' ! i) = cb_ctx \<and> ctx (data s' ! i) = l
    \<and> (\<forall>j < length (data s). j \<noteq> i \<longrightarrow> (data s' ! j)\<lparr>tnext := None\<rparr> = (data s ! j)\<lparr>tnext := None\<rparr>)"
proof -
  have i: "find_unused (take (nat (tsize s)) (data s)) 0 = Some i" "i < length (data s)" "i \<notin> set xs"
    using find_unused_Some [OF assms(4)] assms(1,4) by (auto simp: timers_inv_def)
  define t where "t = (data s ! i)\<lparr>tid := id_counter s, timeout := i32 (ulong w now + delay),
    interval := (if mode = TIMER_SINGLE then -1 else ivl), callback := cb, callback_ctx := cb_ctx, ctx := l, caller := take 128 clr\<rparr>"
  define s0 where "s0 = s\<lparr>id_counter := id_counter s + 1\<rparr>"
  define s1 where "s1 = set_node s0 (Some i) t"
  have nd0: "node s0 p = node s p" for p by (simp add: s0_def node_def split: option.split)
  have f0: "data s0 = data s" "dummy s0 = dummy s" "cnt s0 = cnt s" "tsize s0 = tsize s" by (simp_all add: s0_def)
  have s1: "data s1 = (data s)[i := t]" "dummy s1 = dummy s" "cnt s1 = cnt s" "tsize s1 = tsize s" "id_counter s1 = id_counter s + 1"
    by (simp_all add: s1_def set_node_def f0) (simp add: s0_def)
  have rs0: "ring s0 xs"
  proof -
    have "due_at s0 = due_at s" by (simp add: fun_eq_iff due_at_def f0)
    then show ?thesis using assms(1) by (simp add: timers_inv_def ring_def linked_def nd0 f0)
  qed
  have r1: "ring s1 xs" unfolding s1_def using rs0 i(2,3) f0 by (intro ring_set_node) auto
  have d1: "due_at s1 i = i32 (ulong w now + delay)" using i(2) by (simp add: due_at_def s1 t_def)
  obtain s' where s': "timer_insert s1 i = Some s'" "ring s' (insort_key (due_at s1) i xs)" "same s1 s'" "cnt s' = cnt s1 + 1"
    using ring_insert [OF r1, of i] i(2,3) i32_le_max d1 s1(1) by auto
  have add: "Timers_internalAdd s w now cb cb_ctx l ivl delay mode clr = Some (id_counter s, s')"
    using assms(2,3) i s'(1) by (simp add: Timers_internalAdd_def Let_def nd0 node_def s1_def t_def s0_def f0)
  have sl: "due_at s' j = due_at s1 j" "tid (data s' ! j) = tid (data s1 ! j)" if "j < length (data s)" for j
    using same_slot [OF s'(3)] that s1(1) by auto
  have xs: "j \<in> set xs \<Longrightarrow> j < length (data s) \<and> j \<noteq> i" for j using assms(1) i(3) by (auto simp: timers_inv_def ring_def)
  have k: "insort_key (due_at s') i xs = insort_key (due_at s1) i xs"
    using sl xs i(2) by (intro insort_due_cong) auto
  have dm: "interval (dummy s') = interval (dummy s)" "callback (dummy s') = callback (dummy s)" "callback_ctx (dummy s') = callback_ctx (dummy s)"
    using same_node [OF s'(3), of None] s1(2) by (auto simp: valid_def node_def)
  have f': "length (data s') = length (data s)" "tsize s' = tsize s" "id_counter s' = id_counter s + 1"
    using s'(3) s1 by (auto simp: same_def)
  have ti: "tid (data s' ! j) = (if j = i then id_counter s else tid (data s ! j))" if "j < length (data s)" for j
    using sl(2) [OF that] that s1(1) by (auto simp: t_def)
  have "inj_on (\<lambda>j. tid (data s' ! j)) (insert i (set xs))"
    using assms(1) xs ti i(2,3) by (auto simp: timers_inv_def inj_on_def)
  then have "timers_inv lost s' (insort_key (due_at s') i xs)"
    using assms(1,3) s'(2,4) s1(3) f' ti xs i(2,3) dm unfolding k by (auto simp: timers_inv_def set_insort_key)
  moreover have "callback (data s' ! i) = cb" "callback_ctx (data s' ! i) = cb_ctx" "ctx (data s' ! i) = l"
    using same_node [OF s'(3), of "Some i"] i(2) s1(1) by (auto simp: valid_def node_def t_def)
  moreover have "(data s' ! j)\<lparr>tnext := None\<rparr> = (data s ! j)\<lparr>tnext := None\<rparr>" if "j < length (data s)" "j \<noteq> i" for j
    using s'(3) that s1(1) unfolding same_def by (auto simp: valid_def node_def dest: spec [of _ "Some j"])
  moreover have "tid (data s' ! i) = id_counter s" using ti i(2) by simp
  ultimately show ?thesis using add i(2,3) f'(3) d1 sl(1) by (intro exI [of _ s']) auto
qed

text \<open>Taking the k-th timer out and freeing its slot.\<close>

lemma timers_ok_drop:
  assumes "timers_inv lost s xs" "k < length xs" "i = xs ! k" "t = (data s ! i)\<lparr>tid := -1\<rparr>"
    "s' = timer_unlink (set_node s (Some i) t) (pos xs k)"
  shows "timers_inv lost s' (take k xs @ drop (Suc k) xs)" "id_counter s' = id_counter s" "length (data s') = length (data s)"
    "\<forall>j < length (data s). j \<noteq> i \<longrightarrow> (data s' ! j)\<lparr>tnext := None\<rparr> = (data s ! j)\<lparr>tnext := None\<rparr>"
    "(data s' ! i)\<lparr>tnext := None\<rparr> = t\<lparr>tnext := None\<rparr>"
proof -
  let ?s1 = "set_node s (Some i) t"
  have r: "ring s xs" using assms(1) by (simp add: timers_inv_def)
  have i: "i \<in> set xs" "i < length (data s)" using assms(2,3) r by (auto simp: ring_def)
  have r1: "ring ?s1 xs" by (rule ring_set_node [OF r i(2)]) (simp add: assms(4) due_at_def)
  note U = ring_unlink [OF r1 assms(2), folded assms(5)]
  have d1: "data ?s1 = (data s)[i := t]" "dummy ?s1 = dummy s" by (simp_all add: set_node_def)
  have f: "length (data s') = length (data s)" "tsize s' = tsize s" "id_counter s' = id_counter s"
    using U(2) by (auto simp: same_def)
  have ti: "tid (data s' ! j) = (if j = i then -1 else tid (data s ! j))" if "j < length (data s)" for j
    using same_slot(2) [OF U(2), of j] that d1 by (auto simp: assms(4))
  have dm: "interval (dummy s') = interval (dummy s)" "callback (dummy s') = callback (dummy s)" "callback_ctx (dummy s') = callback_ctx (dummy s)"
    using same_node [OF U(2), of None] d1(2) by (auto simp: valid_def node_def)
  have xk: "xs = take k xs @ i # drop (Suc k) xs" using assms(2,3) by (simp add: id_take_nth_drop)
  have di: "distinct xs" using r by (simp add: ring_def)
  have ys: "set (take k xs @ drop (Suc k) xs) = set xs - {i}"
    using di by (subst (asm) xk, subst (3) xk) auto
  have len: "length (take k xs @ drop (Suc k) xs) = length xs - 1" using assms(2) by simp
  have lt: "j \<in> set xs \<Longrightarrow> j < length (data s)" for j using r by (auto simp: ring_def)
  have inj: "inj_on (\<lambda>j. tid (data s' ! j)) (set xs - {i})"
  proof -
    have "inj_on (\<lambda>j. tid (data s ! j)) (set xs - {i})"
      using assms(1) by (auto simp: timers_inv_def intro: inj_on_subset)
    moreover have "inj_on (\<lambda>j. tid (data s' ! j)) (set xs - {i}) = inj_on (\<lambda>j. tid (data s ! j)) (set xs - {i})"
      using ti lt by (intro inj_on_cong) auto
    ultimately show ?thesis by simp
  qed
  show "timers_inv lost s' (take k xs @ drop (Suc k) xs)"
    unfolding timers_inv_def ys len using assms(1,2) U(1,3) f ti dm inj lt i by (auto simp: timers_inv_def)
  show "id_counter s' = id_counter s" "length (data s') = length (data s)" by fact+
  show "\<forall>j < length (data s). j \<noteq> i \<longrightarrow> (data s' ! j)\<lparr>tnext := None\<rparr> = (data s ! j)\<lparr>tnext := None\<rparr>"
    "(data s' ! i)\<lparr>tnext := None\<rparr> = t\<lparr>tnext := None\<rparr>"
    using U(2) i(2) d1 unfolding same_def by (auto simp: valid_def node_def dest: spec [of _ "Some j" for j])
qed

text \<open>The search for an id ends at a deadline that is as late as that of the sentinel.\<close>

lemma remove_loop_found:
  assumes "timers_inv lost s xs" "k \<le> j"
    "j = length (takeWhile (\<lambda>i. due_at s i < INT32_MAX \<and> tid (data s ! i) \<noteq> x) xs)"
  shows "remove_loop s x (pos xs k) = Some (if j < length xs \<and> due_at s (xs ! j) < INT32_MAX
     then timer_unlink (set_node s (Some (xs ! j)) ((data s ! (xs ! j))\<lparr>tid := -1\<rparr>)) (pos xs j) else s)"
  using assms(2)
proof (induction rule: inc_induct)
  case base
  have l: "linked s xs" "timeout (dummy s) = INT32_MAX"
    using assms(1) by (auto simp: timers_inv_def ring_def)
  have j: "j \<le> length xs" unfolding assms(3) by (rule length_takeWhile_le)
  have "j < length xs \<Longrightarrow> due_at s (xs ! j) < INT32_MAX \<Longrightarrow> tid (data s ! (xs ! j)) = x"
    unfolding assms(3) using nth_length_takeWhile by blast
  then show ?case
    using l by (subst remove_loop.simps) (auto simp: linked_D [OF l(1) j] succ_def node_simps due_at_def)
next
  case (step k)
  let ?P = "\<lambda>i. due_at s i < INT32_MAX \<and> tid (data s ! i) \<noteq> x"
  have l: "linked s xs" using assms(1) by (auto simp: timers_inv_def ring_def)
  have k: "k < length xs" using step.hyps(2) length_takeWhile_le [of ?P xs] unfolding assms(3) by linarith
  have "xs ! k \<in> set (takeWhile ?P xs)"
    using step.hyps(2) unfolding assms(3) by (metis nth_mem takeWhile_nth)
  then have "?P (xs ! k)" by (auto dest: set_takeWhileD)
  then have "remove_loop s x (pos xs k) = remove_loop s x (pos xs (Suc k))"
    using l k by (subst remove_loop.simps) (simp add: linked_D [OF l(1)] succ_def node_simps due_at_def)
  then show ?case using step.IH by (simp only:)
qed

lemma timers_remove_inv:
  assumes "timers_inv lost s xs"
  shows "\<exists>s' ys. Timers_remove s (Some x) = Some (s', Some (if x = 0 then 0 else -1)) \<and> id_counter s' = id_counter s
    \<and> timers_inv lost s' ys
    \<and> ((\<forall>i\<in>set xs. due_at s i < INT32_MAX) \<longrightarrow> ys = filter (\<lambda>i. tid (data s ! i) \<noteq> x) xs)"
proof -
  have pos: "\<forall>i\<in>set xs. 0 < tid (data s ! i)" using assms by (auto simp: timers_inv_def)
  show ?thesis
  proof (cases "x = -1 \<or> x = 0")
    case True
    then have "filter (\<lambda>i. tid (data s ! i) \<noteq> x) xs = xs" using pos by (auto intro!: filter_True)
    then show ?thesis using True assms by (auto simp: Timers_remove_def)
  next
    case False
    let ?P = "\<lambda>i. due_at s i < INT32_MAX \<and> tid (data s ! i) \<noteq> x"
    define j where "j = length (takeWhile ?P xs)"
    note L = remove_loop_found [OF assms le0 j_def]
    show ?thesis
    proof (cases "j < length xs \<and> due_at s (xs ! j) < INT32_MAX")
      case True
      then have jl: "j < length xs" by simp
      have tj: "tid (data s ! (xs ! j)) = x" using True nth_length_takeWhile [of ?P xs] unfolding j_def by blast
      have d: "distinct xs" "inj_on (\<lambda>i. tid (data s ! i)) (set xs)" using assms by (auto simp: timers_inv_def ring_def)
      have xk: "xs = take j xs @ xs ! j # drop (Suc j) xs" using jl by (simp add: id_take_nth_drop)
      have "\<forall>y\<in>set (take j xs @ drop (Suc j) xs). tid (data s ! y) \<noteq> x"
      proof
        fix y assume y: "y \<in> set (take j xs @ drop (Suc j) xs)"
        moreover have "xs ! j \<notin> set (take j xs @ drop (Suc j) xs)" using d(1) by (subst (asm) xk) simp
        moreover have "y \<in> set xs" using y by (auto dest: in_set_takeD in_set_dropD)
        ultimately show "tid (data s ! y) \<noteq> x" using d(2) tj jl by (metis inj_onD nth_mem)
      qed
      then have "filter (\<lambda>i. tid (data s ! i) \<noteq> x) xs = take j xs @ drop (Suc j) xs"
        using tj by (subst xk) (simp del: append_take_drop_id)
      then show ?thesis
        using L True False timers_ok_drop(1,2) [OF assms jl refl refl refl] by (auto simp: Timers_remove_def)
    next
      case 2: False
      have "filter (\<lambda>i. tid (data s ! i) \<noteq> x) xs = xs" if "\<forall>i\<in>set xs. due_at s i < INT32_MAX"
      proof -
        have "\<not> j < length xs" using 2 that by auto
        then have "takeWhile ?P xs = xs"
          unfolding j_def by (metis length_takeWhile_le less_le takeWhile_eq_take take_all)
        then show ?thesis by (metis (mono_tags, lifting) filter_True set_takeWhileD)
      qed
      then show ?thesis using L 2 False assms by (auto simp: Timers_remove_def)
    qed
  qed
qed

text \<open>The locked part of a round: what it does to a due first timer i.\<close>

lemma trigger_take_ok:
  assumes "timers_inv lost s (i # ys)"
  shows "\<exists>s'. trigger_take tm s = Some (Some i, s') \<and> length (data s') = length (data s) \<and> id_counter s' = id_counter s
    \<and> (\<forall>j < length (data s). j \<noteq> i \<longrightarrow> (data s' ! j)\<lparr>tnext := None\<rparr> = (data s ! j)\<lparr>tnext := None\<rparr>)
    \<and> call_of s' (Some i) = call_of s (Some i) \<and> interval (data s' ! i) = interval (data s ! i)
    \<and> (if 0 < interval (data s ! i)
       then timers_inv lost s' (insort_key (due_at s') i ys) \<and> due_at s' i = i32 (tm + interval (data s ! i))
       else timers_inv lost s' ys \<and> tid (data s' ! i) = -1)"
proof -
  have r: "ring s (i # ys)" using assms(1) by (simp add: timers_inv_def)
  have i: "i < length (data s)" "i \<notin> set ys" using r by (auto simp: ring_def)
  have p: "tnext (dummy s) = Some i" using linked_D [of s "i # ys" 0] r by (simp add: ring_def succ_def node_simps)
  show ?thesis
  proof (cases "0 < interval (data s ! i)")
    case True
    define s1 where "s1 = timer_unlink s None"
    have U: "ring s1 ys" "same s s1" "cnt s1 = cnt s - 1" using ring_unlink [OF r, of 0] by (auto simp: s1_def)
    have f1: "length (data s1) = length (data s)" "tsize s1 = tsize s" "id_counter s1 = id_counter s"
      using U(2) by (auto simp: same_def)
    define t where "t = (data s1 ! i)\<lparr>timeout := i32 (tm + interval (data s1 ! i))\<rparr>"
    define s2 where "s2 = set_node s1 (Some i) t"
    have iv: "interval (data s1 ! i) = interval (data s ! i)" "callback (data s1 ! i) = callback (data s ! i)"
      "callback_ctx (data s1 ! i) = callback_ctx (data s ! i)" "ctx (data s1 ! i) = ctx (data s ! i)" "tid (data s1 ! i) = tid (data s ! i)"
      using same_node [OF U(2), of "Some i"] i(1) by (auto simp: valid_def node_simps)
    have R2: "ring s2 ys" unfolding s2_def using U(1) i f1 by (intro ring_set_node) auto
    have d2: "data s2 = (data s1)[i := t]" "dummy s2 = dummy s1" by (simp_all add: s2_def set_node_def)
    have due2: "due_at s2 i = i32 (tm + interval (data s ! i))" using i(1) f1 by (simp add: due_at_def d2 t_def iv)
    obtain s' where s': "timer_insert s2 i = Some s'" "ring s' (insort_key (due_at s2) i ys)" "same s2 s'" "cnt s' = cnt s2 + 1"
      using ring_insert [OF R2, of i] i f1 due2 True d2 by auto
    have take: "trigger_take tm s = Some (Some i, s')"
      using True s'(1) p by (simp add: trigger_take_def Let_def node_simps s1_def [symmetric] t_def [symmetric] s2_def [symmetric])
    have f': "length (data s') = length (data s)" "tsize s' = tsize s" "id_counter s' = id_counter s" "cnt s' = cnt s"
      using s'(3,4) f1 U(3) d2 by (auto simp: same_def s2_def)
    have sl: "due_at s' j = due_at s2 j" "tid (data s' ! j) = tid (data s ! j)" if "j < length (data s)" for j
      using same_slot [OF s'(3), of j] same_slot [OF U(2), of j] that d2 f1 iv(5) by (cases "j = i"; auto simp: t_def)+
    have lt: "j \<in> set ys \<Longrightarrow> j < length (data s)" for j using r by (auto simp: ring_def)
    have k: "insort_key (due_at s') i ys = insort_key (due_at s2) i ys"
      using sl lt i(1) by (intro insort_due_cong) auto
    have dm: "interval (dummy s') = interval (dummy s)" "callback (dummy s') = callback (dummy s)" "callback_ctx (dummy s') = callback_ctx (dummy s)"
      using same_node [OF s'(3), of None] same_node [OF U(2), of None] d2 by (auto simp: valid_def node_simps)
    have inj: "inj_on (\<lambda>j. tid (data s' ! j)) (insert i (set ys)) = inj_on (\<lambda>j. tid (data s ! j)) (insert i (set ys))"
      using sl lt i by (intro inj_on_cong) auto
    have "timers_inv lost s' (insort_key (due_at s') i ys)"
      using assms(1) s'(2) f' sl lt i dm inj unfolding k by (auto simp: timers_inv_def set_insort_key)
    moreover have "due_at s' i = i32 (tm + interval (data s ! i))" using sl(1) i(1) due2 by simp
    moreover have i': "callback (data s' ! i) = callback (data s ! i)" "callback_ctx (data s' ! i) = callback_ctx (data s ! i)"
      "ctx (data s' ! i) = ctx (data s ! i)" "interval (data s' ! i) = interval (data s ! i)"
      using same_node [OF s'(3), of "Some i"] i(1) f1 d2 iv by (auto simp: valid_def node_simps t_def)
    moreover have "call_of s' (Some i) = call_of s (Some i)" using i' by (simp add: call_of_def node_simps split: option.split)
    moreover have "(data s' ! j)\<lparr>tnext := None\<rparr> = (data s ! j)\<lparr>tnext := None\<rparr>" if "j < length (data s)" "j \<noteq> i" for j
    proof -
      have "(data s' ! j)\<lparr>tnext := None\<rparr> = (data s2 ! j)\<lparr>tnext := None\<rparr>" "(data s1 ! j)\<lparr>tnext := None\<rparr> = (data s ! j)\<lparr>tnext := None\<rparr>"
        using s'(3) U(2) that d2 f1 unfolding same_def by (auto simp: valid_def node_simps dest!: spec [of _ "Some j"])
      then show ?thesis using d2 that by simp
    qed
    ultimately show ?thesis using take True f' by (intro exI [of _ s']) simp
  next
    case False
    define t where "t = (data s ! i)\<lparr>tid := -1\<rparr>"
    define s' where "s' = timer_unlink (set_node s (Some i) t) None"
    have "0 < length (i # ys)" "i = (i # ys) ! 0" "s' = timer_unlink (set_node s (Some i) t) (pos (i # ys) 0)"
      by (simp_all add: s'_def)
    note D = timers_ok_drop [OF assms(1) this(1,2) t_def this(3)]
    have take: "trigger_take tm s = Some (Some i, s')"
      using False p by (simp add: trigger_take_def Let_def node_simps s'_def t_def)
    have "(data s' ! i)\<lparr>tnext := None\<rparr> = t\<lparr>tnext := None\<rparr>" by (rule D(5))
    then have i': "callback (data s' ! i) = callback (data s ! i)" "callback_ctx (data s' ! i) = callback_ctx (data s ! i)"
      "ctx (data s' ! i) = ctx (data s ! i)" "interval (data s' ! i) = interval (data s ! i)" "tid (data s' ! i) = -1"
      unfolding t_def by (cases "data s' ! i"; cases "data s ! i"; simp)+
    then have "call_of s' (Some i) = call_of s (Some i)" by (simp add: call_of_def node_simps split: option.split)
    then show ?thesis using take False D i' by (intro exI [of _ s']) simp
  qed
qed

section \<open>Interleavings\<close>

text \<open>
  A state of the running program: the timers, the slot whose callback the trigger is about to
  call (between the unlock and the call), the calls made so far, and the number of rounds of
  the trigger that took the sentinel for a due timer. A step is one locked section of any
  thread, at any time and with any deadline, or that call.
\<close>

type_synonym tstate = "timers \<times> nat option \<times> (nat \<times> nat option) list \<times> nat"

inductive tstep :: "nat \<Rightarrow> tstate \<Rightarrow> tstate \<Rightarrow> bool" for w where
  add: "Timers_internalAdd s w now cb cb_ctx l ivl delay mode clr = Some (r, s')
     \<Longrightarrow> tstep w (s, pend, calls, d) (s', pend, calls, d)"
| remove: "Timers_remove s idp = Some (s', idp') \<Longrightarrow> tstep w (s, pend, calls, d) (s', pend, calls, d)"
| take: "due w tm s \<Longrightarrow> trigger_take tm s = Some (p, s')
     \<Longrightarrow> tstep w (s, None, calls, d) (s', p, calls, if p = None then Suc d else d)"
| call: "tstep w (s, Some i, calls, d) (s, None, calls @ call_of s (Some i), d)"

inductive_cases tstep_pending: "tstep w (s, Some i, calls, d) t"

inductive treach :: "nat \<Rightarrow> tstate \<Rightarrow> bool" for w where
  start: "cnt s = 0 \<Longrightarrow> tsize s = int (length (data s)) \<Longrightarrow> 0 < id_counter s
     \<Longrightarrow> id_counter s \<le> INT32_MAX \<Longrightarrow> interval (dummy s) \<le> 0
     \<Longrightarrow> callback (dummy s) = None \<Longrightarrow> callback_ctx (dummy s) = None \<Longrightarrow> treach w (Timers_init s, None, [], 0)"
| step: "treach w x \<Longrightarrow> tstep w x y \<Longrightarrow> treach w y"

lemma timers_init_ok:
  assumes "cnt s = 0" "tsize s = int (length (data s))" "0 < id_counter s" "id_counter s \<le> INT32_MAX" "interval (dummy s) \<le> 0"
    "callback (dummy s) = None" "callback_ctx (dummy s) = None"
  shows "timers_ok (Timers_init s) []"
  using assms by (simp add: timers_inv_def ring_def linked_def Timers_init_def succ_def node_simps)

text \<open>A round of the trigger on a list without timers unlinks the sentinel from itself.\<close>

lemma trigger_take_sentinel:
  assumes "timers_inv lost s []"
  shows "\<exists>s'. trigger_take tm s = Some (None, s') \<and> timers_inv (Suc lost) s' [] \<and> call_of s' None = []"
proof -
  have d: "tnext (dummy s) = None"
    using assms linked_D [of s "[]" 0] by (auto simp: timers_inv_def ring_def succ_def node_simps)
  then have "trigger_take tm s = Some (None, s\<lparr>dummy := (dummy s)\<lparr>tid := -1\<rparr>, cnt := cnt s - 1\<rparr>)"
    using assms by (simp add: timers_inv_def trigger_take_def timer_unlink_def set_node_def node_simps Let_def)
  then show ?thesis
    using assms d by (auto simp: timers_inv_def ring_def linked_def succ_def node_simps call_of_def)
qed

lemma timers_add_inv:
  assumes "timers_inv lost s xs" "Timers_internalAdd s w now cb cb_ctx l ivl delay mode clr = Some (r, s')"
  shows "\<exists>ys. timers_inv lost s' ys"
proof (cases "cnt s < tsize s")
  case True
  have m: "id_counter s \<le> INT32_MAX" using assms(1) by (simp add: timers_inv_def)
  moreover have "id_counter s \<noteq> INT32_MAX"
    using assms(2) True by (auto simp: Timers_internalAdd_def Let_def bind_eq_Some_iff)
  moreover obtain i where "find_unused (data s) 0 = Some i"
    using assms True by (auto simp: Timers_internalAdd_def Let_def bind_eq_Some_iff timers_inv_def)
  ultimately show ?thesis
    using timers_add_ok [OF assms(1) True, where i = i and w = w and now = now and delay = delay and cb = cb and cb_ctx = cb_ctx and l = l and ivl = ivl and mode = mode and clr = clr]
      assms(2) by auto
next
  case False
  then show ?thesis using assms by (auto simp: Timers_internalAdd_def)
qed

lemma tstep_ok:
  assumes "tstep w (s, p, calls, d) (s', p', calls', d')" "timers_inv d s xs"
  shows "\<exists>ys. timers_inv d' s' ys"
  using assms(1)
proof (cases rule: tstep.cases)
  case (add now cb cb_ctx l ivl delay mode clr r)
  then show ?thesis using timers_add_inv [OF assms(2)] by blast
next
  case (remove idp idp')
  show ?thesis
  proof (cases idp)
    case None
    then show ?thesis using remove assms(2) by (auto simp: Timers_remove_def)
  next
    case (Some a)
    then show ?thesis using timers_remove_inv [OF assms(2), of a] remove by auto
  qed
next
  case (take tm)
  show ?thesis
  proof (cases xs)
    case Nil
    then show ?thesis using trigger_take_sentinel [of d s tm] assms(2) take by auto
  next
    case (Cons i ys)
    then show ?thesis using trigger_take_ok [of d s i ys tm] assms(2) take by (auto split: if_splits)
  qed
next
  case call
  then show ?thesis using assms(2) by auto
qed

text \<open>
  C26. Whatever timers threads add and remove, at whatever times and with whatever deadlines,
  and however this interleaves with the locked sections and the callbacks of the trigger, the
  timer list stays well formed: the linked slots form a ring sorted by deadline that ends in
  the sentinel, a pool slot is in use exactly when it is linked, and the ids in use are
  positive and distinct. The count is the number of linked timers less the number d of rounds
  in which the trigger took the sentinel itself for a due timer.
\<close>

theorem timers_always_ok:
  assumes "treach w (s, p, calls, d)"
  shows "\<exists>xs. timers_inv d s xs"
proof -
  have "\<exists>xs. timers_inv (snd (snd (snd x))) (fst x) xs" if "treach w x" for x
    using that
  proof (induction rule: treach.induct)
    case (start s)
    then show ?case using timers_init_ok by auto
  next
    case (step x y)
    obtain s p calls d s' p' calls' d' where e: "x = (s, p, calls, d)" "y = (s', p', calls', d')"
      by (cases x; cases y) auto
    obtain xs where "timers_inv d s xs" using step.IH unfolding e by auto
    then show ?case using tstep_ok step.hyps(2) unfolding e by fastforce
  qed
  from this [OF assms] show ?thesis by simp
qed

definition empty_timer :: timer where
  "empty_timer = \<lparr>tid = 0, timeout = 0, interval = 0, callback = None, callback_ctx = None, ctx = 0, caller = [], tnext = None\<rparr>"

definition pool :: "nat \<Rightarrow> timers" where
  "pool n = \<lparr>data = replicate n empty_timer, dummy = empty_timer, tsize = int n, cnt = 0, id_counter = 1\<rparr>"

text \<open>
  A timer is added to an empty pool at time 5, and the trigger comes so late, at time
  2147483647, that after the timer it takes the sentinel for due as well.
\<close>

theorem timers_always_ok_witness:
  "\<exists>s. treach 32 (s, None, [(7, None)], 1) \<and> (\<exists>xs. timers_inv 1 s xs)"
proof -
  define s1 where "s1 = (pool 2)\<lparr>dummy := empty_timer\<lparr>tid := -1, timeout := INT32_MAX, tnext := Some 0\<rparr>,
     data := [empty_timer\<lparr>tid := 1, timeout := 15, interval := -1, callback := Some 7, ctx := 3, caller := ''me''\<rparr>, empty_timer\<lparr>tid := -1\<rparr>],
     cnt := 1, id_counter := 2\<rparr>"
  define s2 where "s2 = s1\<lparr>dummy := empty_timer\<lparr>tid := -1, timeout := INT32_MAX\<rparr>, data := (data s1)[0 := (data s1 ! 0)\<lparr>tid := -1\<rparr>], cnt := 0\<rparr>"
  define s3 where "s3 = s2\<lparr>cnt := -1\<rparr>"
  have r0: "treach 32 (Timers_init (pool 2), None, [], 0)"
    by (rule treach.start) (simp_all add: pool_def empty_timer_def INT32_MAX_def)
  have pi: "Timers_init (pool 2) = (pool 2)\<lparr>dummy := empty_timer\<lparr>tid := -1, timeout := INT32_MAX\<rparr>,
      data := [empty_timer\<lparr>tid := -1\<rparr>, empty_timer\<lparr>tid := -1\<rparr>]\<rparr>"
    by (simp add: Timers_init_def pool_def empty_timer_def numeral_2_eq_2)
  have ip: "insert_point s None 15 = Some None" if "dummy s = empty_timer\<lparr>tid := -1, timeout := INT32_MAX\<rparr>" for s
    using that by (subst insert_point.simps) (simp add: node_simps empty_timer_def INT32_MAX_def)
  have a: "Timers_internalAdd (Timers_init (pool 2)) 32 5 (Some 7) None 3 10 10 TIMER_SINGLE ''me'' = Some (1, s1)"
    using ip unfolding pi by (simp add: Timers_internalAdd_def node_simps Let_def s1_def timer_insert_def set_node_def ulong_def i32_def
        empty_timer_def pool_def) (simp add: INT32_MAX_def)
  have t1: "due 32 INT32_MAX s1" "trigger_take INT32_MAX s1 = Some (Some 0, s2)"
    by (simp_all add: due_def trigger_take_def timer_unlink_def node_def set_node_def s1_def s2_def pool_def empty_timer_def
        ulong_def INT32_MAX_def Let_def)
  have c: "call_of s2 (Some 0) = [(7, None)]"
    by (simp add: call_of_def node_def s2_def s1_def empty_timer_def)
  have t2: "due 32 INT32_MAX s2" "trigger_take INT32_MAX s2 = Some (None, s3)"
    by (simp_all add: due_def trigger_take_def timer_unlink_def node_def set_node_def s3_def s2_def s1_def pool_def empty_timer_def
        ulong_def INT32_MAX_def Let_def)
  have "treach 32 (s2, Some 0, [], 0)"
    using treach.step [OF treach.step [OF r0 tstep.add [OF a]] tstep.take [OF t1]] by simp
  from treach.step [OF this tstep.call] have "treach 32 (s2, None, [(7, None)], 0)" by (simp add: c)
  from treach.step [OF this tstep.take [OF t2]] have "treach 32 (s3, None, [(7, None)], 1)" by simp
  then show ?thesis using timers_always_ok by blast
qed

text \<open>How a trigger proceeds over the due prefix of the list when the callbacks leave the timers alone.\<close>

lemma takeWhile_insort:
  "tm < f i \<Longrightarrow> takeWhile (\<lambda>y. f y \<le> tm) (insort_key f i ys) = takeWhile (\<lambda>y. f y \<le> tm) ys"
  by (induction ys) auto

lemma takeWhile_due_cong:
  "(\<And>y. y \<in> set ys \<Longrightarrow> f y = g y) \<Longrightarrow> takeWhile (\<lambda>y. f y \<le> tm) ys = takeWhile (\<lambda>y. g y \<le> tm) ys"
  for f g :: "nat \<Rightarrow> int"
  by (intro takeWhile_cong) auto

lemma ulong_id: "0 \<le> x \<Longrightarrow> x < 2147483648 \<Longrightarrow> 31 \<le> w \<Longrightarrow> ulong w x = x"
proof -
  assume a: "0 \<le> x" "x < 2147483648" "31 \<le> w"
  have "(2::int) ^ 31 \<le> 2 ^ w" using a(3) by (intro power_increasing) auto
  then show ?thesis using a by (simp add: ulong_def)
qed

lemma due_iff:
  assumes "timers_ok s xs" "\<forall>i\<in>set xs. 0 \<le> due_at s i" "0 \<le> tm" "tm < INT32_MAX" "31 \<le> w"
  shows "due w tm s \<longleftrightarrow> (\<exists>i ys. xs = i # ys \<and> due_at s i \<le> tm)"
proof -
  have r: "ring s xs" using assms(1) by (simp add: timers_inv_def)
  then have p: "tnext (dummy s) = succ xs 0" "timeout (dummy s) = INT32_MAX" using linked_D [of s xs 0] by (auto simp: ring_def node_simps)
  show ?thesis
  proof (cases xs)
    case Nil
    then show ?thesis using p assms(4,5) ulong_id [of INT32_MAX w] by (simp add: due_def node_simps succ_def INT32_MAX_def)
  next
    case (Cons i ys)
    then have "0 \<le> due_at s i" "due_at s i \<le> INT32_MAX" using assms(2) r by (auto simp: ring_def)
    then show ?thesis using p Cons assms(5) ulong_id [of "due_at s i" w] by (simp add: due_def node_simps succ_def due_at_def INT32_MAX_def)
  qed
qed

lemma sorted_due_prefix:
  assumes "sorted (map f xs)" "takeWhile (\<lambda>y. f y \<le> (tm::int)) xs = []"
  shows "\<forall>i\<in>set xs. tm < f i"
  using assms by (cases xs) (auto split: if_splits)

lemma trigger_loop_due:
  assumes "timers_ok s xs" "\<forall>i\<in>set xs. 0 \<le> due_at s i" "0 \<le> tm" "tm < INT32_MAX" "31 \<le> w"
    "\<forall>i\<in>set xs. tm + interval (data s ! i) < INT32_MAX"
  shows "\<exists>s' ys. trigger_loop (\<lambda>_ s. s) w tm s calls
      = Some (s', calls @ concat (map (\<lambda>i. call_of s (Some i)) (takeWhile (\<lambda>i. due_at s i \<le> tm) xs)))
    \<and> timers_ok s' ys \<and> (\<forall>i\<in>set ys. tm < due_at s' i)
    \<and> set ys = {i \<in> set xs. tm < due_at s i \<or> 0 < interval (data s ! i)}"
  using assms(1,2,6)
proof (induction "takeWhile (\<lambda>i. due_at s i \<le> tm) xs" arbitrary: s xs calls)
  case Nil
  have so: "sorted (map (due_at s) xs)" using Nil.prems(1) by (simp add: timers_inv_def ring_def)
  have l: "\<forall>i\<in>set xs. tm < due_at s i" using sorted_due_prefix [OF so] Nil.hyps by simp
  then have "\<not> due w tm s" using due_iff [OF Nil.prems(1,2) assms(3-5)] by auto
  then have "trigger_loop (\<lambda>_ s. s) w tm s calls = Some (s, calls)" by (subst trigger_loop.simps) simp
  then show ?case using Nil.prems(1) l Nil.hyps [symmetric] by (intro exI [of _ s] exI [of _ xs]) auto
next
  case (Cons i zs)
  obtain ys where xs: "xs = i # ys" "due_at s i \<le> tm" "zs = takeWhile (\<lambda>i. due_at s i \<le> tm) ys"
    using Cons.hyps(2) by (cases xs) (auto split: if_splits)
  have r: "ring s xs" using Cons.prems(1) by (simp add: timers_inv_def)
  have iv: "0 < interval (data s ! i) \<Longrightarrow> i32 (tm + interval (data s ! i)) = tm + interval (data s ! i)"
    using Cons.prems(3) xs(1) assms(3) by (intro i32_id) (auto simp: INT32_MAX_def)
  have du: "due w tm s" using due_iff [OF Cons.prems(1,2) assms(3-5)] xs by auto
  obtain s1 where s1: "trigger_take tm s = Some (Some i, s1)" "length (data s1) = length (data s)"
    "\<forall>j < length (data s). j \<noteq> i \<longrightarrow> (data s1 ! j)\<lparr>tnext := None\<rparr> = (data s ! j)\<lparr>tnext := None\<rparr>"
    "call_of s1 (Some i) = call_of s (Some i)" "interval (data s1 ! i) = interval (data s ! i)"
    "if 0 < interval (data s ! i)
       then timers_ok s1 (insort_key (due_at s1) i ys) \<and> due_at s1 i = i32 (tm + interval (data s ! i))
       else timers_ok s1 ys \<and> tid (data s1 ! i) = -1"
    using trigger_take_ok [of 0 s i ys tm] Cons.prems(1,3) iv xs(1) by auto
  have fields: "due_at s1 j = due_at s j" "interval (data s1 ! j) = interval (data s ! j)" "call_of s1 (Some j) = call_of s (Some j)"
    if "j \<in> set ys" for j
  proof -
    have j: "j < length (data s)" "j \<noteq> i" using that r xs(1) by (auto simp: ring_def)
    then have e: "(data s1 ! j)\<lparr>tnext := None\<rparr> = (data s ! j)\<lparr>tnext := None\<rparr>" using s1(3) by simp
    have fs: "timeout (data s1 ! j) = timeout (data s ! j)" "interval (data s1 ! j) = interval (data s ! j)"
      "callback (data s1 ! j) = callback (data s ! j)" "callback_ctx (data s1 ! j) = callback_ctx (data s ! j)"
      "ctx (data s1 ! j) = ctx (data s ! j)"
      using e by (cases "data s1 ! j"; cases "data s ! j"; simp)+
    then show "due_at s1 j = due_at s j" "interval (data s1 ! j) = interval (data s ! j)" by (simp_all add: due_at_def)
    show "call_of s1 (Some j) = call_of s (Some j)" using fs by (simp add: call_of_def node_simps split: option.split)
  qed
  define xs1 where "xs1 = (if 0 < interval (data s ! i) then insort_key (due_at s1) i ys else ys)"
  have ok1: "timers_ok s1 xs1" using s1(6) by (auto simp: xs1_def split: if_splits)
  have due_i: "0 < interval (data s ! i) \<Longrightarrow> tm < due_at s1 i" using s1(6) iv by simp
  have tw: "takeWhile (\<lambda>i. due_at s1 i \<le> tm) xs1 = zs"
    unfolding xs(3) xs1_def using due_i takeWhile_insort [of tm "due_at s1" i ys]
      takeWhile_due_cong [of ys "due_at s1" "due_at s" tm] fields(1) by auto
  have sub: "set xs1 \<subseteq> insert i (set ys)" "set ys \<subseteq> set xs1" "i \<in> set xs1 \<longleftrightarrow> 0 < interval (data s ! i)"
    using r xs(1) by (auto simp: xs1_def set_insort_key ring_def)
  have nn: "\<forall>j\<in>set xs1. 0 \<le> due_at s1 j" "\<forall>j\<in>set xs1. tm + interval (data s1 ! j) < INT32_MAX"
  proof -
    have "0 \<le> due_at s1 j \<and> tm + interval (data s1 ! j) < INT32_MAX" if "j \<in> set xs1" for j
    proof (cases "j = i")
      case True
      then show ?thesis using that sub(3) due_i assms(3) s1(5) Cons.prems(3) xs(1) by auto
    next
      case False
      then have "j \<in> set ys" using that sub(1) by auto
      then show ?thesis using fields Cons.prems(2,3) xs(1) by auto
    qed
    then show "\<forall>j\<in>set xs1. 0 \<le> due_at s1 j" "\<forall>j\<in>set xs1. tm + interval (data s1 ! j) < INT32_MAX" by auto
  qed
  obtain s' zs' where R: "trigger_loop (\<lambda>_ s. s) w tm s1 (calls @ call_of s (Some i))
      = Some (s', (calls @ call_of s (Some i)) @ concat (map (\<lambda>i. call_of s1 (Some i)) zs))"
    "timers_ok s' zs'" "\<forall>i\<in>set zs'. tm < due_at s' i" "set zs' = {j \<in> set xs1. tm < due_at s1 j \<or> 0 < interval (data s1 ! j)}"
    using Cons.hyps(1) [OF tw [symmetric] ok1 nn, of "calls @ call_of s (Some i)"] tw by auto
  have zs: "map (\<lambda>i. call_of s1 (Some i)) zs = map (\<lambda>i. call_of s (Some i)) zs"
    using fields(3) unfolding xs(3) by (auto dest: set_takeWhileD)
  have "trigger_loop (\<lambda>_ s. s) w tm s calls = trigger_loop (\<lambda>_ s. s) w tm s1 (calls @ call_of s (Some i))"
    using du s1(1,4) by (subst trigger_loop.simps) simp
  moreover have "set zs' = {j \<in> set xs. tm < due_at s j \<or> 0 < interval (data s ! j)}"
    using R(4) sub fields(1,2) s1(5) xs(1,2) by auto
  ultimately show ?case using R(1-3) zs Cons.hyps(2) [symmetric] by (intro exI [of _ s'] exI [of _ zs']) auto
qed

text \<open>
  C27. Timers_trigger on a well-formed list, with deadlines and times that fit below the
  sentinel's and callbacks that leave the timers alone, returns: it calls the callbacks of
  exactly the timers that are due, in the order of their deadlines, removes those that are
  single, puts the repeated ones behind the next deadline, and leaves no due timer.
\<close>

theorem Timers_trigger_fires_due:
  assumes "timers_ok s xs" "\<forall>i\<in>set xs. 0 \<le> due_at s i" "0 \<le> now" "now < INT32_MAX" "31 \<le> w"
    "\<forall>i\<in>set xs. now + interval (data s ! i) < INT32_MAX"
  shows "\<exists>s' ys. Timers_trigger (\<lambda>_ s. s) w now s
      = Some (s', concat (map (\<lambda>i. call_of s (Some i)) (takeWhile (\<lambda>i. due_at s i \<le> now) xs)))
    \<and> timers_ok s' ys \<and> (\<forall>i\<in>set ys. now < due_at s' i)
    \<and> set ys = {i \<in> set xs. now < due_at s i \<or> 0 < interval (data s ! i)}"
proof -
  have "ulong w now = now" using assms(3-5) by (intro ulong_id) (auto simp: INT32_MAX_def)
  then show ?thesis
    using trigger_loop_due [OF assms(1-3) _ assms(5,6), of "[]"] assms(4) by (simp add: Timers_trigger_def)
qed

text \<open>One single timer with callback 7, due at time 10, in a pool of two slots.\<close>

definition one_timer :: timers where
  "one_timer = (pool 2)\<lparr>dummy := empty_timer\<lparr>tid := -1, timeout := INT32_MAX, tnext := Some 0\<rparr>,
     data := [empty_timer\<lparr>tid := 1, timeout := 10, interval := -1, callback := Some 7\<rparr>, empty_timer\<lparr>tid := -1\<rparr>],
     cnt := 1, id_counter := 2\<rparr>"

lemma one_timer_ok: "timers_ok one_timer [0]"
  by (auto simp: timers_inv_def ring_def linked_def le_Suc_eq succ_def pos_def node_simps one_timer_def pool_def
      empty_timer_def due_at_def INT32_MAX_def less_Suc_eq nth_Cons')

theorem Timers_trigger_fires_due_witness:
  "\<exists>s'. Timers_trigger (\<lambda>_ s. s) 32 12 one_timer = Some (s', [(7, None)]) \<and> timers_ok s' []"
proof -
  have f: "due_at one_timer 0 = 10" "interval (data one_timer ! 0) = -1" "call_of one_timer (Some 0) = [(7, None)]"
    by (simp_all add: one_timer_def due_at_def empty_timer_def call_of_def node_simps)
  have h: "\<forall>i\<in>set [0]. 0 \<le> due_at one_timer i" "\<forall>i\<in>set [0]. 12 + interval (data one_timer ! i) < INT32_MAX"
    by (simp_all add: f INT32_MAX_def)
  have n: "0 \<le> (12 :: int)" "12 < INT32_MAX" "31 \<le> (32 :: nat)" by (simp_all add: INT32_MAX_def)
  from Timers_trigger_fires_due [OF one_timer_ok h(1) n h(2)]
  obtain s' ys where t: "Timers_trigger (\<lambda>_ s. s) 32 12 one_timer
      = Some (s', concat (map (\<lambda>i. call_of one_timer (Some i)) (takeWhile (\<lambda>i. due_at one_timer i \<le> 12) [0])))"
    "timers_ok s' ys" "set ys = {i \<in> set [0]. 12 < due_at one_timer i \<or> 0 < interval (data one_timer ! i)}"
    by blast
  have "set ys = {}" using t(3) f by (simp add: Collect_conv_if)
  then have "ys = []" by simp
  moreover have "concat (map (\<lambda>i. call_of one_timer (Some i)) (takeWhile (\<lambda>i. due_at one_timer i \<le> 12) [0])) = [(7, None)]"
    by (simp add: f)
  ultimately show ?thesis using t(1,2) by (simp only:) blast
qed

text \<open>
  The trigger is not safe against other threads. It frees the slot of a due single timer,
  unlocks, and then reads the callback from the slot. If another thread adds a timer in between
  that gets the freed slot, the trigger calls the callback of the new timer (long before its
  deadline, and the new timer stays in the list), and never that of the timer that was due.
\<close>

theorem trigger_calls_wrong_timer:
  assumes "timers_ok s (0 # ys)" "due w tm s" "interval (data s ! 0) \<le> 0"
    "id_counter s < INT32_MAX" "tm < i32 (ulong w now + delay)"
  shows "\<exists>s1 s2 r zs. tstep w (s, None, calls, d) (s1, Some 0, calls, d)
    \<and> Timers_internalAdd s1 w now (Some cb) None l ivl delay mode clr = Some (r, s2)
    \<and> tstep w (s1, Some 0, calls, d) (s2, Some 0, calls, d) \<and> tstep w (s2, Some 0, calls, d) (s2, None, calls @ [(cb, None)], d)
    \<and> timers_ok s2 zs \<and> 0 \<in> set zs \<and> tid (data s2 ! 0) = r \<and> tm < due_at s2 0"
proof -
  have r: "ring s (0 # ys)" using assms(1) by (simp add: timers_inv_def)
  have p: "tnext (dummy s) = Some 0" using linked_D [of s "0 # ys" 0] r by (simp add: ring_def succ_def node_simps)
  obtain s1 where s1: "trigger_take tm s = Some (Some 0, s1)" "length (data s1) = length (data s)"
    "id_counter s1 = id_counter s" "timers_ok s1 ys" "tid (data s1 ! 0) = -1"
    using trigger_take_ok [OF assms(1), of tm] assms(3) by auto
  have step1: "tstep w (s, None, calls, d) (s1, Some 0, calls, d)"
    using tstep.take [OF assms(2) s1(1), of calls d] by simp
  have ne: "0 < length (data s1)" using r s1(2) by (auto simp: ring_def)
  have "length ys < length (data s)"
  proof -
    have "card (set (0 # ys)) \<le> length (data s)"
      using card_mono [of "{..<length (data s)}" "set (0 # ys)"] r by (auto simp: ring_def)
    then show ?thesis using r distinct_card [of "0 # ys"] by (auto simp: ring_def)
  qed
  then have room: "cnt s1 < tsize s1" using s1(2,4) by (simp add: timers_inv_def)
  obtain i where fu: "find_unused (data s1) 0 = Some i"
    using timers_ok_unused [OF s1(4) room] s1(4) by (auto simp: timers_inv_def)
  obtain s2 where s2: "Timers_internalAdd s1 w now (Some cb) None l ivl delay mode clr = Some (id_counter s1, s2)"
    "find_unused (data s1) 0 = Some i" "timers_ok s2 (insort_key (due_at s2) i ys)" "due_at s2 i = i32 (ulong w now + delay)"
    "callback (data s2 ! i) = Some cb" "tid (data s2 ! i) = id_counter s1"
  proof -
    have "id_counter s1 < INT32_MAX" using assms(4) s1(3) by simp
    from timers_add_ok [OF s1(4) room this fu, where w = w and now = now and delay = delay and cb = "Some cb" and cb_ctx = None and l = l and ivl = ivl and mode = mode and clr = clr] show ?thesis
      using fu by (elim exE conjE) (rule that)
  qed
  have i: "i = 0" using s2(2) s1(5) ne by (cases "data s1") auto
  have "tstep w (s1, Some 0, calls, d) (s2, Some 0, calls, d)" using tstep.add [OF s2(1)] .
  moreover have "call_of s2 (Some 0) = [(cb, None)]" using s2(5) i by (simp add: call_of_def node_simps)
  then have "tstep w (s2, Some 0, calls, d) (s2, None, calls @ [(cb, None)], d)" using tstep.call [of w s2 0 calls d] by simp
  ultimately show ?thesis using step1 s2 i assms(5) by (intro exI conjI) (auto simp: set_insort_key)
qed

theorem trigger_calls_wrong_timer_witness:
  "\<exists>s1 s2. tstep 32 (one_timer, None, [], 0) (s1, Some 0, [], 0) \<and> tstep 32 (s1, Some 0, [], 0) (s2, Some 0, [], 0)
     \<and> tstep 32 (s2, Some 0, [], 0) (s2, None, [(9, None)], 0)"
proof -
  have "due 32 12 one_timer"
    by (simp add: due_def one_timer_def node_simps empty_timer_def ulong_def)
  have f: "interval (data one_timer ! 0) = -1" "id_counter one_timer = 2" by (simp_all add: one_timer_def empty_timer_def)
  from trigger_calls_wrong_timer [OF one_timer_ok \<open>due 32 12 one_timer\<close>, where now = 12 and delay = 500 and calls = "[]" and d = 0 and cb = 9]
  show ?thesis by (simp add: f INT32_MAX_def ulong_def i32_def) blast
qed

text \<open>The rounds of the trigger loop, when the callbacks leave the timers alone.\<close>

fun trigger_rounds :: "nat \<Rightarrow> int \<Rightarrow> nat \<Rightarrow> timers \<Rightarrow> timers option" where
  "trigger_rounds w tm 0 s = Some s"
| "trigger_rounds w tm (Suc n) s = (if due w tm s then do { (p, s) \<leftarrow> trigger_take tm s; trigger_rounds w tm n s } else None)"

definition no_timers :: "timers \<Rightarrow> bool" where
  "no_timers s \<longleftrightarrow> tnext (dummy s) = None \<and> timeout (dummy s) = INT32_MAX \<and> interval (dummy s) \<le> 0
     \<and> callback (dummy s) = None \<and> callback_ctx (dummy s) = None"

lemma no_timers_take:
  assumes "no_timers s"
  shows "\<exists>s'. trigger_take tm s = Some (None, s') \<and> no_timers s' \<and> cnt s' = cnt s - 1 \<and> call_of s' None = []"
  using assms by (simp add: no_timers_def trigger_take_def timer_unlink_def set_node_def node_simps call_of_def Let_def)

text \<open>
  The sentinel is not a sentinel for the trigger. Once the time has reached its deadline,
  2147483647 ms, Timers_trigger on a list without timers never returns: every round takes the
  sentinel itself for a due timer, unlinks it from itself, counts the timers down, and finds it
  due again (for any number n of rounds).
\<close>

theorem Timers_trigger_hangs:
  assumes "timers_ok s []" "INT32_MAX \<le> ulong w now" "31 \<le> w"
  shows "(\<exists>s'. trigger_rounds w (ulong w now) n s = Some s' \<and> due w (ulong w now) s' \<and> cnt s' = - int n)
    \<and> Timers_trigger (\<lambda>_ s. s) w now s = None"
proof -
  let ?tm = "ulong w now"
  have d: "no_timers s \<Longrightarrow> due w ?tm s" for s
    using assms(2,3) ulong_id [of INT32_MAX w] by (simp add: no_timers_def due_def node_simps INT32_MAX_def)
  have "no_timers s" "cnt s = 0"
    using assms(1) linked_D [of s "[]" 0] by (auto simp: timers_inv_def ring_def no_timers_def succ_def node_simps)
  have "no_timers s \<Longrightarrow> \<exists>s'. trigger_rounds w ?tm n s = Some s' \<and> no_timers s' \<and> cnt s' = cnt s - int n" for n s
  proof (induction n arbitrary: s)
    case (Suc n)
    obtain s1 where "trigger_take ?tm s = Some (None, s1)" "no_timers s1" "cnt s1 = cnt s - 1"
      using no_timers_take [OF Suc.prems] by blast
    then show ?case using Suc.IH [of s1] d [OF Suc.prems] by auto
  qed simp
  from this [OF \<open>no_timers s\<close>, of n] have A: "\<exists>s'. trigger_rounds w ?tm n s = Some s' \<and> due w ?tm s' \<and> cnt s' = - int n"
    using d \<open>cnt s = 0\<close> by auto
  have "run = (\<lambda>_ s. s) \<longrightarrow> w' = w \<longrightarrow> tm' = ?tm \<longrightarrow> \<not> no_timers s"
    if "trigger_loop run w' tm' s calls = Some y" for run w' tm' s calls y
  proof (rule trigger_loop.raw_induct [where P = "\<lambda>run w' tm' s calls y. run = (\<lambda>_ s. s) \<longrightarrow> w' = w \<longrightarrow> tm' = ?tm \<longrightarrow> \<not> no_timers s", OF _ that])
    fix f run w' tm' s calls y
    assume IH: "\<And>run w' tm' s calls y. f run w' tm' s calls = Some y \<Longrightarrow> run = (\<lambda>_ s. s) \<longrightarrow> w' = w \<longrightarrow> tm' = ?tm \<longrightarrow> \<not> no_timers s"
      and b: "(if due w' tm' s then do { (p, s) \<leftarrow> trigger_take tm' s; f run w' tm' (run (call_of s p) s) (calls @ call_of s p) }
         else Some (s, calls)) = Some y"
    show "run = (\<lambda>_ s. s) \<longrightarrow> w' = w \<longrightarrow> tm' = ?tm \<longrightarrow> \<not> no_timers s"
    proof (intro impI notI)
      assume e: "run = (\<lambda>_ s. s)" "w' = w" "tm' = ?tm" and nt: "no_timers s"
      obtain s1 where "trigger_take ?tm s = Some (None, s1)" "no_timers s1"
        using no_timers_take [OF nt] by blast
      moreover have "due w ?tm s" using d [OF nt] .
      ultimately have "f run w' tm' s1 (calls @ call_of s1 None) = Some y" using b e by simp
      then show False using IH e \<open>no_timers s1\<close> by blast
    qed
  qed
  then have "Timers_trigger (\<lambda>_ s. s) w now s = None"
    using \<open>no_timers s\<close> by (auto simp: Timers_trigger_def intro: ccontr)
  with A show ?thesis by blast
qed

theorem Timers_trigger_hangs_witness:
  "Timers_trigger (\<lambda>_ s. s) 32 2147483647 (Timers_init (pool 2)) = None"
proof -
  have "timers_ok (Timers_init (pool 2)) []"
    by (rule timers_init_ok) (simp_all add: pool_def empty_timer_def INT32_MAX_def)
  from Timers_trigger_hangs [OF this, of 32 2147483647] show ?thesis by (simp add: INT32_MAX_def ulong_def)
qed

end
