(* ===== verification/Rect.thy ===== *)
theory Rect
  imports Prelude
begin

text \<open>
  Rectangles (Source/rect.c). Coordinates are C ints; a sum or product is wrapped to 32 bits,
  and the properties hold for coordinates small enough that it is not.
\<close>

record rect =
  x :: int
  y :: int
  width :: int
  height :: int

definition mk_rect :: "int \<Rightarrow> int \<Rightarrow> int \<Rightarrow> int \<Rightarrow> rect" where
  "mk_rect a b w h = \<lparr>x = a, y = b, width = w, height = h\<rparr>"

definition Rect_FromCoords :: "int \<Rightarrow> int \<Rightarrow> int \<Rightarrow> int \<Rightarrow> rect" where
  "Rect_FromCoords l t r b = mk_rect l t (i32 (r - l + 1)) (i32 (b - t + 1))"

definition Rect_Set :: "rect \<Rightarrow> int \<Rightarrow> int \<Rightarrow> int \<Rightarrow> int \<Rightarrow> rect" where
  "Rect_Set r a b w h = r\<lparr>x := a, y := b, width := w, height := h\<rparr>"

definition Rect_IsValid :: "rect \<Rightarrow> bool" where
  "Rect_IsValid r \<longleftrightarrow> width r > 0 \<and> height r > 0"

definition Rect_IsEmpty :: "rect \<Rightarrow> bool" where
  "Rect_IsEmpty r \<longleftrightarrow> width r = 0 \<or> height r = 0"

definition Rect_Contains :: "rect \<Rightarrow> int \<Rightarrow> int \<Rightarrow> bool" where
  "Rect_Contains r a b \<longleftrightarrow> a \<ge> x r \<and> b \<ge> y r \<and> a < i32 (x r + width r) \<and> b < i32 (y r + height r)"

definition Rect_DistSquared :: "rect \<Rightarrow> int \<Rightarrow> int \<Rightarrow> int" where
  "Rect_DistSquared r a b =
     (let tr = i32 (x r + width r - 1);
          tb = i32 (y r + height r - 1);
          hdist = (if a < x r then i32 (x r - a) else if a > tr then i32 (a - tr) else 0);
          vdist = (if b < y r then i32 (y r - b) else if b > tb then i32 (b - tb) else 0)
      in i32 (hdist * hdist + vdist * vdist))"

definition Rect_Intersects :: "rect \<Rightarrow> rect \<Rightarrow> bool" where
  "Rect_Intersects ra rb \<longleftrightarrow> x rb < i32 (x ra + width ra) \<and> y rb < i32 (y ra + height ra)
     \<and> i32 (x rb + width rb) > x ra \<and> i32 (y rb + height rb) > y ra"

definition Rect_Intersection :: "rect \<Rightarrow> rect \<Rightarrow> rect" where
  "Rect_Intersection ra rb =
     (let l = max (x ra) (x rb);
          t = max (y ra) (y rb);
          r = min (i32 (x ra + width ra)) (i32 (x rb + width rb));
          b = min (i32 (y ra + height ra)) (i32 (y rb + height rb))
      in if l > r \<or> t > b then mk_rect 0 0 0 0 else mk_rect l t (i32 (r - l)) (i32 (b - t)))"

definition Rect_Union :: "rect \<Rightarrow> rect \<Rightarrow> rect" where
  "Rect_Union ra rb =
     (if \<not> Rect_IsValid ra then rb
      else if \<not> Rect_IsValid rb then ra
      else
        (let l = min (x ra) (x rb);
             t = min (y ra) (y rb);
             r = max (i32 (x ra + width ra)) (i32 (x rb + width rb));
             b = max (i32 (y ra + height ra)) (i32 (y rb + height rb))
         in mk_rect l t (i32 (r - l)) (i32 (b - t))))"

definition Rect_Adjusted :: "rect \<Rightarrow> int \<Rightarrow> int \<Rightarrow> int \<Rightarrow> int \<Rightarrow> rect" where
  "Rect_Adjusted r dl dt dr db = Rect_FromCoords (i32 (x r + dl)) (i32 (y r + dt))
     (i32 (x r + width r - 1 + dr)) (i32 (y r + height r - 1 + db))"

definition Rect_ContainsRect :: "rect \<Rightarrow> rect \<Rightarrow> bool" where
  "Rect_ContainsRect ra rb \<longleftrightarrow> Rect_Contains ra (x rb) (y rb)
     \<and> Rect_Contains ra (i32 (x rb + width rb - 1)) (i32 (y rb + height rb - 1))"

definition Rect_Equals :: "rect \<Rightarrow> rect \<Rightarrow> bool" where
  "Rect_Equals ra rb \<longleftrightarrow> x rb = x ra \<and> y rb = y ra \<and> width rb = width ra \<and> height rb = height ra"

text \<open>Clearing the lowest bit.\<close>

definition clear_bit0 :: "int \<Rightarrow> int" where
  "clear_bit0 a = a AND NOT 1"

text \<open>None is a division by zero.\<close>

definition Rect_Fit :: "rect \<Rightarrow> rect \<Rightarrow> int \<Rightarrow> int \<Rightarrow> rect option" where
  "Rect_Fit ra rb par_n par_d =
     (if i32 (i32 (width ra * height rb) * par_d) > i32 (i32 (width rb * height ra) * par_n) then do {
        h \<leftarrow> cdiv (i32 (i32 (width rb * height ra) * par_n)) (i32 (width ra * par_d));
        Some (mk_rect (clear_bit0 0) (i32 (height rb - h) sdiv 2) (clear_bit0 (width rb)) h) }
      else do {
        w \<leftarrow> cdiv (i32 (i32 (height rb * width ra) * par_d)) (i32 (height ra * par_n));
        Some (mk_rect (clear_bit0 (i32 (width rb - w) sdiv 2)) 0 (clear_bit0 w) (height rb)) })"

section \<open>Rectangles as sets of points\<close>

text \<open>Coordinates small enough for every sum the code forms.\<close>

definition small_rect :: "rect \<Rightarrow> bool" where
  "small_rect r \<longleftrightarrow> \<bar>x r\<bar> < 2 ^ 29 \<and> \<bar>y r\<bar> < 2 ^ 29 \<and> 0 \<le> width r \<and> width r < 2 ^ 29 \<and> 0 \<le> height r \<and> height r < 2 ^ 29"

definition points :: "rect \<Rightarrow> (int \<times> int) set" where
  "points r = {(a, b). x r \<le> a \<and> a < x r + width r \<and> y r \<le> b \<and> b < y r + height r}"

lemma small_rect_sums:
  assumes "small_rect r"
  shows "i32 (x r + width r) = x r + width r" "i32 (y r + height r) = y r + height r"
    "i32 (x r + width r - 1) = x r + width r - 1" "i32 (y r + height r - 1) = y r + height r - 1"
  using assms by (auto simp: small_rect_def intro!: i32_id)

lemma Rect_Contains_points: "small_rect r \<Longrightarrow> Rect_Contains r a b \<longleftrightarrow> (a, b) \<in> points r"
  by (auto simp: Rect_Contains_def points_def small_rect_sums)

lemma mk_rect_simps [simp]:
  "x (mk_rect a b w h) = a" "y (mk_rect a b w h) = b" "width (mk_rect a b w h) = w" "height (mk_rect a b w h) = h"
  by (simp_all add: mk_rect_def)

lemma Rect_Intersection_points:
  assumes "small_rect ra" "small_rect rb"
  shows "points (Rect_Intersection ra rb) = points ra \<inter> points rb"
proof -
  note S = small_rect_sums [OF assms(1)] small_rect_sums [OF assms(2)]
  let ?l = "max (x ra) (x rb)" and ?r = "min (x ra + width ra) (x rb + width rb)"
  let ?t = "max (y ra) (y rb)" and ?b = "min (y ra + height ra) (y rb + height rb)"
  have "?l \<le> ?r \<Longrightarrow> i32 (?r - ?l) = ?r - ?l" "?t \<le> ?b \<Longrightarrow> i32 (?b - ?t) = ?b - ?t"
    using assms by (intro i32_id; auto simp: small_rect_def)+
  then show ?thesis
    by (cases "?l > ?r \<or> ?t > ?b") (auto simp: Rect_Intersection_def points_def S Let_def not_less)
qed

lemma corners:
  assumes "Rect_IsValid r"
  shows "(x r, y r) \<in> points r" "(x r + width r - 1, y r + height r - 1) \<in> points r"
  using assms by (auto simp: points_def Rect_IsValid_def)

lemma Rect_Union_hull:
  assumes "small_rect ra" "small_rect rb" "Rect_IsValid ra" "Rect_IsValid rb"
  shows "points ra \<union> points rb \<subseteq> points (Rect_Union ra rb)"
    "points ra \<union> points rb \<subseteq> points r \<Longrightarrow> points (Rect_Union ra rb) \<subseteq> points r"
proof -
  note S = small_rect_sums [OF assms(1)] small_rect_sums [OF assms(2)]
  let ?l = "min (x ra) (x rb)" and ?r = "max (x ra + width ra) (x rb + width rb)"
  let ?t = "min (y ra) (y rb)" and ?b = "max (y ra + height ra) (y rb + height rb)"
  have "i32 (?r - ?l) = ?r - ?l" "i32 (?b - ?t) = ?b - ?t"
    using assms(1,2) by (intro i32_id; auto simp: small_rect_def)+
  then have u: "Rect_Union ra rb = mk_rect ?l ?t (?r - ?l) (?b - ?t)"
    using assms(3,4) by (simp add: Rect_Union_def S Let_def)
  show "points ra \<union> points rb \<subseteq> points (Rect_Union ra rb)" by (auto simp: u points_def)
  assume sub: "points ra \<union> points rb \<subseteq> points r"
  have "(x ra, y ra) \<in> points r" "(x rb, y rb) \<in> points r" "(x ra + width ra - 1, y ra + height ra - 1) \<in> points r"
    "(x rb + width rb - 1, y rb + height rb - 1) \<in> points r"
    using sub corners [OF assms(3)] corners [OF assms(4)] by auto
  then show "points (Rect_Union ra rb) \<subseteq> points r" by (auto simp: u points_def)
qed

text \<open>
  C31. Rectangles stand for sets of pixels: for rectangles whose coordinates stay below 2^29,
  containment is membership, the intersection holds exactly the common pixels, two valid
  rectangles intersect exactly when they have one, and the union of two valid ones is the
  smallest rectangle around both.
\<close>

theorem rect_set_semantics:
  assumes "small_rect ra" "small_rect rb" "Rect_IsValid ra" "Rect_IsValid rb"
  shows "Rect_Contains ra a b = ((a, b) \<in> points ra)
    \<and> points (Rect_Intersection ra rb) = points ra \<inter> points rb
    \<and> (Rect_Intersects ra rb \<longleftrightarrow> points ra \<inter> points rb \<noteq> {})
    \<and> (Rect_ContainsRect ra rb \<longleftrightarrow> points rb \<subseteq> points ra)
    \<and> points ra \<union> points rb \<subseteq> points (Rect_Union ra rb)
    \<and> (\<forall>r. points ra \<union> points rb \<subseteq> points r \<longrightarrow> points (Rect_Union ra rb) \<subseteq> points r)"
proof -
  note S = small_rect_sums [OF assms(1)] small_rect_sums [OF assms(2)]
  have "Rect_Intersects ra rb \<longleftrightarrow> points ra \<inter> points rb \<noteq> {}"
  proof
    assume "Rect_Intersects ra rb"
    then have "(max (x ra) (x rb), max (y ra) (y rb)) \<in> points ra \<inter> points rb"
      using assms(3,4) by (auto simp: Rect_Intersects_def S points_def Rect_IsValid_def)
    then show "points ra \<inter> points rb \<noteq> {}" by blast
  qed (auto simp: Rect_Intersects_def S points_def)
  moreover have "Rect_ContainsRect ra rb \<longleftrightarrow> points rb \<subseteq> points ra"
  proof
    assume "points rb \<subseteq> points ra"
    then have "(x rb, y rb) \<in> points ra" "(x rb + width rb - 1, y rb + height rb - 1) \<in> points ra"
      using corners [OF assms(4)] by auto
    then show "Rect_ContainsRect ra rb"
      using assms(1) by (auto simp: Rect_ContainsRect_def S Rect_Contains_points)
  qed (auto simp: Rect_ContainsRect_def S Rect_Contains_points [OF assms(1)], auto simp: points_def)
  ultimately show ?thesis
    using Rect_Contains_points [OF assms(1)] Rect_Intersection_points [OF assms(1,2)] Rect_Union_hull [OF assms] by blast
qed

theorem rect_set_semantics_witness:
  "points (Rect_Intersection (mk_rect 0 0 4 3) (mk_rect 2 1 5 5)) = points (mk_rect 0 0 4 3) \<inter> points (mk_rect 2 1 5 5)"
  using rect_set_semantics [of "mk_rect 0 0 4 3" "mk_rect 2 1 5 5"] by (simp add: small_rect_def Rect_IsValid_def)

section \<open>Fitting a picture\<close>

lemma clear_bit0_mod: "clear_bit0 a = 2 * (a div 2)"
proof -
  have "a AND NOT 1 = unset_bit 0 a" by (simp add: unset_bit_eq_and_not)
  then show ?thesis by (simp only: clear_bit0_def unset_bit_0)
qed

lemma sdiv_2: "0 \<le> a \<Longrightarrow> a sdiv 2 = a div (2 :: int)"
  by (simp add: sdiv_nonneg)

lemma scaled_le:
  assumes "0 < w" "0 < h" "0 \<le> a" "a * w \<le> b * h" "c = a * w div h"
  shows "0 \<le> c" "c \<le> (b :: int)"
proof -
  show "0 \<le> c" using assms by (simp add: pos_imp_zdiv_nonneg_iff)
  have "a * w div h \<le> b * h div h" using assms(2,4) by (intro zdiv_mono1) auto
  then show "c \<le> b" using assms(2,5) by simp
qed

text \<open>
  C32. Rect_Fit of a picture of positive size with a positive pixel aspect into a destination,
  when the products fit 32 bits: it returns, the result lies inside the destination, touches two
  opposite sides of it (the full height, or the width rounded down to an even one), and its
  horizontal position and width are even.
\<close>

theorem Rect_Fit_inside:
  assumes "0 < width ra" "0 < height ra" "0 < width rb" "0 < height rb" "0 < par_n" "0 < par_d"
    and "width ra * height rb * par_d < 2 ^ 31" "width rb * height ra * par_n < 2 ^ 31"
    and "width ra * par_d < 2 ^ 31" "height ra * par_n < 2 ^ 31" "width rb < 2 ^ 31" "height rb < 2 ^ 31"
  shows "\<exists>r. Rect_Fit ra rb par_n par_d = Some r \<and> 0 \<le> x r \<and> 0 \<le> y r \<and> x r + width r \<le> width rb \<and> y r + height r \<le> height rb
    \<and> even (x r) \<and> even (width r) \<and> (height r = height rb \<or> width r = 2 * (width rb div 2))"
proof -
  let ?A = "width ra * height rb * par_d" and ?B = "width rb * height ra * par_n"
  have le: "width ra * height rb \<le> ?A" "width rb * height ra \<le> ?B"
    using mult_left_mono [of 1 par_d "width ra * height rb"] mult_left_mono [of 1 par_n "width rb * height ra"] assms(1-6)
    by simp_all
  have nn: "0 \<le> ?A" "0 \<le> ?B" "0 < width ra * par_d" "0 < height ra * par_n" "0 \<le> width ra * height rb" "0 \<le> width rb * height ra"
    "width ra \<noteq> 0" "par_d \<noteq> 0" "height ra \<noteq> 0" "par_n \<noteq> 0"
    using assms(1-6) by simp_all
  have i: "i32 (i32 (width ra * height rb) * par_d) = ?A" "i32 (i32 (width rb * height ra) * par_n) = ?B"
    "i32 (width ra * par_d) = width ra * par_d" "i32 (height ra * par_n) = height ra * par_n"
    using le nn assms(7-10) by (simp_all add: i32_id)
  have i3: "i32 (i32 (height rb * width ra) * par_d) = ?A" using i(1) by (simp add: mult.commute)
  show ?thesis
  proof (cases "?A > ?B")
    case True
    define h where "h = ?B div (width ra * par_d)"
    have "width rb * height ra * par_n * 1 \<le> height rb * (width ra * par_d)" using True by (simp add: algebra_simps)
    note H = scaled_le [OF _ nn(3) nn(2) this, of h]
    have h: "0 \<le> h" "h \<le> height rb" using H by (auto simp: h_def)
    have "i32 (height rb - h) = height rb - h" using h assms(12) by (simp add: i32_id)
    then have "Rect_Fit ra rb par_n par_d = Some (mk_rect (clear_bit0 0) ((height rb - h) div 2) (clear_bit0 (width rb)) h)"
      using True i nn h by (simp add: Rect_Fit_def cdiv_def sdiv_nonneg h_def)
    then show ?thesis using h assms(3) by (intro exI conjI) (auto simp: clear_bit0_mod)
  next
    case False
    define w where "w = ?A div (height ra * par_n)"
    have "width ra * height rb * par_d * 1 \<le> width rb * (height ra * par_n)" using False by (simp add: algebra_simps)
    note W = scaled_le [OF _ nn(4) nn(1) this, of w]
    have w: "0 \<le> w" "w \<le> width rb" using W by (auto simp: w_def)
    have "i32 (width rb - w) = width rb - w" using w assms(11) by (simp add: i32_id)
    then have r: "Rect_Fit ra rb par_n par_d = Some (mk_rect (clear_bit0 ((width rb - w) div 2)) 0 (clear_bit0 w) (height rb))"
      using False i i3 nn w by (simp add: Rect_Fit_def cdiv_def sdiv_nonneg w_def)
    have "2 * ((width rb - w) div 2 div 2) + 2 * (w div 2) \<le> width rb" "0 \<le> (width rb - w) div 2 div 2" using w by simp_all
    then show ?thesis using w unfolding r by (intro exI conjI) (auto simp: clear_bit0_mod)
  qed
qed

theorem Rect_Fit_inside_witness:
  "\<exists>r. Rect_Fit (mk_rect 0 0 1920 800) (mk_rect 0 0 1280 720) 1 1 = Some r \<and> y r + height r \<le> 720 \<and> even (width r)"
  using Rect_Fit_inside [of "mk_rect 0 0 1920 800" "mk_rect 0 0 1280 720" 1 1] by auto

end
