(* ===== verification/Util.thy ===== *)
theory Util
  imports Video_Props
begin

text \<open>
  Source/util.c: strings and their encodings, fills and small helpers. A pointer to a string is
  the list of the cells from it on, so running off the list is a read outside (None). Characters
  are bytes; toupper is that of the C locale.
\<close>

definition to_upper :: "u8 \<Rightarrow> int" where
  "to_upper c = (if 97 \<le> uint c \<and> uint c \<le> 122 then uint c - 32 else uint c)"

fun c_strlen :: "u8 list \<Rightarrow> int option" where
  "c_strlen [] = None"
| "c_strlen (c # s) = (if c = 0 then Some 0 else map_option (\<lambda>n. n + 1) (c_strlen s))"

section \<open>Numbers and fills\<close>

text \<open>The pointer p with sz bytes to go; a last odd byte is swapped with the one behind it.\<close>

function swap16_buf :: "u8 list \<Rightarrow> int \<Rightarrow> u8 list option" where
  "swap16_buf p sz =
     (if 0 < sz then (case p of a # b # r \<Rightarrow> map_option (\<lambda>r. b # a # r) (swap16_buf r (sz - 2)) | _ \<Rightarrow> None)
      else Some p)"
  by pat_completeness auto
termination by (relation "measure (\<lambda>(p, sz). nat sz)") auto

declare swap16_buf.simps [simp del]

text \<open>The digit count of the first loop (at least one round).\<close>

function count_digits :: "int \<Rightarrow> int \<Rightarrow> int" where
  "count_digits tmp r = (let tmp = tmp sdiv 10 in if tmp > 0 then count_digits tmp (r + 1) else r + 1)"
  by pat_completeness auto
termination by (relation "measure (\<lambda>(tmp, r). nat tmp)") (auto simp: signed_divide_int_def sgn_if split: if_splits)

declare count_digits.simps [simp del]

text \<open>The loop that writes digits from pnt downwards, at least one.\<close>

function put_digits :: "u8 list \<Rightarrow> int \<Rightarrow> int \<Rightarrow> int \<Rightarrow> u8 list option" where
  "put_digits buf pnt x d = do {
     buf \<leftarrow> wr buf (pnt - 1) (word_of_int (x smod 10 + 48));
     if d - 1 > 0 then put_digits buf (pnt - 1) (x sdiv 10) (d - 1) else Some buf }"
  by pat_completeness auto
termination by (relation "measure (\<lambda>(buf, pnt, x, d). nat d)") auto

declare put_digits.simps [simp del]

text \<open>The result is the buffer and the offset of the returned pointer (the terminating 0).\<close>

definition int2dez :: "int \<Rightarrow> u8 list \<Rightarrow> int \<Rightarrow> (u8 list \<times> int) option" where
  "int2dez x buf min_digit =
     (let min_digit = (if min_digit < 0 then i32 (min_digit * -1) else min_digit);
          tmp = (if x < 0 then i32 (-1 * x) else x);
          r_digit = (if min_digit = 0 then count_digits tmp 0 else 0);
          d_digit = max min_digit r_digit
      in do {
        (buf, pnt, x) \<leftarrow> (if x < 0 then do { b \<leftarrow> wr buf 0 45; Some (b, d_digit + 1, i32 (-1 * x)) } else Some (buf, d_digit, x));
        b \<leftarrow> put_digits buf pnt x d_digit;
        b \<leftarrow> wr b pnt 0;
        Some (b, pnt) })"

text \<open>
  Cells of 16 bits from the address on; misaligned is whether the address is 2 modulo 4. The middle
  loop writes two equal cells (one 32-bit pattern) at a time.
\<close>

function fill_pairs :: "u16 list \<Rightarrow> u16 \<Rightarrow> int \<Rightarrow> u16 list option" where
  "fill_pairs m v n =
     (if n > 1 then (case m of a # b # r \<Rightarrow> map_option (\<lambda>r. v # v # r) (fill_pairs r v (n - 2)) | _ \<Rightarrow> None)
      else if n > 0 then (case m of a # r \<Rightarrow> Some (v # r) | _ \<Rightarrow> None)
      else Some m)"
  by pat_completeness auto
termination by (relation "measure (\<lambda>(m, v, n). nat n)") auto

declare fill_pairs.simps [simp del]

definition memset16 :: "u16 list \<Rightarrow> bool \<Rightarrow> u16 \<Rightarrow> int \<Rightarrow> u16 list option" where
  "memset16 addr misaligned value n =
     (if misaligned then (case addr of a # r \<Rightarrow> map_option (\<lambda>r. value # r) (fill_pairs r value (n - 1)) | [] \<Rightarrow> None)
      else fill_pairs addr value n)"

text \<open>The loop runs until n is 0: it never ends well for a negative n.\<close>

fun memset32 :: "u32 list \<Rightarrow> u32 \<Rightarrow> int \<Rightarrow> u32 list option" where
  "memset32 [] value n = (if n = 0 then Some [] else None)"
| "memset32 (a # m) value n = (if n = 0 then Some (a # m) else map_option (\<lambda>m. value # m) (memset32 m value (n - 1)))"

text \<open>The hours, minutes and seconds stored.\<close>

definition sec_to_hms :: "int \<Rightarrow> int \<times> int \<times> int" where
  "sec_to_hms sec = (let mn = sec sdiv 60; hour = mn sdiv 60 in (hour, mn smod 60, sec smod 60))"

definition log2_tab :: "int list" where
  "log2_tab = [0, 0] @ concat (map (\<lambda>k. replicate (2 ^ k) (int k)) [1..<8])"

definition alog2 :: "u32 \<Rightarrow> int option" where
  "alog2 v =
     (let (v, n) = (if v AND 0xffff0000 \<noteq> 0 then (drop_bit 16 v, 16) else (v, 0));
          (v, n) = (if v AND 0xff00 \<noteq> 0 then (drop_bit 8 v, n + 8) else (v, n :: int))
      in do { t \<leftarrow> rd log2_tab (uint v); Some (n + t) })"

section \<open>Comparing and searching\<close>

fun strcmpNC :: "u8 list \<Rightarrow> u8 list \<Rightarrow> int option" where
  "strcmpNC (a # s1) (b # s2) =
     (if a \<noteq> 0 \<and> to_upper a = to_upper b then strcmpNC s1 s2 else Some (to_upper a - to_upper b))"
| "strcmpNC _ _ = None"

function suffix_loop :: "u8 list \<Rightarrow> u8 list \<Rightarrow> int \<Rightarrow> int \<Rightarrow> int option" where
  "suffix_loop str suf str_len suf_len =
     (if suf_len > 0 then do {
        a \<leftarrow> rd str (str_len - 1);
        b \<leftarrow> rd suf (suf_len - 1);
        if to_upper a = to_upper b then suffix_loop str suf (str_len - 1) (suf_len - 1)
        else Some (to_upper a - to_upper b) }
      else Some 0)"
  by pat_completeness auto
termination by (relation "measure (\<lambda>(a, b, c, n). nat n)") auto

declare suffix_loop.simps [simp del]

definition strcmpNC_suffix :: "u8 list \<Rightarrow> u8 list \<Rightarrow> int option" where
  "strcmpNC_suffix str suf = do {
     str_len \<leftarrow> c_strlen str;
     suf_len \<leftarrow> c_strlen suf;
     if suf_len > str_len then Some (-2) else suffix_loop str suf str_len suf_len }"

text \<open>The pointers are offsets i (the same for both strings); after a full match they step back.\<close>

function strncmp_loop :: "u8 list \<Rightarrow> u8 list \<Rightarrow> int \<Rightarrow> int \<Rightarrow> int option" where
  "strncmp_loop s1 s2 i len =
     (if i < 0 then None
      else if len = 0 then do { a \<leftarrow> rd s1 (i - 1); b \<leftarrow> rd s2 (i - 1); Some (to_upper a - to_upper b) }
      else do {
        a \<leftarrow> rd s1 i;
        b \<leftarrow> rd s2 i;
        if to_upper a = to_upper b then strncmp_loop s1 s2 (i + 1) (len - 1)
        else Some (to_upper a - to_upper b) })"
  by pat_completeness auto
termination by (relation "measure (\<lambda>(s1, s2, i, len). nat (int (length s1) + 1 - i))") (auto simp: rd_def split: if_splits)

declare strncmp_loop.simps [simp del]

definition strncmpNC :: "u8 list \<Rightarrow> u8 list \<Rightarrow> int \<Rightarrow> int option" where
  "strncmpNC s1 s2 len = strncmp_loop s1 s2 0 len"

text \<open>
  cp is the rest of the pattern to find, found the offset of the first matched character; i the
  offset of the string pointer. The result is the offset of the match, None inside for NULL.
\<close>

fun strstr_loop :: "u8 list \<Rightarrow> int \<Rightarrow> u8 list \<Rightarrow> u8 list \<Rightarrow> int option \<Rightarrow> int option option" where
  "strstr_loop [] i pat cp found = None"
| "strstr_loop (c # s) i pat cp found =
     (if c = 0 then Some None
      else (case cp of [] \<Rightarrow> None
        | d # cp \<Rightarrow>
            if to_upper c = to_upper d then
              (let found = (case found of None \<Rightarrow> Some i | Some j \<Rightarrow> Some j) in
               case cp of [] \<Rightarrow> None
               | e # _ \<Rightarrow> if e = 0 then Some found else strstr_loop s (i + 1) pat cp found)
            else strstr_loop s (i + 1) pat pat None))"

definition strstrNC :: "u8 list \<Rightarrow> u8 list \<Rightarrow> int option option" where
  "strstrNC str pat = strstr_loop str 0 pat pat None"

text \<open>The offset 0 is the string; a negative one lies before it.\<close>

definition chomp :: "u8 list \<Rightarrow> u8 list option" where
  "chomp str = do {
     len \<leftarrow> c_strlen str;
     c \<leftarrow> rd str (len - 1);
     if c = 10 then wr str (len - 1) 0 else Some str }"

section \<open>Unicode\<close>

definition word6 :: "u16 \<Rightarrow> u8 \<Rightarrow> u16" where
  "word6 w c = push_bit 6 w OR ucast (c AND 0x3F)"

text \<open>The 16-bit words decoded from a string, at most mx of them.\<close>

fun utf8_words :: "u8 list \<Rightarrow> int \<Rightarrow> u16 list option" where
  "utf8_words [] mx = None"
| "utf8_words (c # s) mx =
     (if c = 0 \<or> mx \<le> 0 then Some []
      else if c AND 0x80 = 0 then map_option (\<lambda>ws. ucast c # ws) (utf8_words s (mx - 1))
      else if c AND 0xE0 = 0xC0 then
        (case s of d # s \<Rightarrow> map_option (\<lambda>ws. word6 (ucast (c AND 0x1F)) d # ws) (utf8_words s (mx - 1)) | [] \<Rightarrow> None)
      else if c AND 0xF0 = 0xE0 then
        (case s of d # e # s \<Rightarrow> map_option (\<lambda>ws. word6 (word6 (ucast (c AND 0x1F)) d) e # ws) (utf8_words s (mx - 1)) | _ \<Rightarrow> None)
      else map_option (\<lambda>ws. 63 # ws) (utf8_words s (mx - 1)))"

text \<open>The result: the number of words and the destination with the words and the ending 0.\<close>

definition utf8_to_utf16 :: "u16 list \<Rightarrow> u8 list \<Rightarrow> int \<Rightarrow> (int \<times> u16 list) option" where
  "utf8_to_utf16 utf16 utf8 utf16_max = do {
     ws \<leftarrow> utf8_words utf8 utf16_max;
     m \<leftarrow> wr_blk utf16 0 (ws @ [0]);
     Some (int (length ws), m) }"

definition u16_bytes :: "u16 \<Rightarrow> u8 list" where
  "u16_bytes w =
     (if w \<le> 0x7F then [ucast w]
      else if w \<le> 0x7FF then [0xC0 OR ucast (drop_bit 6 w), 0x80 OR ucast (w AND 0x3F)]
      else [0xE0 OR ucast (drop_bit 12 w), 0x80 OR ucast (drop_bit 6 w AND 0x3F), 0x80 OR ucast (w AND 0x3F)])"

definition unicode_utf16_to_utf8 :: "u8 list \<Rightarrow> u16 list \<Rightarrow> int \<Rightarrow> (int \<times> u8 list) option" where
  "unicode_utf16_to_utf8 utf8 utf16 len =
     (if len \<le> 0 then do { m \<leftarrow> wr utf8 0 0; Some (0, m) }
      else do {
        ws \<leftarrow> rd_blk utf16 0 len;
        let bs = concat (map u16_bytes ws);
        m \<leftarrow> wr_blk utf8 0 (bs @ [0]);
        Some (int (length bs), m) })"

text \<open>The bytes of the words that still fit in mx.\<close>

fun utf16_to_utf8_loop :: "u16 list \<Rightarrow> int \<Rightarrow> u8 list option" where
  "utf16_to_utf8_loop [] mx = None"
| "utf16_to_utf8_loop (w # s) mx =
     (if w = 0 \<or> mx < int (length (u16_bytes w)) then Some []
      else map_option (\<lambda>bs. u16_bytes w @ bs) (utf16_to_utf8_loop s (mx - int (length (u16_bytes w)))))"

definition utf16_to_utf8 :: "u8 list \<Rightarrow> u16 list \<Rightarrow> int \<Rightarrow> u8 list option" where
  "utf16_to_utf8 utf8 utf16 utf8_max = do {
     bs \<leftarrow> utf16_to_utf8_loop utf16 utf8_max;
     wr_blk utf8 0 (bs @ [0]) }"

text \<open>len characters left in s. A control character of the upper half (below 0xA0) is dropped.\<close>

fun latin1_loop :: "u8 list \<Rightarrow> int \<Rightarrow> int \<Rightarrow> u8 list option" where
  "latin1_loop [] len max_len = (if len > 0 \<and> max_len > 1 then None else Some [])"
| "latin1_loop (c # s) len max_len =
     (if len > 0 \<and> max_len > 1 then
        (if c < 0x80 then map_option (\<lambda>d. c # d) (latin1_loop s (len - 1) (max_len - 1))
         else if c \<ge> 0xA0 then
           map_option (\<lambda>d. (0xC0 + (drop_bit 6 c AND 3)) # (0x80 + (c AND 0x3F)) # d) (latin1_loop s (len - 1) (max_len - 2))
         else latin1_loop s (len - 1) max_len)
      else Some [])"

definition latin1_to_utf8 :: "u8 list \<Rightarrow> u8 list \<Rightarrow> int \<Rightarrow> u8 list option" where
  "latin1_to_utf8 d s max_len = do {
     len \<leftarrow> c_strlen s;
     bs \<leftarrow> latin1_loop s len max_len;
     wr_blk d 0 (bs @ [0]) }"

text \<open>One character: the word stored and the string behind it. A cut sequence stops at the ending 0.\<close>

definition u8_to_u16 :: "u8 list \<Rightarrow> (u16 \<times> u8 list) option" where
  "u8_to_u16 s = (case s of [] \<Rightarrow> None | c # s' \<Rightarrow>
     if c = 0 then Some (0, s)
     else if c AND 0x80 = 0 then Some (ucast c, s')
     else if c AND 0xE0 = 0xC0 then
       (let w = push_bit 6 (ucast (c AND 0x1F)) in
        case s' of [] \<Rightarrow> None | d # s'' \<Rightarrow> if d = 0 then Some (w, s') else Some (w OR ucast (d AND 0x3F), s''))
     else if c AND 0xF0 = 0xE0 then
       (let w = push_bit 6 (ucast (c AND 0x1F)) in
        case s' of [] \<Rightarrow> None | d # s'' \<Rightarrow>
          if d = 0 then Some (w, s')
          else (let w = push_bit 6 (w OR ucast (d AND 0x3F)) in
            case s'' of [] \<Rightarrow> None | e # s3 \<Rightarrow> if e = 0 then Some (w, s'') else Some (w OR ucast (e AND 0x3F), s3)))
     else Some (63, s'))"

definition w_upper :: "u16 \<Rightarrow> int" where
  "w_upper w = (if 97 \<le> uint w \<and> uint w \<le> 122 then uint w - 32 else uint w)"

definition cmp_dict :: "u16 \<Rightarrow> u16 \<Rightarrow> int" where
  "cmp_dict w1 w2 = w_upper w1 - w_upper w2"

lemma u8_to_u16_shorter:
  "u8_to_u16 s = Some (w, s') \<Longrightarrow> s \<noteq> [] \<Longrightarrow> hd s \<noteq> 0 \<Longrightarrow> length s' < length s"
  by (auto simp: u8_to_u16_def Let_def split: list.splits if_splits)

function strcmp_dict :: "u8 list \<Rightarrow> u8 list \<Rightarrow> int option" where
  "strcmp_dict u1 u2 = (case (u1, u2) of
     (a # _, b # _) \<Rightarrow>
       if a \<noteq> 0 \<and> b \<noteq> 0 then (case u8_to_u16 u1 of None \<Rightarrow> None
         | Some (w1, u1') \<Rightarrow> (case u8_to_u16 u2 of None \<Rightarrow> None
             | Some (w2, u2') \<Rightarrow> if cmp_dict w1 w2 \<noteq> 0 then Some (cmp_dict w1 w2) else strcmp_dict u1' u2'))
       else do {
         (w1, _) \<leftarrow> (if a \<noteq> 0 then u8_to_u16 u1 else Some (0, u1));
         (w2, _) \<leftarrow> (if b \<noteq> 0 then u8_to_u16 u2 else Some (0, u2));
         Some (cmp_dict w1 w2) }
   | _ \<Rightarrow> None)"
  by pat_completeness auto
termination by (relation "measure (\<lambda>(u1, u2). length u1)") (auto dest: u8_to_u16_shorter)

declare strcmp_dict.simps [simp del]

section \<open>The encodings are inverse\<close>

lemma small_bits:
  assumes "uint w < 2 ^ k" "bit (w :: 'a::len word) n"
  shows "n < k"
proof (rule ccontr)
  assume "\<not> n < k"
  then have "(2::int) ^ k \<le> 2 ^ n" by (intro power_increasing) auto
  then have "uint w < 2 ^ n" using assms(1) by linarith
  then have "uint w div 2 ^ n = 0" by (intro div_pos_pos_trivial) auto
  moreover have "bit (uint w) n" using assms(2) by (simp add: bit_uint_iff bit_imp_le_length)
  ultimately show False by (simp add: bit_iff_odd)
qed

lemma split6: "push_bit 6 (drop_bit 6 w) OR (w AND 0x3F) = (w :: u16)"
proof -
  have "(0x3F :: u16) = mask 6" by (simp add: mask_eq_exp_minus_1)
  show ?thesis unfolding \<open>(0x3F :: u16) = mask 6\<close>
    by (rule bit_word_eqI) (auto simp: bit_push_bit_iff bit_drop_bit_eq bit_and_iff bit_or_iff bit_mask_iff)
qed

text \<open>A word of few bits survives the narrowing to a byte.\<close>

lemma narrow:
  assumes "uint (w :: u16) < 256"
  shows "ucast (ucast w :: u8) = w" "uint (ucast w :: u8) = uint w"
proof -
  show "ucast (ucast w :: u8) = w"
    by (rule bit_word_eqI) (use small_bits [of w 8] assms in \<open>force simp: bit_ucast_iff\<close>)
  show "uint (ucast w :: u8) = uint w" using assms by (simp add: unsigned_ucast_eq take_bit_int_eq_self)
qed

lemma and_mask_id:
  assumes "uint (c :: u8) < 2 ^ k"
  shows "c AND mask k = c"
  by (rule bit_word_eqI) (use small_bits [of c k] assms in \<open>auto simp: bit_and_iff bit_mask_iff\<close>)

lemma and_low: "uint (w AND 0x3F :: u16) < 64"
  by (simp add: uint_and AND_upper2' [of 63, simplified])

lemma high_part: "uint (c :: u8) < 2 ^ k \<Longrightarrow> c AND push_bit k m = 0"
  by (rule bit_word_eqI) (use small_bits [of c k] in \<open>force simp: bit_and_iff bit_push_bit_iff\<close>)

lemma continuation: "ucast ((0x80 OR ucast (w AND 0x3F) :: u8) AND 0x3F) = (w AND 0x3F :: u16)"
proof -
  have m: "(0x3F :: u8) = mask 6" by (simp add: mask_eq_exp_minus_1)
  have l: "uint (w AND 0x3F) < 256" "uint (ucast (w AND 0x3F) :: u8) < 2 ^ 6"
    using and_low [of w] narrow(2) [of "w AND 0x3F"] by simp_all
  have "(0x80 OR ucast (w AND 0x3F) :: u8) AND 0x3F = ucast (w AND 0x3F) AND 0x3F"
    by (simp add: bit.conj_disj_distrib2)
  also have "\<dots> = ucast (w AND 0x3F)" unfolding m using and_mask_id [OF l(2)] by simp
  finally show ?thesis using narrow(1) [OF l(1)] by simp
qed

lemma lead_byte:
  assumes "uint (c :: u8) < 32"
  shows "(0xC0 OR c) AND 0x1F = c" "(0xC0 OR c) AND 0xE0 = 0xC0" "(0xC0 OR c) AND 0x80 \<noteq> 0"
proof -
  have m: "(0x1F :: u8) = mask 5" "(0xE0 :: u8) = push_bit 5 7" "(0x80 :: u8) = push_bit 5 4"
    by (simp_all add: mask_eq_exp_minus_1 push_bit_eq_mult)
  have z: "c AND 0xE0 = 0" "c AND 0x80 = 0" unfolding m(2,3) by (rule high_part; use assms in simp)+
  have "(0xC0 OR c) AND 0x1F = c AND 0x1F" by (simp add: bit.conj_disj_distrib2)
  then show "(0xC0 OR c) AND 0x1F = c" unfolding m(1) using and_mask_id [of c 5] assms by simp
  show "(0xC0 OR c) AND 0xE0 = 0xC0" by (simp add: bit.conj_disj_distrib2 z)
  show "(0xC0 OR c) AND 0x80 \<noteq> 0" by (simp add: bit.conj_disj_distrib2 z)
qed

lemma lead_byte3:
  assumes "uint (c :: u8) < 16"
  shows "(0xE0 OR c) AND 0x1F = c" "(0xE0 OR c) AND 0xF0 = 0xE0" "(0xE0 OR c) AND 0xE0 \<noteq> 0xC0" "(0xE0 OR c) AND 0x80 \<noteq> 0"
proof -
  have m: "(0x1F :: u8) = mask 5" "(0xF0 :: u8) = push_bit 4 15" "(0xE0 :: u8) = push_bit 4 14" "(0x80 :: u8) = push_bit 4 8"
    by (simp_all add: mask_eq_exp_minus_1 push_bit_eq_mult)
  have z: "c AND 0xF0 = 0" "c AND 0xE0 = 0" "c AND 0x80 = 0" unfolding m(2-4) by (rule high_part; use assms in simp)+
  have "(0xE0 OR c) AND 0x1F = c AND 0x1F" by (simp add: bit.conj_disj_distrib2)
  then show "(0xE0 OR c) AND 0x1F = c" unfolding m(1) using and_mask_id [of c 5] assms by simp
  show "(0xE0 OR c) AND 0xF0 = 0xE0" by (simp add: bit.conj_disj_distrib2 z)
  show "(0xE0 OR c) AND 0xE0 \<noteq> 0xC0" "(0xE0 OR c) AND 0x80 \<noteq> 0" by (simp_all add: bit.conj_disj_distrib2 z)
qed

lemma uint_drop: "uint (drop_bit k (w :: u16)) = uint w div 2 ^ k"
proof -
  have "uint (drop_bit k w) = drop_bit k (uint w)"
    by (rule bit_eqI) (auto simp: bit_uint_iff bit_drop_bit_eq dest: bit_imp_le_length)
  then show ?thesis by (simp only: drop_bit_eq_div)
qed

lemma utf8_word_1:
  assumes "w \<le> (0x7F :: u16)"
  shows "ucast (ucast w :: u8) = w" "(ucast w :: u8) AND 0x80 = 0" "w \<noteq> 0 \<Longrightarrow> (ucast w :: u8) \<noteq> 0"
proof -
  have l: "uint w < 128" using assms by (simp add: word_le_def)
  then show u: "ucast (ucast w :: u8) = w" by (intro narrow) simp
  have m: "(0x80 :: u8) = push_bit 7 1" by (simp add: push_bit_eq_mult)
  have "uint (ucast w :: u8) < 2 ^ 7" using l narrow(2) [of w] by simp
  then show "(ucast w :: u8) AND 0x80 = 0" unfolding m by (rule high_part)
  show "(ucast w :: u8) \<noteq> 0" if "w \<noteq> 0" using u that by force
qed

lemma utf8_word_2:
  assumes "w \<le> (0x7FF :: u16)"
  shows "word6 (ucast ((0xC0 OR ucast (drop_bit 6 w) :: u8) AND 0x1F)) (0x80 OR ucast (w AND 0x3F)) = w"
    "(0xC0 OR ucast (drop_bit 6 w) :: u8) AND 0xE0 = 0xC0" "(0xC0 OR ucast (drop_bit 6 w) :: u8) AND 0x80 \<noteq> 0"
proof -
  have "uint w < 2048" using assms by (simp add: word_le_def)
  then have l: "uint (drop_bit 6 w) < 32" unfolding uint_drop by (simp add: div_less_iff_less_mult)
  then have c: "uint (ucast (drop_bit 6 w) :: u8) < 32" using narrow(2) [of "drop_bit 6 w"] by simp
  show "word6 (ucast ((0xC0 OR ucast (drop_bit 6 w) :: u8) AND 0x1F)) (0x80 OR ucast (w AND 0x3F)) = w"
    using narrow(1) [of "drop_bit 6 w"] l split6 [of w] by (simp only: word6_def lead_byte(1) [OF c] continuation)
  show "(0xC0 OR ucast (drop_bit 6 w) :: u8) AND 0xE0 = 0xC0" "(0xC0 OR ucast (drop_bit 6 w) :: u8) AND 0x80 \<noteq> 0"
    using lead_byte [OF c] by simp_all
qed

lemma utf8_word_3:
  fixes w :: u16
  shows "word6 (word6 (ucast ((0xE0 OR ucast (drop_bit 12 w) :: u8) AND 0x1F)) (0x80 OR ucast (drop_bit 6 w AND 0x3F))) (0x80 OR ucast (w AND 0x3F)) = w"
    "(0xE0 OR ucast (drop_bit 12 w) :: u8) AND 0xF0 = 0xE0" "(0xE0 OR ucast (drop_bit 12 w) :: u8) AND 0xE0 \<noteq> 0xC0"
    "(0xE0 OR ucast (drop_bit 12 w) :: u8) AND 0x80 \<noteq> 0"
proof -
  have "uint w < 65536" using uint_lt2p [of w] by simp
  then have l: "uint (drop_bit 12 w) < 16" unfolding uint_drop by (simp add: div_less_iff_less_mult)
  then have c: "uint (ucast (drop_bit 12 w) :: u8) < 16" using narrow(2) [of "drop_bit 12 w"] by simp
  have d: "drop_bit 6 (drop_bit 6 w) = drop_bit 12 w" by simp
  have n: "ucast (ucast (drop_bit 12 w) :: u8) = drop_bit 12 w" using narrow(1) [of "drop_bit 12 w"] l by simp
  show "word6 (word6 (ucast ((0xE0 OR ucast (drop_bit 12 w) :: u8) AND 0x1F)) (0x80 OR ucast (drop_bit 6 w AND 0x3F))) (0x80 OR ucast (w AND 0x3F)) = w"
    using split6 [of "drop_bit 6 w"] split6 [of w] by (simp only: word6_def lead_byte3(1) [OF c] continuation n d)
  show "(0xE0 OR ucast (drop_bit 12 w) :: u8) AND 0xF0 = 0xE0" "(0xE0 OR ucast (drop_bit 12 w) :: u8) AND 0xE0 \<noteq> 0xC0"
    "(0xE0 OR ucast (drop_bit 12 w) :: u8) AND 0x80 \<noteq> 0"
    using lead_byte3 [OF c] by simp_all
qed

lemma utf8_words_u16_bytes:
  assumes "w \<noteq> 0" "0 < mx"
  shows "utf8_words (u16_bytes w @ s) mx = map_option (\<lambda>ws. w # ws) (utf8_words s (mx - 1))"
proof -
  have nz: "c AND k \<noteq> 0 \<Longrightarrow> c \<noteq> 0" for c k :: u8 by auto
  consider "w \<le> 0x7F" | "\<not> w \<le> 0x7F" "w \<le> 0x7FF" | "\<not> w \<le> 0x7F" "\<not> w \<le> 0x7FF" by blast
  then show ?thesis
  proof cases
    case 1
    then show ?thesis using utf8_word_1 [OF 1] assms by (simp add: u16_bytes_def)
  next
    case 2
    then show ?thesis using utf8_word_2 [OF 2(2)] nz [OF utf8_word_2(3) [OF 2(2)]] assms by (simp add: u16_bytes_def)
  next
    case 3
    then show ?thesis using utf8_word_3 [of w] nz [OF utf8_word_3(4) [of w]] assms by (simp add: u16_bytes_def)
  qed
qed

lemma utf8_words_roundtrip:
  "0 \<notin> set ws \<Longrightarrow> int (length ws) \<le> mx \<Longrightarrow> utf8_words (concat (map u16_bytes ws) @ 0 # rest) mx = Some ws"
proof (induction ws arbitrary: mx)
  case (Cons w ws)
  have "utf8_words (concat (map u16_bytes ws) @ 0 # rest) (mx - 1) = Some ws" using Cons by auto
  then show ?case using Cons.prems utf8_words_u16_bytes [of w mx "concat (map u16_bytes ws) @ 0 # rest"] by auto
qed simp

text \<open>
  C29. UTF-8 round trip. unicode_utf16_to_utf8 of len words (none of them 0) writes the encoded
  string with its ending 0 and returns its byte count if there is room, and utf8_to_utf16 of
  the written string gives the words back, followed by a 0, with their number, for every 16-bit
  word.
\<close>

theorem utf8_roundtrip:
  assumes "0 \<notin> set ws" "ws \<noteq> []" "length (concat (map u16_bytes ws)) < length dest" "length ws < length dest16"
    and "int (length ws) \<le> mx"
  shows "\<exists>m. unicode_utf16_to_utf8 dest ws (int (length ws)) = Some (int (length (concat (map u16_bytes ws))), m)
    \<and> utf8_to_utf16 dest16 m mx = Some (int (length ws), ws @ [0] @ drop (length ws + 1) dest16)"
proof -
  let ?bs = "concat (map u16_bytes ws)"
  let ?m = "(?bs @ [0]) @ drop (length ?bs + 1) dest"
  have "unicode_utf16_to_utf8 dest ws (int (length ws)) = Some (int (length ?bs), ?m)"
    using assms(2,3) by (simp add: unicode_utf16_to_utf8_def Let_def rd_blk_def wr_blk_def put_at_def)
  moreover have "utf8_words ?m mx = Some ws" using utf8_words_roundtrip [OF assms(1,5)] by simp
  ultimately show ?thesis
    using assms(4) by (simp add: utf8_to_utf16_def wr_blk_def put_at_def)
qed

theorem utf8_roundtrip_witness:
  "\<exists>m. unicode_utf16_to_utf8 (replicate 8 1) [0x41, 0xE9, 0x20AC] 3 = Some (6, m)
     \<and> utf8_to_utf16 (replicate 5 7) m 3 = Some (3, [0x41, 0xE9, 0x20AC, 0, 7])"
  using utf8_roundtrip [of "[0x41, 0xE9, 0x20AC]" "replicate 8 1" "replicate 5 7" 3] by (simp add: u16_bytes_def)

text \<open>
  The size arguments of the converters do not count the ending 0. utf8_to_utf16 with
  utf16_max equal to the number of words of the string writes utf16_max + 1 words, so a
  destination of exactly utf16_max words is overrun; a sequence cut by the end of the string makes it
  read behind the terminator; and latin1_to_utf8 with max_len 2 and a character from 0xA0 on
  writes three bytes.
\<close>

theorem converters_overrun:
  assumes "0 \<notin> set ws" "length dest16 = length ws" "0xA0 \<le> (c :: u8)" "length dest = 2"
  shows "utf8_to_utf16 dest16 (concat (map u16_bytes ws) @ [0]) (int (length ws)) = None
    \<and> utf8_to_utf16 dest16' [0xC3, 0] 2 = None
    \<and> latin1_to_utf8 dest [c, 0] 2 = None"
proof -
  have "utf8_words (concat (map u16_bytes ws) @ [0]) (int (length ws)) = Some ws"
    by (rule utf8_words_roundtrip [OF assms(1) order_refl])
  moreover have "\<not> c < 0x80" "c \<noteq> 0" using assms(3) by (auto simp: word_less_def word_le_def)
  ultimately show ?thesis
    using assms by (simp add: utf8_to_utf16_def wr_blk_def latin1_to_utf8_def)
qed

theorem converters_overrun_witness:
  "utf8_to_utf16 [0, 0] [0x41, 0x42, 0] 2 = None \<and> latin1_to_utf8 [0, 0] [0xE9, 0] 2 = None"
  using converters_overrun [of "[0x41, 0x42]" "[0, 0]" "0xE9" "[0, 0]" "[]"] by (simp add: u16_bytes_def)

section \<open>Searching\<close>

lemma strstr_loop_sound:
  assumes "strstr_loop s (int (length pre)) (p @ 0 # rest) (r @ 0 # rest) found = Some (Some j)"
    "0 \<notin> set p" "p = q @ r" "r \<noteq> []" "length q \<le> length pre"
    "map to_upper (drop (length pre - length q) pre) = map to_upper q"
    "found = (if q = [] then None else Some (int (length pre - length q)))"
  shows "\<exists>k. j = int k \<and> map to_upper (take (length p) (drop k (pre @ s))) = map to_upper p"
  using assms
proof (induction s arbitrary: pre r q found)
  case (Cons c s)
  obtain d r' where r: "r = d # r'" using Cons.prems(4) by (cases r) auto
  let ?k = "length pre - length q"
  have nz: "c \<noteq> 0" using Cons.prems(1) r by auto
  have i: "int (length pre) + 1 = int (length (pre @ [c]))" by simp
  show ?case
  proof (cases "to_upper c = to_upper d")
    case True
    have f: "(case found of None \<Rightarrow> Some (int (length pre)) | Some j \<Rightarrow> Some j) = Some (int ?k)"
      using Cons.prems(7) by auto
    have m: "map to_upper (drop ?k (pre @ [c])) = map to_upper (q @ [d])"
      using Cons.prems(5,6) True by simp
    show ?thesis
    proof (cases r')
      case Nil
      then have "j = int ?k" using Cons.prems(1) nz r True f by (simp add: Let_def)
      moreover have "take (length p) (drop ?k (pre @ c # s)) = drop ?k (pre @ [c])"
        using Cons.prems(3,5) r Nil by simp
      ultimately show ?thesis using m Cons.prems(3) r Nil by (intro exI [of _ ?k]) simp
    next
      case (Cons e r'')
      have e: "e \<noteq> 0" using Cons.prems(2,3) r Cons by auto
      have "strstr_loop s (int (length (pre @ [c]))) (p @ 0 # rest) (r' @ 0 # rest) (Some (int ?k)) = Some (Some j)"
        using Cons.prems(1) nz r True f Cons e unfolding i [symmetric] by (simp add: Let_def)
      from Cons.IH [OF this Cons.prems(2), of "q @ [d]"] show ?thesis
        using Cons.prems(3,5) r Cons m by simp
    qed
  next
    case False
    then have "strstr_loop s (int (length (pre @ [c]))) (p @ 0 # rest) (p @ 0 # rest) None = Some (Some j)"
      using Cons.prems(1) nz r unfolding i [symmetric] by simp
    from Cons.IH [OF this Cons.prems(2), of "[]"] show ?thesis using Cons.prems(3) r by simp
  qed
qed simp

text \<open>
  What strstrNC finds is an occurrence: at the offset it returns the string equals the
  searched text up to case. It does not find every occurrence: after a partial match it goes on
  behind the mismatch instead of behind the first matched character, so it does not find the
  text ab in aab.
\<close>

theorem strstrNC_sound_incomplete:
  assumes "strstrNC str (p @ 0 # rest) = Some (Some j)" "0 \<notin> set p" "p \<noteq> []"
  shows "(\<exists>k. j = int k \<and> map to_upper (take (length p) (drop k str)) = map to_upper p)
    \<and> strstrNC [97, 97, 98, 0] [97, 98, 0] = Some None"
proof -
  have "strstrNC [97, 97, 98, 0] [97, 98, 0] = Some None" by (simp add: strstrNC_def to_upper_def)
  then show ?thesis
    using strstr_loop_sound [of str "[]" p rest p None j "[]"] assms by (simp add: strstrNC_def)
qed

theorem strstrNC_sound_incomplete_witness:
  "strstrNC [120, 65, 98, 0] [97, 66, 0] = Some (Some 1) \<and> map to_upper (take 2 (drop 1 [120, 65, 98, 0])) = map to_upper [97, 66]"
proof -
  have f: "strstrNC [120, 65, 98, 0] ([97, 66] @ 0 # []) = Some (Some 1)" by (simp add: strstrNC_def to_upper_def)
  obtain k where "1 = int k" "map to_upper (take 2 (drop k [120, 65, 98, 0])) = map to_upper [97, 66]"
    using strstrNC_sound_incomplete [OF f] by auto
  then show ?thesis using f by simp
qed

section \<open>The base-two logarithm\<close>

text \<open>alog2 is the position of the highest set bit (and 0 for 0).\<close>

lemma unat_and_high:
  fixes v :: "u32"
  assumes "k + j \<le> 32"
  shows "unat (v AND push_bit k (mask j)) = unat v div 2 ^ k mod 2 ^ j * 2 ^ k"
proof -
  have "v AND push_bit k (mask j) = push_bit k (take_bit j (drop_bit k v))"
    by (rule bit_word_eqI) (use assms in \<open>auto simp: bit_simps\<close>)
  moreover have "unat v div 2 ^ k mod 2 ^ j * 2 ^ k < 2 ^ 32"
  proof -
    have "unat v div 2 ^ k * 2 ^ k \<le> unat v" by simp
    moreover have "unat v < 2 ^ 32" using unsigned_less [of v] by simp
    moreover have "unat v div 2 ^ k mod 2 ^ j * 2 ^ k \<le> unat v div 2 ^ k * 2 ^ k" by simp
    ultimately show ?thesis by linarith
  qed
  moreover have "unat (push_bit k (take_bit j (drop_bit k v))) = take_bit 32 (push_bit k (take_bit j (drop_bit k (unat v))))"
    by (simp only: unsigned_push_bit_eq unsigned_take_bit_eq unat_drop_bit_eq len_of_numeral_defs(1) len_num1) simp
  ultimately show ?thesis by (simp add: take_bit_eq_mod push_bit_eq_mult drop_bit_eq_div)
qed

lemma unat_drop: "unat (drop_bit k v) = unat v div 2 ^ k" for v :: "u32"
  by (subst unat_drop_bit_eq) (rule drop_bit_eq_div)

lemma log2_tab_spec: "1 \<le> v \<Longrightarrow> v < 256 \<Longrightarrow> \<exists>k. rd log2_tab (int v) = Some (int k) \<and> 2 ^ k \<le> v \<and> v < 2 ^ (k + 1)"
proof -
  have "list_all (\<lambda>v. 0 \<le> log2_tab ! v \<and> 2 ^ nat (log2_tab ! v) \<le> v \<and> v < 2 ^ (nat (log2_tab ! v) + 1)) [1..<256]"
    by code_simp
  moreover have "length log2_tab = 256" by code_simp
  moreover assume "1 \<le> v" "v < 256"
  ultimately show ?thesis by (intro exI [of _ "nat (log2_tab ! v)"]) (auto simp: list_all_iff rd_def)
qed

lemma alog2_spec:
  assumes "v \<noteq> 0"
  shows "\<exists>k. alog2 v = Some (int k) \<and> 2 ^ k \<le> unat v \<and> unat v < 2 ^ (k + 1)"
proof -
  have m: "0xffff0000 = push_bit 16 (mask 16 :: u32)" "0xff00 = push_bit 8 (mask 8 :: u32)"
    by (simp_all add: mask_eq_exp_minus_1 push_bit_eq_mult)
  have lt: "unat v < 2 ^ 32" using unsigned_less [of v] by simp
  define v1 where "v1 = (if v AND 0xffff0000 \<noteq> 0 then drop_bit 16 v else v)"
  define n1 :: nat where "n1 = (if v AND 0xffff0000 \<noteq> 0 then 16 else 0)"
  have "v AND 0xffff0000 = 0 \<longleftrightarrow> unat v div 2 ^ 16 mod 2 ^ 16 = 0"
    unfolding m unat_eq_0 [symmetric] by (subst unat_and_high) auto
  then have t1: "v AND 0xffff0000 = 0 \<longleftrightarrow> unat v < 2 ^ 16" using lt by (auto simp: div_eq_0_iff)
  moreover have "drop_bit 16 v = 0 \<longleftrightarrow> unat v < 2 ^ 16"
    unfolding unat_eq_0 [symmetric] unat_drop by (auto simp: div_eq_0_iff)
  ultimately have 1: "unat v1 < 2 ^ 16" "0 < unat v1" "unat v div 2 ^ n1 = unat v1"
    using lt assms by (auto simp: v1_def n1_def unat_drop div_greater_zero_iff unat_gt_0)
  define v2 where "v2 = (if v1 AND 0xff00 \<noteq> 0 then drop_bit 8 v1 else v1)"
  define n2 :: nat where "n2 = (if v1 AND 0xff00 \<noteq> 0 then n1 + 8 else n1)"
  have "v1 AND 0xff00 = 0 \<longleftrightarrow> unat v1 div 2 ^ 8 mod 2 ^ 8 = 0"
    unfolding m unat_eq_0 [symmetric] by (subst unat_and_high) auto
  then have "v1 AND 0xff00 = 0 \<longleftrightarrow> unat v1 < 2 ^ 8" using 1(1) by (auto simp: div_eq_0_iff)
  moreover have "drop_bit 8 v1 = 0 \<longleftrightarrow> unat v1 < 2 ^ 8"
    unfolding unat_eq_0 [symmetric] unat_drop by (auto simp: div_eq_0_iff)
  ultimately have 2: "unat v2 < 256" "1 \<le> unat v2" "unat v1 div 2 ^ (n2 - n1) = unat v2" "n1 \<le> n2"
    using 1 by (auto simp: v2_def n2_def unat_drop div_greater_zero_iff Suc_le_eq)
  obtain k where k: "rd log2_tab (int (unat v2)) = Some (int k)" "2 ^ k \<le> unat v2" "unat v2 < 2 ^ (k + 1)"
    using log2_tab_spec [OF 2(2,1)] by blast
  have "unat v div 2 ^ n2 = unat v2"
    using 1(3) 2(3,4) by (metis div_mult2_eq le_add_diff_inverse power_add)
  then have "2 ^ k * 2 ^ n2 \<le> unat v" "unat v < 2 ^ (k + 1) * 2 ^ n2"
    using k(2,3) less_eq_div_iff_mult_less_eq [of "2 ^ n2" "2 ^ k" "unat v"]
      div_less_iff_less_mult [of "2 ^ n2" "unat v" "2 ^ (k + 1)"] by simp_all
  then have "2 ^ (n2 + k) \<le> unat v" "unat v < 2 ^ (n2 + k + 1)" by (simp_all add: power_add ac_simps)
  moreover have "alog2 v = Some (int (n2 + k))"
    using k(1) by (simp add: alog2_def v1_def v2_def n1_def n2_def Let_def split: if_splits)
  ultimately show ?thesis by blast
qed
lemma alog2_0 [simp]: "alog2 0 = Some 0"
  by (simp add: alog2_def log2_tab_def)

end
