(* ===== verification/Wide_String.thy ===== *)
theory Wide_String
  imports Prelude
begin

text \<open>
  Strings of 16-bit characters (Source/awchar.c). A pointer is the list of the cells from it
  on; the functions return the destination cells afterwards, None when they run off a list.
  cv converts a source character: the identity for wide strings, the conversion from char (which
  is signed on some targets) for the functions that take a char string.
\<close>

definition from_char :: "bool \<Rightarrow> u8 \<Rightarrow> u16" where
  "from_char sg c = (if sg then scast c else ucast c)"

fun wstrlen :: "u16 list \<Rightarrow> nat option" where
  "wstrlen [] = None"
| "wstrlen (c # s) = (if c = 0 then Some 0 else map_option Suc (wstrlen s))"

text \<open>Copying up to and with the ending 0.\<close>

fun copy_str :: "('a \<Rightarrow> u16) \<Rightarrow> u16 list \<Rightarrow> 'a list \<Rightarrow> u16 list option" where
  "copy_str cv (_ # d) (c # s) = (if cv c = 0 then Some (0 # d) else map_option (\<lambda>d. cv c # d) (copy_str cv d s))"
| "copy_str cv _ _ = None"

definition wstrcpy :: "u16 list \<Rightarrow> u16 list \<Rightarrow> u16 list option" where
  "wstrcpy dest src = copy_str (\<lambda>c. c) dest src"

definition c2wstrcpy :: "bool \<Rightarrow> u16 list \<Rightarrow> u8 list \<Rightarrow> u16 list option" where
  "c2wstrcpy sg dest src = copy_str (from_char sg) dest src"

text \<open>alloc n is a block of n cells, None when the allocation fails (the result NULL).\<close>

definition wstrdup :: "(nat \<Rightarrow> u16 list option) \<Rightarrow> u16 list \<Rightarrow> u16 list option option" where
  "wstrdup alloc src = do {
     len \<leftarrow> wstrlen src;
     (case alloc (len + 1) of None \<Rightarrow> Some None | Some dest \<Rightarrow> map_option Some (wstrcpy dest src)) }"

text \<open>The two loops of the bounded copy: n is not 0; the padding writes n cells.\<close>

fun pad0 :: "u16 list \<Rightarrow> nat \<Rightarrow> u16 list option" where
  "pad0 d 0 = Some d"
| "pad0 [] (Suc n) = None"
| "pad0 (_ # d) (Suc n) = map_option (\<lambda>d. 0 # d) (pad0 d n)"

fun copy_n :: "('a \<Rightarrow> u16) \<Rightarrow> u16 list \<Rightarrow> 'a list \<Rightarrow> nat \<Rightarrow> u16 list option" where
  "copy_n cv (_ # d) (c # s) n =
     (if cv c = 0 then map_option (\<lambda>d. 0 # d) (if n > 1 then pad0 d (n - 1) else Some d)
      else if n - 1 \<noteq> 0 then map_option (\<lambda>d. cv c # d) (copy_n cv d s (n - 1))
      else Some (cv c # d))"
| "copy_n cv _ _ n = None"

definition wstrncpy :: "u16 list \<Rightarrow> u16 list \<Rightarrow> nat \<Rightarrow> u16 list option" where
  "wstrncpy dest src n = (if n \<noteq> 0 then copy_n (\<lambda>c. c) dest src n else Some dest)"

definition c2wstrncpy :: "bool \<Rightarrow> u16 list \<Rightarrow> u8 list \<Rightarrow> nat \<Rightarrow> u16 list option" where
  "c2wstrncpy sg dest src n = (if n \<noteq> 0 then copy_n (from_char sg) dest src n else Some dest)"

text \<open>Finding the end of the string, then f writes from the ending 0 on.\<close>

fun at_end :: "(u16 list \<Rightarrow> u16 list option) \<Rightarrow> u16 list \<Rightarrow> u16 list option" where
  "at_end f [] = None"
| "at_end f (c # d) = (if c = 0 then f (c # d) else map_option (\<lambda>d. c # d) (at_end f d))"

definition wstrcat :: "u16 list \<Rightarrow> u16 list \<Rightarrow> u16 list option" where
  "wstrcat string1 string2 = at_end (\<lambda>d. copy_str (\<lambda>c. c) d string2) string1"

definition c2wstrcat :: "bool \<Rightarrow> u16 list \<Rightarrow> u8 list \<Rightarrow> u16 list option" where
  "c2wstrcat sg string1 string2 = at_end (\<lambda>d. copy_str (from_char sg) d string2) string1"

text \<open>At most n characters, then the ending 0.\<close>

fun append_n :: "('a \<Rightarrow> u16) \<Rightarrow> u16 list \<Rightarrow> 'a list \<Rightarrow> nat \<Rightarrow> u16 list option" where
  "append_n cv (_ # d) s 0 = Some (0 # d)"
| "append_n cv (_ # d) (c # s) (Suc n) = (if cv c = 0 then Some (0 # d) else map_option (\<lambda>d. cv c # d) (append_n cv d s n))"
| "append_n cv _ _ _ = None"

definition c2wstrncat :: "bool \<Rightarrow> u16 list \<Rightarrow> u8 list \<Rightarrow> nat \<Rightarrow> u16 list option" where
  "c2wstrncat sg string1 string2 n =
     (if n \<noteq> 0 then at_end (\<lambda>d. append_n (from_char sg) d string2 n) string1 else Some string1)"

definition wstrncat :: "u16 list \<Rightarrow> u16 list \<Rightarrow> nat \<Rightarrow> u16 list option" where
  "wstrncat dest src n = (if n \<noteq> 0 then at_end (\<lambda>d. append_n (\<lambda>c. c) d src n) dest else Some dest)"

text \<open>The offset of the character (Some None is NULL); the ending 0 can be searched.\<close>

fun wstrchr :: "u16 list \<Rightarrow> u16 \<Rightarrow> nat option option" where
  "wstrchr [] ch = None"
| "wstrchr (c # s) ch = (if c = ch then Some (Some 0) else if c = 0 then Some None else map_option (map_option Suc) (wstrchr s ch))"

text \<open>The characters copied to the static buffer of 257 bytes: at most 256, cut to a byte each.\<close>

fun w2c_loop :: "u16 list \<Rightarrow> nat \<Rightarrow> u8 list option" where
  "w2c_loop [] n = None"
| "w2c_loop (c # s) n = (if c \<noteq> 0 \<and> n < 256 then map_option (\<lambda>d. ucast c # d) (w2c_loop s (Suc n)) else Some [])"

definition w2c :: "u8 list \<Rightarrow> u16 list \<Rightarrow> u8 list option" where
  "w2c out wide = do { cs \<leftarrow> w2c_loop wide 0; wr_blk out 0 (cs @ [0]) }"

section \<open>What they do to strings\<close>

lemma copy_str_ok:
  "0 \<notin> set (map cv s) \<Longrightarrow> cv z = 0 \<Longrightarrow> length s < length d \<Longrightarrow>
   copy_str cv d (s @ z # r) = Some (map cv s @ 0 # drop (Suc (length s)) d)"
proof (induction s arbitrary: d)
  case Nil
  then show ?case by (cases d) auto
next
  case (Cons c s)
  then show ?case by (cases d) auto
qed

lemma pad0_ok: "n \<le> length d \<Longrightarrow> pad0 d n = Some (replicate n 0 @ drop n d)"
  by (induction d n rule: pad0.induct) auto

lemma copy_n_ok:
  "0 \<notin> set (map cv s) \<Longrightarrow> cv z = 0 \<Longrightarrow> 0 < n \<Longrightarrow> n \<le> length d \<Longrightarrow>
   copy_n cv d (s @ z # r) n = Some (take n (map cv s @ replicate n 0) @ drop n d)"
proof (induction s arbitrary: d n)
  case Nil
  then obtain e d' where "d = e # d'" by (cases d) auto
  moreover obtain k where "n = Suc k" using Nil by (cases n) auto
  ultimately show ?case using Nil by (cases "k = 0") (auto simp: pad0_ok)
next
  case (Cons c s)
  then obtain e d' where d: "d = e # d'" by (cases d) auto
  obtain k where n: "n = Suc k" using Cons by (cases n) auto
  show ?case
  proof (cases "k = 0")
    case True
    then show ?thesis using Cons.prems d n by auto
  next
    case False
    have "take k (map cv s @ replicate k 0) = take k (map cv s @ replicate (Suc k) 0)"
      by (simp add: take_replicate min_def del: replicate_Suc)
    then show ?thesis using Cons.IH [of k d'] Cons.prems d n False by (auto simp del: replicate_Suc)
  qed
qed

lemma append_n_ok:
  "0 \<notin> set (map cv s) \<Longrightarrow> cv z = 0 \<Longrightarrow> min n (length s) < length d \<Longrightarrow>
   append_n cv d (s @ z # r) n = Some (take n (map cv s) @ 0 # drop (Suc (min n (length s))) d)"
proof (induction s arbitrary: d n)
  case Nil
  then show ?case by (cases d; cases n) auto
next
  case (Cons c s)
  then show ?case by (cases d; cases n) auto
qed

lemma at_end_ok: "0 \<notin> set a \<Longrightarrow> at_end f (a @ 0 # d) = (case f (0 # d) of None \<Rightarrow> None | Some d \<Rightarrow> Some (a @ d))"
  by (induction a) (auto split: option.split)

text \<open>
  The bounded wide-string functions on terminated strings (a the old content, s the source,
  cv the conversion of its characters). wstrncpy and c2wstrncpy write exactly n cells: the first n
  characters of the source padded with zeros (no ending 0 if the source is not shorter). wstrncat
  and c2wstrncat append at most n characters and an ending 0, n + 1 cells in all, and
  wstrcpy and wstrcat copy and append the whole string; nothing behind is changed.
\<close>

theorem wide_strings_bounded:
  assumes "0 \<notin> set s" "0 \<notin> set a" "0 \<notin> set (map (from_char sg) t)" "from_char sg z = 0"
  shows "(0 < n \<longrightarrow> n \<le> length d \<longrightarrow> wstrncpy d (s @ 0 # r) n = Some (take n (s @ replicate n 0) @ drop n d)
        \<and> c2wstrncpy sg d (t @ z # r') n = Some (take n (map (from_char sg) t @ replicate n 0) @ drop n d))
    \<and> (0 < n \<longrightarrow> n \<le> length d \<longrightarrow> wstrncat (a @ 0 # d) (s @ 0 # r) n
          = Some (a @ take n s @ 0 # drop (min n (length s)) d)
        \<and> c2wstrncat sg (a @ 0 # d) (t @ z # r') n = Some (a @ take n (map (from_char sg) t) @ 0 # drop (min n (length t)) d))
    \<and> (length s < length d \<longrightarrow> wstrcpy d (s @ 0 # r) = Some (s @ 0 # drop (Suc (length s)) d)
        \<and> wstrcat (a @ 0 # d) (s @ 0 # r) = Some (a @ s @ 0 # drop (length s) d))"
proof -
  have "min n k < Suc (length d)" if "n \<le> length d" for k using that by simp
  then show ?thesis
    using copy_n_ok [of "\<lambda>c. c" s 0 n d r] copy_n_ok [of "from_char sg" t z n d r']
      append_n_ok [of "\<lambda>c. c" s 0 n "0 # d" r] append_n_ok [of "from_char sg" t z n "0 # d" r']
      copy_str_ok [of "\<lambda>c. c" s 0 d r] copy_str_ok [of "\<lambda>c. c" s 0 "0 # d" r] assms
    by (simp add: wstrncpy_def c2wstrncpy_def wstrncat_def c2wstrncat_def wstrcpy_def wstrcat_def at_end_ok)
qed

theorem wide_strings_bounded_witness:
  "wstrncpy [9, 9, 9, 9] [0x41, 0x42, 0] 3 = Some [0x41, 0x42, 0, 9]
    \<and> c2wstrncat False ([0x41] @ 0 # [9, 9, 9]) [0x62, 0x63, 0x64, 0] 2 = Some [0x41, 0x62, 0x63, 0, 9]"
proof -
  have r: "replicate 3 (0 :: u16) = [0, 0, 0]" by (simp add: numeral_eq_Suc)
  show ?thesis
    using wide_strings_bounded [of "[0x41, 0x42]" "[]" False "[]" 0 3 "[9, 9, 9, 9]" "[]" "[]"]
      wide_strings_bounded [of "[]" "[0x41]" False "[0x62, 0x63, 0x64]" 0 2 "[9, 9, 9]" "[]" "[]"]
    by (simp add: from_char_def r)
qed

end
