(* ===== verification/Mp3.thy ===== *)
theory Mp3
  imports Prelude
begin

text \<open>
  MPEG audio frames (Source/mp3.c): the header check, the fields of a header and the search for
  a frame that is followed by another of the same kind. The memory is a byte list, p an offset.
\<close>

record mp3_frame =
  MPEG :: int
  lsf :: int
  layer :: int
  protection :: int
  bitrate_index :: int
  sr_index :: int
  padding :: int
  private_bit :: int
  mode :: int
  ch :: int
  mode_ext :: int
  copyright :: int
  original :: int
  emphasis :: int
  data_start :: int
  frame_length :: int

record audio_props =
  bytesPerSec :: int
  samplesPerSec :: int
  blockAlign :: int
  channels :: int
  bitsPerSample :: int
  a_format :: int
  vbr :: int
  frames :: int
  scale :: int
  rate :: int
  valid :: int

definition mp3_freqs :: "int list list" where
  "mp3_freqs = [[44100, 48000, 32000], [22050, 24000, 16000], [11025, 12000, 8000]]"

definition mp3_rates :: "int list list list" where
  "mp3_rates = [
     [[0,32,48,56,64,80,96,112,128,160,192,224,256,320,384], [0,8,16,24,32,40,48,56,64,80,96,112,128,144,160],
      [0,8,16,24,32,40,48,56,64,80,96,112,128,144,160]],
     [[0,32,48,56,64,80,96,112,128,160,192,224,256,320,384], [0,8,16,24,32,40,48,56,64,80,96,112,128,144,160],
      [0,8,16,24,32,40,48,56,64,80,96,112,128,144,160]],
     [[0,32,40,48,56,64,80,96,112,128,160,192,224,256,320], [0,8,16,24,32,40,48,56,64,80,96,112,128,144,160],
      [0,8,16,24,32,40,48,56,64,80,96,112,128,144,160]]]"

text \<open>The return value and the version, sampling flag and layer stored through the pointers.\<close>

definition MP3_check_header :: "u8 \<Rightarrow> u8 \<Rightarrow> int \<times> int \<times> int \<times> int" where
  "MP3_check_header head_0 head_1 =
     (let head = (push_bit 8 (ucast head_0 :: u16) OR ucast head_1) AND 0xFFFE;
          (m, l, lay) =
            (if head = 0xFFFA then (0, 0, 2) else if head = 0xFFF2 then (1, 1, 2)
             else if head = 0xFFE2 then (2, 1, 2) else if head = 0xFFFC then (0, 0, 1)
             else if head = 0xFFF4 then (1, 0, 1) else if head = 0xFFFE then (0, 0, 0)
             else if head = 0xFFF6 then (1, 0, 0) else (-1, -1, -1))
      in (if lay \<noteq> -1 then 0 else 1, m, l, lay))"

definition field_of :: "u8 \<Rightarrow> nat \<Rightarrow> u8 \<Rightarrow> int" where
  "field_of d k m = uint (drop_bit k d AND m)"

definition MP3_get_frame_stats :: "mp3_frame \<Rightarrow> u8 list \<Rightarrow> mp3_frame option" where
  "MP3_get_frame_stats fr data = do {
     d1 \<leftarrow> rd data 1;
     d2 \<leftarrow> rd data 2;
     d3 \<leftarrow> rd data 3;
     let md = field_of d3 6 3;
     let fr = fr\<lparr>protection := field_of d1 0 1, bitrate_index := field_of d2 4 0x0f, sr_index := field_of d2 2 3,
        padding := field_of d2 1 1, private_bit := field_of d2 0 1, mode := md, ch := (if md = 3 then 1 else 2),
        mode_ext := field_of d3 4 3, copyright := field_of d3 3 1, original := field_of d3 2 1, emphasis := field_of d3 0 3,
        data_start := (if MPEG fr = 0 then (if md \<noteq> 3 then 36 else 21) else (if md \<noteq> 3 then 21 else 13))\<rparr>;
     if layer fr = -1 \<or> MPEG fr > 2 \<or> bitrate_index fr = 0 \<or> bitrate_index fr > 14 \<or> sr_index fr > 2 \<or> lsf fr > 1
     then Some (fr\<lparr>frame_length := 0\<rparr>)
     else do {
       r \<leftarrow> rd mp3_rates (layer fr);
       r \<leftarrow> rd r (MPEG fr);
       r \<leftarrow> rd r (bitrate_index fr);
       f \<leftarrow> rd mp3_freqs (MPEG fr);
       f \<leftarrow> rd f (sr_index fr);
       n \<leftarrow> cdiv (144000 * r) (f * 2 ^ nat (lsf fr));
       Some (fr\<lparr>frame_length := n\<rparr>) } }"

definition verify_header :: "u8 list \<Rightarrow> int \<Rightarrow> int \<Rightarrow> mp3_frame \<Rightarrow> int option" where
  "verify_header m p ofs fr = do {
     a \<leftarrow> rd m (p + frame_length fr + ofs);
     b \<leftarrow> rd m (p + frame_length fr + ofs + 1);
     (let (r, mp, l, lay) = MP3_check_header a b in
      Some (if r \<noteq> 0 \<or> mp \<noteq> MPEG fr \<or> lay \<noteq> layer fr \<or> l \<noteq> lsf fr then 1 else 0)) }"

text \<open>The properties stored when a frame is found.\<close>

definition set_audio :: "audio_props \<Rightarrow> mp3_frame \<Rightarrow> audio_props option" where
  "set_audio audio fr = do {
     r \<leftarrow> rd mp3_rates (layer fr);
     r \<leftarrow> rd r (MPEG fr);
     r \<leftarrow> rd r (bitrate_index fr);
     f \<leftarrow> rd mp3_freqs (MPEG fr);
     f \<leftarrow> rd f (sr_index fr);
     Some (audio\<lparr>bytesPerSec := r * 125, samplesPerSec := f, blockAlign := 1, channels := (if mode fr = 3 then 1 else 2),
       bitsPerSample := 16, a_format := 0x55, vbr := 0, frames := 0, scale := 1, rate := r * 125, valid := 1\<rparr>) }"

text \<open>
  What is tried at offset sc: the frame with the header fields, and whether it is accepted. The
  header is read in place (the code copies its four bytes).
\<close>

definition try_header :: "u8 list \<Rightarrow> int \<Rightarrow> int \<Rightarrow> int \<Rightarrow> mp3_frame \<Rightarrow> (bool \<times> mp3_frame) option" where
  "try_header m p sc sz fr = do {
     a \<leftarrow> rd m p;
     b \<leftarrow> rd m (p + 1);
     let (r, mp, l, lay) = MP3_check_header a b;
     let fr = fr\<lparr>MPEG := mp, lsf := l, layer := lay\<rparr>;
     if layer fr \<ge> 0 then do {
       head \<leftarrow> rd_blk m p 4;
       fr \<leftarrow> MP3_get_frame_stats fr head;
       if sr_index fr > 2 \<or> frame_length fr = 0 \<or> sc + frame_length fr > sz - 1 then Some (False, fr)
       else do {
         v \<leftarrow> verify_header m p 0 fr;
         v' \<leftarrow> (if v \<noteq> 0 then verify_header m p 1 fr else Some 0);
         Some (v = 0 \<or> v' = 0, fr) } }
     else Some (False, fr) }"

text \<open>audio is None for NULL; the results are the return value, the properties, the frame and the offset.\<close>

function find_sync_loop ::
  "audio_props option \<Rightarrow> u8 list \<Rightarrow> int \<Rightarrow> int \<Rightarrow> int \<Rightarrow> mp3_frame \<Rightarrow> (int \<times> audio_props option \<times> mp3_frame \<times> int) option" where
  "find_sync_loop audio m p sc sz fr =
     (if sc < sz then do {
        (ok, fr) \<leftarrow> try_header m p sc sz fr;
        if ok then do {
          audio \<leftarrow> (case audio of None \<Rightarrow> Some None | Some a \<Rightarrow> map_option Some (set_audio a fr));
          Some (0, audio, fr, sc) }
        else find_sync_loop audio m (p + 1) (sc + 1) sz fr }
      else Some (1, audio, fr, sc))"
  by pat_completeness auto
termination by (relation "measure (\<lambda>(a, m, p, sc, sz, fr). nat (sz - sc))") auto

declare find_sync_loop.simps [simp del]

definition MP3_find_sync where
  "MP3_find_sync audio m p sz fr = find_sync_loop audio m p 0 sz fr"

definition MP3_find_sync2 :: "mp3_frame \<Rightarrow> u8 list \<Rightarrow> int \<Rightarrow> int \<Rightarrow> (int \<times> int) option" where
  "MP3_find_sync2 fr m p sz = do { (r, a, fr, ofs) \<leftarrow> MP3_find_sync None m p sz fr; Some (r, ofs) }"

section \<open>Headers\<close>

lemma check_header_range:
  assumes "MP3_check_header a b = (r, mp, l, lay)"
  shows "r = 0 \<and> mp \<in> {0, 1, 2} \<and> l \<in> {0, 1} \<and> lay \<in> {0, 1, 2} \<or> r = 1 \<and> mp = -1 \<and> l = -1 \<and> lay = -1"
  using assms by (auto simp: MP3_check_header_def Let_def split: if_splits)

lemma field_of_range: "0 \<le> field_of d k m" "field_of d k m \<le> uint m"
  by (simp_all add: field_of_def uint_and AND_upper2)

lemma tables:
  assumes "l \<in> {0, 1, 2}" "v \<in> {0, 1, 2}" "0 < i" "i \<le> 14" "0 \<le> s" "s \<le> 2"
  shows "\<exists>r1 r2 r. rd mp3_rates l = Some r1 \<and> rd r1 v = Some r2 \<and> rd r2 i = Some r \<and> 8 \<le> r \<and> r \<le> 384"
    "\<exists>f1 f. rd mp3_freqs v = Some f1 \<and> rd f1 s = Some f \<and> 8000 \<le> f \<and> f \<le> 48000"
proof -
  have i: "i \<in> set [1..14]" and s: "s \<in> set [0..2]" using assms(3-6) by auto
  show "\<exists>r1 r2 r. rd mp3_rates l = Some r1 \<and> rd r1 v = Some r2 \<and> rd r2 i = Some r \<and> 8 \<le> r \<and> r \<le> 384"
    using assms(1,2) i unfolding set_upto [symmetric] by (auto simp: mp3_rates_def upto.simps)
  show "\<exists>f1 f. rd mp3_freqs v = Some f1 \<and> rd f1 s = Some f \<and> 8000 \<le> f \<and> f \<le> 48000"
    using assms(2) s by (auto simp: mp3_freqs_def upto.simps)
qed

section \<open>What the search looks for\<close>

text \<open>
  header_kind is the version, sampling flag and layer of a header at an index; frame_bytes the
  number of bytes of a frame of that kind whose third header byte is d (0 when the rate or
  frequency index is reserved); frame_at says that a frame of n bytes starts at an index and a
  header of the same kind stands behind it, or one byte further (a padded frame).
\<close>

definition header_kind :: "u8 list \<Rightarrow> nat \<Rightarrow> (int \<times> int \<times> int) option" where
  "header_kind m i = (let (r, k) = MP3_check_header (m ! i) (m ! Suc i) in if r = 0 then Some k else None)"

definition frame_bytes :: "int \<times> int \<times> int \<Rightarrow> u8 \<Rightarrow> nat" where
  "frame_bytes k d = (let (mp, l, lay) = k; b = nat (uint (drop_bit 4 d)); s = nat (uint (drop_bit 2 d AND 3)) in
     if b = 0 \<or> b = 15 \<or> s = 3 then 0
     else nat (144000 * (mp3_rates ! nat lay ! nat mp ! b) div (mp3_freqs ! nat mp ! s * 2 ^ nat l)))"

definition frame_at :: "u8 list \<Rightarrow> nat \<Rightarrow> nat \<Rightarrow> bool" where
  "frame_at m i n \<longleftrightarrow> (case header_kind m i of None \<Rightarrow> False
     | Some k \<Rightarrow> n = frame_bytes k (m ! (i + 2)) \<and> 0 < n
         \<and> (header_kind m (i + n) = Some k \<or> header_kind m (i + n + 1) = Some k))"

lemma stats_length:
  assumes "(MPEG fr, lsf fr, layer fr) = k" "MPEG fr \<in> {0, 1, 2}" "lsf fr \<in> {0, 1}" "layer fr \<in> {0, 1, 2}"
    and "length data = 4"
  shows "\<exists>fr'. MP3_get_frame_stats fr data = Some fr' \<and> frame_length fr' = int (frame_bytes k (data ! 2))
    \<and> (MPEG fr', lsf fr', layer fr') = k \<and> (0 < frame_length fr' \<longrightarrow> sr_index fr' \<le> 2 \<and> 0 < bitrate_index fr' \<and> bitrate_index fr' \<le> 14 \<and> 0 \<le> sr_index fr')"
proof -
  obtain mp l lay where k: "k = (mp, l, lay)" by (cases k)
  define b where "b = field_of (data ! 2) 4 0x0f"
  define s where "s = field_of (data ! 2) 2 3"
  have hi: "drop_bit 4 (data ! 2) AND 15 = drop_bit 4 (data ! 2)"
    by (rule bit_word_eqI) (auto simp: bit_simps less_Suc_eq numeral_eq_Suc)
  have bits: "0 \<le> b" "b \<le> 15" "0 \<le> s" "s \<le> 3"
    using field_of_range [of "data ! 2" 4 "0x0f"] field_of_range [of "data ! 2" 2 3] by (simp_all add: b_def s_def)
  have eqs: "b = uint (drop_bit 4 (data ! 2))" "s = uint (drop_bit 2 (data ! 2) AND 3)"
    by (simp_all add: b_def s_def field_of_def hi)
  show ?thesis
  proof (cases "b = 0 \<or> b = 15 \<or> s = 3")
    case True
    then have "frame_bytes k (data ! 2) = 0"
      unfolding frame_bytes_def k Let_def eqs [symmetric] by auto
    moreover have "b = 0 \<or> b > 14 \<or> s > 2" using True by auto
    ultimately show ?thesis
      using assms(1,5) unfolding MP3_get_frame_stats_def b_def [symmetric] s_def [symmetric] Let_def
      by (auto simp: b_def [symmetric] s_def [symmetric])
  next
    case False
    then have r: "0 < b" "b \<le> 14" "s \<le> 2" using bits by auto
    have kr: "mp \<in> {0, 1, 2}" "l \<in> {0, 1}" "lay \<in> {0, 1, 2}" using assms(1-4) k by auto
    obtain r1 r2 r where R: "rd mp3_rates lay = Some r1" "rd r1 mp = Some r2" "rd r2 b = Some r" "8 \<le> r" "r \<le> 384"
      using tables(1) [OF kr(3,1) r(1,2) bits(3) r(3)] by auto
    obtain f1 f where F: "rd mp3_freqs mp = Some f1" "rd f1 s = Some f" "8000 \<le> f" "f \<le> 48000"
      using tables(2) [OF kr(3,1) r(1,2) bits(3) r(3)] by auto
    have "0 \<le> 144000 * r" "0 < f * 2 ^ nat l" using R(4) F(3) by auto
    then have n: "cdiv (144000 * r) (f * 2 ^ nat l) = Some (144000 * r div (f * 2 ^ nat l))"
      "0 \<le> 144000 * r div (f * 2 ^ nat l)"
      by (auto simp: cdiv_def sdiv_nonneg pos_imp_zdiv_nonneg_iff)
    have "mp3_rates ! nat lay ! nat mp ! nat b = r" "mp3_freqs ! nat mp ! nat s = f"
      using R F by (auto simp: rd_eq_Some)
    then have "int (frame_bytes k (data ! 2)) = 144000 * r div (f * 2 ^ nat l)"
      unfolding frame_bytes_def k Let_def eqs [symmetric] using False bits n(2) by (auto simp: nat_eq_iff2)
    moreover have "MPEG fr = mp" "lsf fr = l" "layer fr = lay" using assms(1) k by auto
    ultimately show ?thesis
      using assms(5) R(1-3) F(1,2) n(1) r bits kr
      unfolding MP3_get_frame_stats_def Let_def k
      by (auto simp: b_def [symmetric] s_def [symmetric])
  qed
qed

lemma header_kind_eq:
  assumes "MP3_check_header (m ! i) (m ! Suc i) = (r, mp, l, lay)"
  shows "header_kind m i = (if r = 0 then Some (mp, l, lay) else None)"
    "r = 0 \<longleftrightarrow> 0 \<le> lay"
  using assms check_header_range [OF assms] by (auto simp: header_kind_def)

lemma verify_header_eq:
  assumes "frame_length fr = int n" "i + n + o' + 1 < length m"
  shows "verify_header m (int i) (int o') fr
       = Some (if header_kind m (i + n + o') = Some (MPEG fr, lsf fr, layer fr) then 0 else 1)"
proof -
  obtain r mp l lay where c: "MP3_check_header (m ! (i + n + o')) (m ! Suc (i + n + o')) = (r, mp, l, lay)"
    by (metis prod_cases4)
  have rds: "rd m (int i + int n + int o') = Some (m ! (i + n + o'))"
    "rd m (int i + int n + int o' + 1) = Some (m ! Suc (i + n + o'))"
    using assms(2) rd_of_nat [of m "i + n + o'"] rd_of_nat [of m "Suc (i + n + o')"] by (simp_all add: algebra_simps)
  have "verify_header m (int i) (int o') fr
      = Some (if r \<noteq> 0 \<or> mp \<noteq> MPEG fr \<or> lay \<noteq> layer fr \<or> l \<noteq> lsf fr then 1 else 0)"
    by (simp add: verify_header_def assms(1) rds c)
  then show ?thesis by (auto simp: header_kind_eq(1) [OF c])
qed

text \<open>A step of the search: memory for three bytes behind the range is enough, and the answer is exact.\<close>

lemma try_header_eq:
  assumes "sc < sz" "i + nat (sz - sc) + 3 \<le> length m"
  shows "\<exists>fr' ok. try_header m (int i) sc sz fr = Some (ok, fr') \<and> (ok \<longleftrightarrow> (\<exists>n. frame_at m i n \<and> sc + int n < sz))
    \<and> (ok \<longrightarrow> frame_at m i (nat (frame_length fr')) \<and> sc + frame_length fr' < sz \<and> 0 < frame_length fr'
        \<and> layer fr' \<in> {0, 1, 2} \<and> MPEG fr' \<in> {0, 1, 2} \<and> 0 < bitrate_index fr' \<and> bitrate_index fr' \<le> 14
        \<and> 0 \<le> sr_index fr' \<and> sr_index fr' \<le> 2)"
proof -
  obtain r mp l lay where c: "MP3_check_header (m ! i) (m ! Suc i) = (r, mp, l, lay)" by (metis prod_cases4)
  have i: "i + 4 \<le> length m" using assms by linarith
  have rds: "rd m (int i) = Some (m ! i)" "rd m (int i + 1) = Some (m ! Suc i)"
    using i rd_of_nat [of m i] rd_of_nat [of m "Suc i"] by (simp_all add: algebra_simps)
  show ?thesis
  proof (cases "0 \<le> lay")
    case False
    then have "header_kind m i = None" using header_kind_eq [OF c] by simp
    then show ?thesis using False i by (auto simp: try_header_def rds c frame_at_def)
  next
    case True
    define fr0 where "fr0 = fr\<lparr>MPEG := mp, lsf := l, layer := lay\<rparr>"
    have r0: "r = 0" using True header_kind_eq(2) [OF c] by simp
    then have hk: "header_kind m i = Some (mp, l, lay)" using header_kind_eq(1) [OF c] by simp
    have kr: "mp \<in> {0, 1, 2}" "l \<in> {0, 1}" "lay \<in> {0, 1, 2}" using check_header_range [OF c] True r0 by auto
    define h where "h = take 4 (drop i m)"
    have h: "rd_blk m (int i) 4 = Some h" "length h = 4" "h ! 2 = m ! (i + 2)"
      using i by (simp_all add: rd_blk_def h_def)
    define n where "n = frame_bytes (mp, l, lay) (m ! (i + 2))"
    obtain fr' where s: "MP3_get_frame_stats fr0 h = Some fr'" "frame_length fr' = int n"
      "(MPEG fr', lsf fr', layer fr') = (mp, l, lay)"
      "0 < frame_length fr' \<Longrightarrow> sr_index fr' \<le> 2 \<and> 0 < bitrate_index fr' \<and> bitrate_index fr' \<le> 14 \<and> 0 \<le> sr_index fr'"
      using stats_length [of fr0 "(mp, l, lay)" h] kr h(2,3) by (auto simp: fr0_def n_def)
    have fa: "frame_at m i n' \<longleftrightarrow> n' = n \<and> 0 < n \<and> (header_kind m (i + n) = Some (mp, l, lay) \<or> header_kind m (i + n + 1) = Some (mp, l, lay))" for n'
      by (auto simp: frame_at_def hk n_def)
    have t: "try_header m (int i) sc sz fr = do {
        (if sr_index fr' > 2 \<or> frame_length fr' = 0 \<or> sc + frame_length fr' > sz - 1 then Some (False, fr')
         else do {
           v \<leftarrow> verify_header m (int i) 0 fr';
           v' \<leftarrow> (if v \<noteq> 0 then verify_header m (int i) 1 fr' else Some 0);
           Some (v = 0 \<or> v' = 0, fr') }) }"
      using True h(1) s(1) i by (simp add: try_header_def rds c fr0_def [symmetric])
    show ?thesis
    proof (cases "n = 0 \<or> sc + int n \<ge> sz")
      case True
      then show ?thesis using s(2) by (auto simp: t fa)
    next
      case False
      then have b: "i + n + 1 + 1 < length m" using assms(2) by linarith
      have ks: "(MPEG fr', lsf fr', layer fr') = (mp, l, lay)" using s(3) .
      have v: "verify_header m (int i) 0 fr' = Some (if header_kind m (i + n) = Some (mp, l, lay) then 0 else 1)"
        "verify_header m (int i) 1 fr' = Some (if header_kind m (i + n + 1) = Some (mp, l, lay) then 0 else 1)"
        using verify_header_eq [OF s(2), of i 0 m] verify_header_eq [OF s(2), of i 1 m] b ks by auto
      show ?thesis using False s(2,3,4) kr v by (auto simp: t fa)
    qed
  qed
qed

text \<open>The indices of the tables stay inside them, so the properties are set.\<close>

lemma set_audio_defined:
  assumes "layer fr \<in> {0, 1, 2}" "MPEG fr \<in> {0, 1, 2}" "0 < bitrate_index fr" "bitrate_index fr \<le> 14"
    "0 \<le> sr_index fr" "sr_index fr \<le> 2"
  shows "\<exists>a'. set_audio a fr = Some a' \<and> valid a' = 1 \<and> 8000 \<le> samplesPerSec a' \<and> samplesPerSec a' \<le> 48000
    \<and> 1000 \<le> bytesPerSec a' \<and> bytesPerSec a' \<le> 48000"
  using tables [OF assms] by (auto simp: set_audio_def)

lemma find_sync_loop_correct:
  assumes "j \<le> n" "b + n + 3 \<le> length m"
  shows "\<exists>r audio' fr' ofs. find_sync_loop audio m (int (b + j)) (int j) (int n) fr = Some (r, audio', fr', int ofs)
    \<and> (if r = 0 then j \<le> ofs \<and> frame_at m (b + ofs) (nat (frame_length fr')) \<and> int ofs + frame_length fr' < int n
           \<and> 0 < frame_length fr' \<and> (\<forall>a'. audio' = Some a' \<longrightarrow> valid a' = 1 \<and> 8000 \<le> samplesPerSec a' \<and> samplesPerSec a' \<le> 48000)
       else r = 1 \<and> ofs = n)
    \<and> (\<forall>j' k. j \<le> j' \<and> j' < ofs \<and> frame_at m (b + j') k \<longrightarrow> n \<le> j' + k)"
  using assms(1)
proof (induction arbitrary: fr rule: inc_induct)
  case base
  show ?case by (auto simp: find_sync_loop.simps [of _ _ _ "int n"])
next
  case (step j)
  obtain fr' ok where t: "try_header m (int (b + j)) (int j) (int n) fr = Some (ok, fr')"
    and ok: "ok \<longleftrightarrow> (\<exists>k. frame_at m (b + j) k \<and> int j + int k < int n)"
    and fr': "ok \<Longrightarrow> frame_at m (b + j) (nat (frame_length fr')) \<and> int j + frame_length fr' < int n \<and> 0 < frame_length fr'"
      "ok \<Longrightarrow> \<exists>a'. set_audio a fr' = Some a' \<and> valid a' = 1 \<and> 8000 \<le> samplesPerSec a' \<and> samplesPerSec a' \<le> 48000" for a
  proof -
    have "int j < int n" "b + j + nat (int n - int j) + 3 \<le> length m" using step.hyps assms(2) by auto
    from try_header_eq [OF this, of fr] obtain fr' ok where
      *: "try_header m (int (b + j)) (int j) (int n) fr = Some (ok, fr')"
        "ok \<longleftrightarrow> (\<exists>k. frame_at m (b + j) k \<and> int j + int k < int n)"
      and **: "ok \<Longrightarrow> frame_at m (b + j) (nat (frame_length fr')) \<and> int j + frame_length fr' < int n \<and> 0 < frame_length fr'"
        "ok \<Longrightarrow> layer fr' \<in> {0, 1, 2}" "ok \<Longrightarrow> MPEG fr' \<in> {0, 1, 2}" "ok \<Longrightarrow> 0 < bitrate_index fr'"
        "ok \<Longrightarrow> bitrate_index fr' \<le> 14" "ok \<Longrightarrow> 0 \<le> sr_index fr'" "ok \<Longrightarrow> sr_index fr' \<le> 2"
      by blast
    show ?thesis
      by (rule that [OF * **(1)], assumption) (use set_audio_defined [OF **(2-7)] in blast)
  qed
  note unf = find_sync_loop.simps [of audio m "int b + int j" "int j"]
  show ?case
  proof (cases ok)
    case True
    obtain audio' where a: "(case audio of None \<Rightarrow> Some None | Some a \<Rightarrow> map_option Some (set_audio a fr')) = Some audio'"
      "\<forall>a'. audio' = Some a' \<longrightarrow> valid a' = 1 \<and> 8000 \<le> samplesPerSec a' \<and> samplesPerSec a' \<le> 48000"
      using fr'(2) [OF True] by (cases audio) fastforce+
    show ?thesis
      by (rule exI [of _ 0], rule exI [of _ audio'], rule exI [of _ fr'], rule exI [of _ j])
        (use True t a fr'(1) step.hyps in \<open>simp add: unf\<close>)
  next
    case False
    then have none: "frame_at m (b + j) k \<longrightarrow> n \<le> j + k" for k using ok by fastforce
    have eq: "find_sync_loop audio m (int (b + j)) (int j) (int n) fr
        = find_sync_loop audio m (int (b + Suc j)) (int (Suc j)) (int n) fr'"
      by (subst find_sync_loop.simps) (use False t step.hyps in \<open>simp add: ac_simps\<close>)
    obtain r audio' fr'' ofs where ih: "find_sync_loop audio m (int (b + Suc j)) (int (Suc j)) (int n) fr' = Some (r, audio', fr'', int ofs)"
      "if r = 0 then Suc j \<le> ofs \<and> frame_at m (b + ofs) (nat (frame_length fr'')) \<and> int ofs + frame_length fr'' < int n
           \<and> 0 < frame_length fr'' \<and> (\<forall>a'. audio' = Some a' \<longrightarrow> valid a' = 1 \<and> 8000 \<le> samplesPerSec a' \<and> samplesPerSec a' \<le> 48000)
       else r = 1 \<and> ofs = n"
      "\<forall>j' k. Suc j \<le> j' \<and> j' < ofs \<and> frame_at m (b + j') k \<longrightarrow> n \<le> j' + k"
      using step.IH [of fr'] by blast
    have "\<forall>j' k. j \<le> j' \<and> j' < ofs \<and> frame_at m (b + j') k \<longrightarrow> n \<le> j' + k"
      using ih(3) none by (metis Suc_leI order_le_less)
    moreover have "if r = 0 then j \<le> ofs \<and> frame_at m (b + ofs) (nat (frame_length fr'')) \<and> int ofs + frame_length fr'' < int n
           \<and> 0 < frame_length fr'' \<and> (\<forall>a'. audio' = Some a' \<longrightarrow> valid a' = 1 \<and> 8000 \<le> samplesPerSec a' \<and> samplesPerSec a' \<le> 48000)
       else r = 1 \<and> ofs = n" using ih(2) by (auto split: if_splits)
    ultimately show ?thesis unfolding eq ih(1) by blast
  qed
qed

text \<open>
  C30. With three readable bytes behind the range the search is memory safe: it returns 0 and the
  first offset at which a frame starts that ends inside the range and is followed by a header of
  the same kind, with the length of that frame, or 1 when there is no such offset. Without them
  it is not: a buffer that ends with its last byte is read beyond.
\<close>

theorem MP3_find_sync_first:
  assumes "b + n + 3 \<le> length m"
  shows "(\<exists>r audio' fr' ofs. MP3_find_sync audio m (int b) (int n) fr = Some (r, audio', fr', int ofs)
    \<and> (if r = 0 then frame_at m (b + ofs) (nat (frame_length fr')) \<and> int ofs + frame_length fr' < int n
           \<and> 0 < frame_length fr' \<and> (\<forall>a'. audio' = Some a' \<longrightarrow> valid a' = 1 \<and> 8000 \<le> samplesPerSec a' \<and> samplesPerSec a' \<le> 48000)
       else r = 1 \<and> ofs = n)
    \<and> (\<forall>j k. j < ofs \<and> frame_at m (b + j) k \<longrightarrow> n \<le> j + k))
    \<and> MP3_find_sync audio [0xFF] 0 1 fr = None"
proof -
  have "MP3_find_sync audio [0xFF] 0 1 fr = None"
    by (simp add: MP3_find_sync_def find_sync_loop.simps try_header_def)
  then show ?thesis
    using find_sync_loop_correct [of 0 n b m audio fr, OF le0 assms]
    by (simp only: MP3_find_sync_def le0 simp_thms add_0_right int_ops(1))
qed

text \<open>A 96-byte frame (MPEG 1, layer III, 32 kbit/s, 48 kHz) behind one byte.\<close>

definition mp3_sample :: "u8 list" where
  "mp3_sample = [0, 0xFF, 0xFB, 0x14, 0xC0] @ replicate 92 0 @ [0xFF, 0xFB, 0x14, 0xC0]"

theorem MP3_find_sync_first_witness:
  "0 + 98 + 3 \<le> length mp3_sample \<and>
   (\<forall>audio fr. \<exists>r audio' fr' ofs. MP3_find_sync audio mp3_sample 0 98 fr = Some (r, audio', fr', int ofs)
    \<and> (\<forall>j k. j < ofs \<and> frame_at mp3_sample j k \<longrightarrow> 98 \<le> j + k))"
proof -
  have l: "0 + 98 + 3 \<le> length mp3_sample" by (simp add: mp3_sample_def)
  show ?thesis using l MP3_find_sync_first [OF l] by fastforce
qed

end
