(* ===== verification/Raw_Bits.thy ===== *)
theory Raw_Bits
  imports Golomb
begin

text \<open>
  Readers of Source/bits.c without emulation prevention by the position of their next bit, with
  BITS_poke1, which changes the memory in front of the reader. A parser eats a bit string and
  yields a value, or skips a string, when on every such reader whose next bits are that string it
  succeeds and stops exactly behind it; the parsers of the MPEG-4 headers are verified with it.
\<close>

text \<open>BITS_get whose result is stored in an int.\<close>

definition get_int :: "bits \<Rightarrow> int \<Rightarrow> (int \<times> bits) option" where
  "get_int ctx n = do { (v, ctx) \<leftarrow> BITS_get ctx n; Some (sint v, ctx) }"

text \<open>Fields that are read and not used, by their widths (single bits with BITS_get1).\<close>

fun read_fields :: "bits \<Rightarrow> int list \<Rightarrow> bits option" where
  "read_fields ctx [] = Some ctx"
| "read_fields ctx (n # ns) = do {
     (v, ctx) \<leftarrow> (if n = 1 then BITS_get1 ctx else BITS_get ctx n);
     read_fields ctx ns }"

section \<open>The reader by bit positions\<close>

text \<open>
  A reader without emulation prevention stands at a bit position of its memory; reading moves the
  position, BITS_poke1 with 0 clears the bit there.
\<close>

definition mbits :: "u8 list \<Rightarrow> bool list" where
  "mbits m = concat (map byte_bits m)"

definition bpos :: "bits \<Rightarrow> nat" where
  "bpos ctx = 8 * nat (byte ctx) + mask_pos (bitm ctx)"

definition raw :: "bits \<Rightarrow> bool" where
  "raw ctx \<longleftrightarrow> bits_ok ctx \<and> \<not> h264 ctx \<and> bpos ctx \<le> 8 * length (bmem ctx)"

lemma length_mbits [simp]: "length (mbits m) = 8 * length m"
  by (induction m) (simp_all add: mbits_def)

lemma mbits_append: "mbits (a @ b) = mbits a @ mbits b"
  by (simp add: mbits_def)

lemma mbits_inj: "mbits a = mbits b \<Longrightarrow> a = b"
proof (induction a arbitrary: b)
  case Nil
  then show ?case by (cases b) (simp_all add: mbits_def)
next
  case (Cons x a)
  then obtain y b' where b: "b = y # b'" by (cases b) (simp_all add: mbits_def)
  have "byte_bits x @ mbits a = byte_bits y @ mbits b'" using Cons.prems by (simp add: b mbits_def)
  then have "byte_bits x = byte_bits y" "mbits a = mbits b'" by simp_all
  moreover from this(1) have "x = y"
    by (intro bit_word_eqI) (auto simp: byte_bits_code less_Suc_eq numeral_eq_Suc)
  ultimately show ?case using Cons.IH b by simp
qed

lemma mask_pos_less: "bits_ok ctx \<Longrightarrow> mask_pos (bitm ctx) < 8"
  by (auto simp: bits_ok_def)

lemma readable_raw: "raw ctx \<Longrightarrow> readable ctx = drop (bpos ctx) (mbits (bmem ctx))"
proof -
  assume r: "raw ctx"
  let ?i = "nat (byte ctx)" and ?k = "mask_pos (bitm ctx)" and ?m = "bmem ctx"
  have k: "?k < 8" and b0: "0 \<le> byte ctx" using r mask_pos_less by (auto simp: raw_def bits_ok_def)
  have "drop (bpos ctx) (mbits ?m) = drop ?k (mbits (drop ?i ?m))"
    by (simp add: bpos_def mbits_def flip: drop_concat_bytes) (simp add: add.commute)
  also have "\<dots> = readable ctx"
  proof (cases "?i < length ?m")
    case True
    then have "drop ?i ?m = ?m ! ?i # drop (Suc ?i) ?m" by (rule drop_Suc_nth)
    then show ?thesis using True k b0 r by (simp add: mbits_def readable_def raw_def Let_def nat_less_iff)
  next
    case False
    then show ?thesis using b0 by (simp add: mbits_def readable_def nat_less_iff)
  qed
  finally show ?thesis ..
qed

lemma get1_raw:
  assumes "raw ctx" "bpos ctx < 8 * length (bmem ctx)"
  shows "\<exists>ctx'. BITS_get1 ctx = Some (of_bool (mbits (bmem ctx) ! bpos ctx), ctx') \<and> raw ctx'
    \<and> bmem ctx' = bmem ctx \<and> bpos ctx' = Suc (bpos ctx)"
proof -
  have rd: "readable ctx = mbits (bmem ctx) ! bpos ctx # drop (Suc (bpos ctx)) (mbits (bmem ctx))"
    using readable_raw [OF assms(1)] assms(2) by (simp add: Cons_nth_drop_Suc)
  then obtain ctx' where c: "BITS_get1 ctx = Some (of_bool (mbits (bmem ctx) ! bpos ctx), ctx')" "bits_ok ctx'"
    using BITS_get1_Cons [OF _ rd] assms(1) unfolding raw_def by blast
  obtain k where k: "k < 8" "bitm ctx = 2 ^ (7 - k)" and b0: "0 \<le> byte ctx"
    using assms(1) by (auto simp: raw_def bits_ok_pow)
  have ins: "byte ctx < int (length (bmem ctx))" using assms(2) b0 by (simp add: bpos_def nat_less_iff)
  have "raw ctx' \<and> bmem ctx' = bmem ctx \<and> bpos ctx' = Suc (bpos ctx)"
  proof (cases "k = 7")
    case True
    then show ?thesis using k b0 ins c assms(1) by (auto simp: BITS_get1_last Let_def raw_def bpos_def nat_add_distrib)
  next
    case False
    then have k7: "k < 7" using k by simp
    have e: "ctx' = ctx\<lparr>bitm := 2 ^ (6 - k), bit_index := bit_index ctx + 1\<rparr>"
      using BITS_get1_inside [OF b0 ins k7 k(2)] c(1) by simp
    have "mask_pos (2 ^ (6 - k)) = Suc k" using mask_pos_pow [of "Suc k"] k7 by simp
    then have "bpos ctx' = Suc (bpos ctx)" using mask_pos_pow [OF k(1)] by (simp add: e bpos_def k(2))
    then show ?thesis using c(2) assms by (simp add: e raw_def)
  qed
  then show ?thesis using c by blast
qed

lemma get_raw:
  assumes "raw ctx" "bpos ctx + n \<le> 8 * length (bmem ctx)"
  shows "\<exists>ctx'. BITS_get ctx (int n) = Some (word_of_nat (bval (take n (drop (bpos ctx) (mbits (bmem ctx))))), ctx')
    \<and> raw ctx' \<and> bmem ctx' = bmem ctx \<and> bpos ctx' = bpos ctx + n"
  using assms(2)
proof (induction n)
  case 0
  then show ?case using assms(1) by (simp add: BITS_get_def)
next
  case (Suc n)
  let ?m = "mbits (bmem ctx)"
  from Suc obtain c1 where c1: "BITS_get ctx (int n) = Some (word_of_nat (bval (take n (drop (bpos ctx) ?m))), c1)"
    "raw c1" "bmem c1 = bmem ctx" "bpos c1 = bpos ctx + n" by auto
  then obtain c2 where c2: "BITS_get1 c1 = Some (of_bool (?m ! (bpos ctx + n)), c2)" "raw c2" "bmem c2 = bmem ctx"
    "bpos c2 = Suc (bpos ctx + n)"
    using get1_raw [of c1] Suc.prems by auto
  have t: "take (Suc n) (drop (bpos ctx) ?m) = take n (drop (bpos ctx) ?m) @ [?m ! (bpos ctx + n)]"
    using Suc.prems by (subst take_Suc_conv_app_nth) simp_all
  show ?case
    unfolding br.getn_Suc t bval_snoc using c1(1) c2 by (simp only: bind.bind_lunit prod.case br.shift_in_bit) simp
qed

lemma byte_bits_clear:
  assumes "k < 8"
  shows "byte_bits (c AND word_of_int (NOT (2 ^ (7 - k)))) = (byte_bits c)[k := False]"
proof (rule nth_equalityI)
  fix j assume "j < length (byte_bits (c AND word_of_int (NOT (2 ^ (7 - k)))))"
  then have "j < 8" by simp
  then show "byte_bits (c AND word_of_int (NOT (2 ^ (7 - k)))) ! j = (byte_bits c)[k := False] ! j"
    using assms by (auto simp: byte_bits_def bit_and_iff bit_word_of_int_iff bit_not_iff bit_exp_iff nth_list_update)
qed simp

lemma mbits_update:
  assumes "i < length m" "k < 8" "byte_bits c = (byte_bits (m ! i))[k := b]"
  shows "mbits (m[i := c]) = (mbits m)[8 * i + k := b]"
proof -
  have m: "m = take i m @ m ! i # drop (Suc i) m" using assms(1) by (simp add: id_take_nth_drop)
  have l: "length (mbits (take i m)) = 8 * i" using assms(1) by simp
  have "mbits m = mbits (take i m) @ byte_bits (m ! i) @ mbits (drop (Suc i) m)"
    by (subst m) (simp add: mbits_def)
  moreover have "mbits (m[i := c]) = mbits (take i m) @ byte_bits c @ mbits (drop (Suc i) m)"
    using assms(1) by (simp add: upd_conv_take_nth_drop mbits_def)
  ultimately show ?thesis using assms(2,3) l by (simp add: list_update_append)
qed

lemma poke_raw:
  assumes "raw ctx" "bpos ctx < 8 * length (bmem ctx)"
  shows "\<exists>ctx' b. BITS_peek1 ctx = Some b \<and> BITS_poke1 ctx 0 = Some ctx' \<and> raw ctx' \<and> bpos ctx' = bpos ctx
    \<and> length (bmem ctx') = length (bmem ctx) \<and> mbits (bmem ctx') = (mbits (bmem ctx))[bpos ctx := False]"
proof -
  obtain k where k: "k < 8" "bitm ctx = 2 ^ (7 - k)" and b0: "0 \<le> byte ctx"
    using assms(1) by (auto simp: raw_def bits_ok_pow)
  have ins: "byte ctx < int (length (bmem ctx))" "nat (byte ctx) < length (bmem ctx)"
    using assms(2) b0 by (simp_all add: bpos_def nat_less_iff)
  have "mbits ((bmem ctx)[nat (byte ctx) := bmem ctx ! nat (byte ctx) AND word_of_int (NOT (bitm ctx))])
      = (mbits (bmem ctx))[bpos ctx := False]"
    using mbits_update [OF ins(2) k(1) byte_bits_clear [OF k(1)]] k(2) mask_pos_pow [OF k(1)] by (simp add: bpos_def)
  then show ?thesis
    using assms(1) b0 ins by (auto simp: BITS_peek1_def BITS_poke1_def rd_in_range wr_in_range raw_def bits_ok_def bpos_def)
qed

lemma init_raw [simp]: "raw (BITS_init data sz)" "bpos (BITS_init data sz) = 0" "bmem (BITS_init data sz) = data"
  by (simp_all add: raw_def bits_ok_init bpos_def) (simp_all add: BITS_init_def)


text \<open>A reader at position p of the memory m.\<close>

definition at_bit :: "bits \<Rightarrow> u8 list \<Rightarrow> nat \<Rightarrow> bool" where
  "at_bit ctx m p \<longleftrightarrow> raw ctx \<and> bmem ctx = m \<and> bpos ctx = p"

lemma at_init: "at_bit (BITS_init m sz) m 0"
  by (simp add: at_bit_def)

lemma at_get1: "at_bit ctx m p \<Longrightarrow> p < 8 * length m \<Longrightarrow>
    \<exists>ctx'. BITS_get1 ctx = Some (of_bool (mbits m ! p), ctx') \<and> at_bit ctx' m (Suc p)"
  using get1_raw [of ctx] by (auto simp: at_bit_def)

lemma at_get: "at_bit ctx m p \<Longrightarrow> p + n \<le> 8 * length m \<Longrightarrow>
    \<exists>ctx'. BITS_get ctx (int n) = Some (word_of_nat (bval (take n (drop p (mbits m)))), ctx') \<and> at_bit ctx' m (p + n)"
  using get_raw [of ctx n] by (auto simp: at_bit_def)

lemma sint_bval: "length bs < 32 \<Longrightarrow> sint (word_of_nat (bval bs) :: u32) = int (bval bs)"
proof -
  assume "length bs < 32"
  then have "(2::nat) ^ length bs \<le> 2 ^ 31" by (intro power_increasing) auto
  then have "bval bs < 2 ^ 31" using bval_bound [of bs] by linarith
  then show ?thesis by (simp add: sint_uint unsigned_of_nat signed_take_bit_int_eq_self take_bit_nat_eq_self)
qed

lemma at_get_int: "at_bit ctx m p \<Longrightarrow> p + n \<le> 8 * length m \<Longrightarrow> n < 32 \<Longrightarrow>
    \<exists>ctx'. get_int ctx (int n) = Some (int (bval (take n (drop p (mbits m)))), ctx') \<and> at_bit ctx' m (p + n)"
  using at_get [of ctx m p n] sint_bval [of "take n (drop p (mbits m))"] by (auto simp: get_int_def)

lemma at_poke: "at_bit ctx m p \<Longrightarrow> p < 8 * length m \<Longrightarrow>
    \<exists>ctx' b m'. BITS_peek1 ctx = Some b \<and> BITS_poke1 ctx 0 = Some ctx' \<and> at_bit ctx' m' p \<and> length m' = length m
      \<and> mbits m' = (mbits m)[p := False]"
  using poke_raw [of ctx] by (auto simp: at_bit_def)

lemma at_readable:
  assumes "raw ctx" "readable ctx = bs @ rest"
  shows "bpos ctx + length bs \<le> 8 * length (bmem ctx)" "take (length bs) (drop (bpos ctx) (mbits (bmem ctx))) = bs"
    "drop (bpos ctx + length bs) (mbits (bmem ctx)) = rest"
proof -
  have d: "drop (bpos ctx) (mbits (bmem ctx)) = bs @ rest" using assms by (simp add: readable_raw)
  have "length (drop (bpos ctx) (mbits (bmem ctx))) = length bs + length rest" unfolding d by simp
  then have "8 * length (bmem ctx) - bpos ctx = length bs + length rest" by simp
  moreover have "bpos ctx \<le> 8 * length (bmem ctx)" using assms(1) by (simp add: raw_def)
  ultimately show "bpos ctx + length bs \<le> 8 * length (bmem ctx)" by linarith
  show "take (length bs) (drop (bpos ctx) (mbits (bmem ctx))) = bs" unfolding d by simp
  have "drop (bpos ctx + length bs) (mbits (bmem ctx)) = drop (length bs) (drop (bpos ctx) (mbits (bmem ctx)))"
    by (simp add: add.commute)
  then show "drop (bpos ctx + length bs) (mbits (bmem ctx)) = rest" unfolding d by simp
qed

section \<open>Parsers and the bits they eat\<close>

text \<open>
  As consumes for the readers of the library, for readers without emulation prevention, whose
  memory a parser may change in front of them.
\<close>

definition eats :: "(bits \<Rightarrow> ('a \<times> bits) option) \<Rightarrow> bool list \<Rightarrow> 'a \<Rightarrow> bool" where
  "eats f bs v \<longleftrightarrow> (\<forall>ctx rest. raw ctx \<longrightarrow> readable ctx = bs @ rest \<longrightarrow>
     (\<exists>ctx'. f ctx = Some (v, ctx') \<and> raw ctx' \<and> readable ctx' = rest))"

definition skips :: "(bits \<Rightarrow> bits option) \<Rightarrow> bool list \<Rightarrow> bool" where
  "skips f bs \<longleftrightarrow> (\<forall>ctx rest. raw ctx \<longrightarrow> readable ctx = bs @ rest \<longrightarrow>
     (\<exists>ctx'. f ctx = Some ctx' \<and> raw ctx' \<and> readable ctx' = rest))"

lemma eats_D: "eats f bs v \<Longrightarrow> raw ctx \<Longrightarrow> readable ctx = bs @ rest \<Longrightarrow>
    \<exists>ctx'. f ctx = Some (v, ctx') \<and> raw ctx' \<and> readable ctx' = rest"
  by (simp add: eats_def)

lemma skips_D: "skips f bs \<Longrightarrow> raw ctx \<Longrightarrow> readable ctx = bs @ rest \<Longrightarrow>
    \<exists>ctx'. f ctx = Some ctx' \<and> raw ctx' \<and> readable ctx' = rest"
  by (simp add: skips_def)

lemma eats_bind:
  assumes "eats f bs v" "eats (g v) cs w"
  shows "eats (\<lambda>ctx. Option.bind (f ctx) (\<lambda>(x, ctx). g x ctx)) (bs @ cs) w"
  unfolding eats_def
proof (intro allI impI)
  fix ctx rest assume "raw ctx" "readable ctx = (bs @ cs) @ rest"
  then obtain c1 where c1: "f ctx = Some (v, c1)" "readable c1 = cs @ rest" "raw c1"
    using eats_D [OF assms(1), of ctx "cs @ rest"] by auto
  then show "\<exists>ctx'. Option.bind (f ctx) (\<lambda>(x, ctx). g x ctx) = Some (w, ctx') \<and> raw ctx' \<and> readable ctx' = rest"
    using eats_D [OF assms(2), of c1 rest] by simp
qed

lemma skips_bind:
  assumes "skips f bs" "eats g cs w"
  shows "eats (\<lambda>ctx. Option.bind (f ctx) g) (bs @ cs) w"
  unfolding eats_def
proof (intro allI impI)
  fix ctx rest assume "raw ctx" "readable ctx = (bs @ cs) @ rest"
  then obtain c1 where c1: "f ctx = Some c1" "readable c1 = cs @ rest" "raw c1"
    using skips_D [OF assms(1), of ctx "cs @ rest"] by auto
  then show "\<exists>ctx'. Option.bind (f ctx) g = Some (w, ctx') \<and> raw ctx' \<and> readable ctx' = rest"
    using eats_D [OF assms(2), of c1 rest] by simp
qed

lemma skips_bind_eats:
  assumes "eats f bs v" "skips (g v) cs"
  shows "skips (\<lambda>ctx. Option.bind (f ctx) (\<lambda>(x, ctx). g x ctx)) (bs @ cs)"
  unfolding skips_def
proof (intro allI impI)
  fix ctx rest assume "raw ctx" "readable ctx = (bs @ cs) @ rest"
  then obtain c1 where c1: "f ctx = Some (v, c1)" "readable c1 = cs @ rest" "raw c1"
    using eats_D [OF assms(1), of ctx "cs @ rest"] by auto
  then show "\<exists>ctx'. Option.bind (f ctx) (\<lambda>(x, ctx). g x ctx) = Some ctx' \<and> raw ctx' \<and> readable ctx' = rest"
    using skips_D [OF assms(2), of c1 rest] by simp
qed

lemma skips_bind_skips:
  assumes "skips f bs" "skips g cs"
  shows "skips (\<lambda>ctx. Option.bind (f ctx) g) (bs @ cs)"
  unfolding skips_def
proof (intro allI impI)
  fix ctx rest assume "raw ctx" "readable ctx = (bs @ cs) @ rest"
  then obtain c1 where c1: "f ctx = Some c1" "readable c1 = cs @ rest" "raw c1"
    using skips_D [OF assms(1), of ctx "cs @ rest"] by auto
  then show "\<exists>ctx'. Option.bind (f ctx) g = Some ctx' \<and> raw ctx' \<and> readable ctx' = rest"
    using skips_D [OF assms(2), of c1 rest] by simp
qed

lemma eats_return: "eats (\<lambda>ctx. Some (v, ctx)) [] v"
  by (simp add: eats_def)

lemma skips_return: "skips Some []"
  by (simp add: skips_def)

text \<open>Such readers keep the contract of a bit reader, with raw as their invariant.\<close>

interpretation rw: bit_source BITS_get1 BITS_get readable raw
proof unfold_locales
  fix s b bs assume r: "raw s" "readable s = b # bs"
  note a = at_readable [OF r(1), of "[b]" bs]
  have l: "bpos s < 8 * length (bmem s)" using a(1) r(2) by simp
  from get1_raw [OF r(1) l] obtain s' where s': "BITS_get1 s = Some (of_bool (mbits (bmem s) ! bpos s), s')" "raw s'"
    "bmem s' = bmem s" "bpos s' = Suc (bpos s)" by blast
  have "mbits (bmem s) ! bpos s = b" using readable_raw [OF r(1)] r(2) l by (metis Cons_nth_drop_Suc length_mbits list.inject)
  moreover have "readable s' = bs" using s'(2-4) a(3) r(2) by (simp add: readable_raw)
  ultimately show "\<exists>s'. BITS_get1 s = Some (of_bool b, s') \<and> readable s' = bs \<and> raw s'" using s' by blast
next
  fix s assume "raw s" "readable s = []"
  then show "BITS_get1 s = None" using br.get1_Nil by (simp add: raw_def)
qed (rule br.getn_zero br.getn_Suc)+

lemma eats_get: "int (length bs) = n \<Longrightarrow> eats (\<lambda>ctx. BITS_get ctx n) bs (word_of_nat (bval bs))"
  unfolding eats_def using rw.getn_exact by blast

lemma eats_get1: "eats BITS_get1 [b] (of_bool b)"
  unfolding eats_def using rw.get1_Cons by fastforce

lemma eats_flag: "eats (g (of_bool b)) cs w \<Longrightarrow> eats (\<lambda>ctx. Option.bind (BITS_get1 ctx) (\<lambda>(x, ctx). g x ctx)) (b # cs) w"
  using eats_bind [OF eats_get1, of g b cs w] by simp

lemma skips_flag: "skips (g (of_bool b)) cs \<Longrightarrow> skips (\<lambda>ctx. Option.bind (BITS_get1 ctx) (\<lambda>(x, ctx). g x ctx)) (b # cs)"
  using skips_bind_eats [OF eats_get1, of g b cs] by simp

lemma eats_get_int: "int (length bs) = n \<Longrightarrow> n < 32 \<Longrightarrow> eats (\<lambda>ctx. get_int ctx n) bs (int (bval bs))"
  using eats_bind [OF eats_get, of bs n "\<lambda>v ctx. Some (sint v, ctx)" "[]" "int (bval bs)"] sint_bval [of bs]
  by (simp add: get_int_def eats_return)

lemma skips_fields: "\<forall>n\<in>set ns. 0 \<le> n \<Longrightarrow> sum_list ns = int (length bs) \<Longrightarrow> skips (\<lambda>ctx. read_fields ctx ns) bs"
proof (induction ns arbitrary: bs)
  case Nil
  then show ?case by (simp add: skips_return)
next
  case (Cons n ns)
  let ?a = "take (nat n) bs" and ?b = "drop (nat n) bs"
  have s: "0 \<le> sum_list ns" using Cons.prems(1) by (intro sum_list_nonneg) simp
  then have l: "int (length ?a) = n" "sum_list ns = int (length ?b)" using Cons.prems by auto
  have "eats (\<lambda>ctx. if n = 1 then BITS_get1 ctx else BITS_get ctx n) ?a (word_of_nat (bval ?a))"
    using eats_get [OF l(1)] by (cases "n = 1") (simp_all add: br.getn_1)
  from skips_bind_eats [OF this, of "\<lambda>v ctx. read_fields ctx ns" ?b] Cons.IH [OF _ l(2)] Cons.prems(1)
  show ?case by simp
qed

end
