(* ===== verification/Mpg4.thy ===== *)
theory Mpg4
  imports Util Raw_Bits
begin

text \<open>
  MPEG-4 part 2 video (Source/mpg4.c): the video object layer header (parsing it and clearing its
  low delay bit in place), the searches for start codes and frames, and the extra data. Memory is
  a byte list; a pointer is an offset in it.
\<close>

definition VIDEO_FORMAT_MPG4GMC :: int where "VIDEO_FORMAT_MPG4GMC = 2"

definition VIDEO_FOURCC_MP4V :: int where
  "VIDEO_FOURCC_MP4V = mmioFOURCC (CHR ''M'') (CHR ''P'') (CHR ''4'') (CHR ''V'')"

definition VIDEO_FOURCC_4GMC :: int where
  "VIDEO_FOURCC_4GMC = mmioFOURCC (CHR ''4'') (CHR ''G'') (CHR ''M'') (CHR ''C'')"

section \<open>The video object layer header\<close>

text \<open>The first fields: the type and the version of the object layer.\<close>

definition vol_head :: "bits \<Rightarrow> ((int \<times> int) \<times> bits) option" where
  "vol_head ctx = do {
     (r, ctx) \<leftarrow> BITS_get1 ctx;
     (ty, ctx) \<leftarrow> get_int ctx 8;
     (o_id, ctx) \<leftarrow> BITS_get1 ctx;
     if o_id \<noteq> 0 then do {
       (ver, ctx) \<leftarrow> get_int ctx 4;
       (prio, ctx) \<leftarrow> BITS_get ctx 3;
       Some ((ty, ver), ctx) }
     else Some ((ty, 1), ctx) }"

text \<open>The chroma format and the low delay bit, which is cleared in the memory.\<close>

definition vol_low_delay :: "bits \<Rightarrow> bits option" where
  "vol_low_delay ctx = do {
     (chroma, ctx) \<leftarrow> BITS_get ctx 2;
     low_delay \<leftarrow> BITS_peek1 ctx;
     ctx \<leftarrow> BITS_poke1 ctx 0;
     (b, ctx) \<leftarrow> BITS_get1 ctx;
     Some ctx }"

definition patch_vol_header :: "u8 list \<Rightarrow> u8 list option" where
  "patch_vol_header data = do {
     ((ty, ver), ctx) \<leftarrow> vol_head (BITS_init data (16 * 8));
     (aspect, ctx) \<leftarrow> get_int ctx 4;
     ctx \<leftarrow> (if aspect = 0x15 then read_fields ctx [8, 8] else Some ctx);
     (c, ctx) \<leftarrow> BITS_get1 ctx;
     ctx \<leftarrow> (if c \<noteq> 0 then vol_low_delay ctx else Some ctx);
     Some (bmem ctx) }"

function fix_loop :: "u8 list \<Rightarrow> int \<Rightarrow> int \<Rightarrow> int \<Rightarrow> u32 \<Rightarrow> u8 list option" where
  "fix_loop m d count n code =
     (if count < n then do {
        c \<leftarrow> rd m d;
        let code = push_bit 8 code OR ucast c;
        m \<leftarrow> (if code = 0x00000120
              then map_option (\<lambda>x. take (nat (d + 1)) m @ x) (patch_vol_header (drop (nat (d + 1)) m))
              else Some m);
        fix_loop m (d + 1) (count + 1) n code }
      else Some m)"
  by pat_completeness auto
termination by (relation "measure (\<lambda>(m, d, count, n, code). nat (n - count))") auto

declare fix_loop.simps [simp del]

definition MPG4_fix_vol_header :: "u8 list \<Rightarrow> int \<Rightarrow> u8 list option" where
  "MPG4_fix_vol_header data sz = fix_loop data 0 0 (sz - 4) 0"

definition h263_par :: "(int \<times> int) list" where
  "h263_par = [(0, 1), (1, 1), (12, 11), (10, 11), (16, 11), (40, 33), (0, 1), (0, 1), (0, 1), (0, 1), (0, 1),
     (0, 1), (0, 1), (0, 1), (0, 1), (0, 1)]"

definition vol_aspect :: "bits \<Rightarrow> ((int \<times> int) \<times> bits) option" where
  "vol_aspect ctx = do {
     (aspect, ctx) \<leftarrow> get_int ctx 4;
     if aspect = 0xf then do {
       (num, ctx) \<leftarrow> get_int ctx 8;
       (den, ctx) \<leftarrow> get_int ctx 8;
       Some ((num, den), ctx) }
     else do { par \<leftarrow> rd h263_par aspect; Some (par, ctx) } }"

definition vol_control :: "bits \<Rightarrow> bits option" where
  "vol_control ctx = do {
     (c, ctx) \<leftarrow> BITS_get1 ctx;
     if c \<noteq> 0 then do {
       ctx \<leftarrow> vol_low_delay ctx;
       (vbv, ctx) \<leftarrow> BITS_get1 ctx;
       if vbv \<noteq> 0 then read_fields ctx [15, 1, 15, 1, 15, 1, 3, 11, 1, 15, 1] else Some ctx }
     else Some ctx }"

text \<open>The shape and the time base: shape, numerator and denominator.\<close>

definition vol_time :: "int \<Rightarrow> bits \<Rightarrow> ((int \<times> int \<times> int) \<times> bits) option" where
  "vol_time ver ctx = do {
     (shape, ctx) \<leftarrow> get_int ctx 2;
     ctx \<leftarrow> (if shape = 3 \<and> ver \<noteq> 1 then read_fields ctx [4] else Some ctx);
     (mk, ctx) \<leftarrow> BITS_get1 ctx;
     (den, ctx) \<leftarrow> get_int ctx 16;
     l \<leftarrow> alog2 (word_of_int (den - 1));
     let inc = (if l + 1 < 1 then 1 else l + 1);
     (mk, ctx) \<leftarrow> BITS_get1 ctx;
     (fixed, ctx) \<leftarrow> BITS_get1 ctx;
     (num, ctx) \<leftarrow> (if fixed \<noteq> 0 then get_int ctx inc else Some (1, ctx));
     Some ((shape, num, den), ctx) }"

definition vol_size :: "video_props \<Rightarrow> int \<Rightarrow> int \<Rightarrow> int \<times> int \<Rightarrow> bits \<Rightarrow> (video_props \<times> bits) option" where
  "vol_size video num den aspect ctx = do {
     (mk, ctx) \<leftarrow> BITS_get1 ctx;
     (w, ctx) \<leftarrow> get_int ctx 13;
     (mk, ctx) \<leftarrow> BITS_get1 ctx;
     (h, ctx) \<leftarrow> get_int ctx 13;
     (mk, ctx) \<leftarrow> BITS_get1 ctx;
     Some (video\<lparr>v_width := w, v_height := h, fourcc := VIDEO_FOURCC_MP4V, format := VIDEO_FORMAT_MPG4,
       scale := num, rate := den, aspect_n := fst aspect, aspect_d := snd aspect, vol := 1, v_valid := 1\<rparr>, ctx) }"

definition vol_sprite :: "video_props \<Rightarrow> int \<Rightarrow> bits \<Rightarrow> (video_props \<times> bits) option" where
  "vol_sprite video ver ctx = do {
     (interlaced, ctx) \<leftarrow> BITS_get1 ctx;
     (obmc, ctx) \<leftarrow> BITS_get1 ctx;
     (su, ctx) \<leftarrow> get_int ctx (if ver = 1 then 1 else 2);
     (video, ctx) \<leftarrow> (if su = 1 \<or> su = 2 then do {
         let video = video\<lparr>fourcc := VIDEO_FOURCC_4GMC, format := VIDEO_FORMAT_MPG4GMC\<rparr>;
         ctx \<leftarrow> read_fields ctx ((if su = 1 then [13, 1, 13, 1, 13, 1, 13, 1] else []) @ [6, 2, 1] @ (if su = 1 then [1] else []));
         Some (video, ctx) }
       else Some (video, ctx));
     Some (video\<lparr>sprite_usage := su\<rparr>, ctx) }"

definition parse_vol_header :: "video_props \<Rightarrow> u8 list \<Rightarrow> int \<Rightarrow> (video_props \<times> u8 list) option" where
  "parse_vol_header video data len = do {
     ((ty, ver), ctx) \<leftarrow> vol_head (BITS_init data (len * 8));
     (aspect, ctx) \<leftarrow> vol_aspect ctx;
     ctx \<leftarrow> vol_control ctx;
     ((shape, num, den), ctx) \<leftarrow> vol_time ver ctx;
     if shape \<noteq> 2 then do {
       (video, ctx) \<leftarrow> (if shape = 0 then vol_size video num den aspect ctx else Some (video, ctx));
       (video, ctx) \<leftarrow> vol_sprite video ver ctx;
       Some (video, bmem ctx) }
     else Some (video, bmem ctx) }"

section \<open>Searching\<close>

text \<open>
  The loop the searches share: it shifts bytes into a 32-bit code until the test accepts the code
  at the count, and gives the offset behind the last byte read with the code.
\<close>

function scan_code :: "(u32 \<Rightarrow> int \<Rightarrow> bool) \<Rightarrow> u8 list \<Rightarrow> int \<Rightarrow> int \<Rightarrow> int \<Rightarrow> u32 \<Rightarrow> (int \<times> u32) option option" where
  "scan_code test m d count n code =
     (if count < n then do {
        c \<leftarrow> rd m d;
        let code = push_bit 8 code OR ucast c;
        if test code count then Some (Some (d + 1, code)) else scan_code test m (d + 1) (count + 1) n code }
      else Some None)"
  by pat_completeness auto
termination by (relation "measure (\<lambda>(test, m, d, count, n, code). nat (n - count))") auto

declare scan_code.simps [simp del]

definition MPG4_get_video_props :: "video_props \<Rightarrow> u8 list \<Rightarrow> int \<Rightarrow> (int \<times> video_props \<times> u8 list) option" where
  "MPG4_get_video_props video data sz = do {
     hit \<leftarrow> scan_code (\<lambda>code count. code = 0x00000120) data 0 0 (sz - 4) 0;
     (case hit of None \<Rightarrow> Some (1, video, data)
      | Some (d, code) \<Rightarrow> do {
          (video, m) \<leftarrow> parse_vol_header video (drop (nat d) data) (sz - d);
          Some (0, video, take (nat d) data @ m) }) }"

text \<open>The offset of the start code and its type (not stored when there is none).\<close>

definition MPG4_find_start_code :: "u8 list \<Rightarrow> int \<Rightarrow> (int \<times> int option) option" where
  "MPG4_find_start_code data sz = do {
     hit \<leftarrow> scan_code (\<lambda>code count. code AND 0xFFFFFF00 = 0x100 \<and> count > 2) data 0 0 (sz - 4) 0;
     Some (case hit of None \<Rightarrow> (-1, None) | Some (d, code) \<Rightarrow> (d - 4, Some (uint (code AND 0xFF)))) }"

definition MPG4_findFrame :: "u8 list \<Rightarrow> int \<Rightarrow> int \<Rightarrow> int option" where
  "MPG4_findFrame data ofs sz = do {
     hit \<leftarrow> scan_code (\<lambda>code count. code = 0x000001B6 \<and> count > 3) data ofs 0 (sz - ofs - 4) 0;
     Some (case hit of None \<Rightarrow> -1 | Some (d, code) \<Rightarrow> d - 4) }"

text \<open>The offset of the sequence start code, None for NULL.\<close>

function find_video_sc_loop :: "u8 list \<Rightarrow> int \<Rightarrow> int \<Rightarrow> int \<Rightarrow> int option option" where
  "find_video_sc_loop m p i len =
     (if i < len then do {
        v \<leftarrow> get32BE m p;
        if v = 0x000001B0 then Some (Some p) else find_video_sc_loop m (p + 1) (i + 1) len }
      else Some None)"
  by pat_completeness auto
termination by (relation "measure (\<lambda>(m, p, i, len). nat (len - i))") auto

declare find_video_sc_loop.simps [simp del]

definition MPG4_find_video_sc :: "u8 list \<Rightarrow> int \<Rightarrow> int \<Rightarrow> int option option" where
  "MPG4_find_video_sc m p len = find_video_sc_loop m p 0 len"

text \<open>The user data behind a start code is overwritten with x up to the next 0 byte.\<close>

function kill_user_data :: "u8 list \<Rightarrow> int \<Rightarrow> int \<Rightarrow> int \<Rightarrow> u8 list option" where
  "kill_user_data m d c n = do {
     v \<leftarrow> rd m d;
     if v \<noteq> 0 \<and> c < n then do { m \<leftarrow> wr m d 0x78; kill_user_data m (d + 1) (c + 1) n } else Some m }"
  by pat_completeness auto
termination by (relation "measure (\<lambda>(m, d, c, n). nat (n - c))") auto

declare kill_user_data.simps [simp del]

text \<open>The result and the memory; fst is the flag for the first frame.\<close>

function frame_size_loop :: "u8 list \<Rightarrow> int \<Rightarrow> int \<Rightarrow> u32 \<Rightarrow> bool \<Rightarrow> bool \<Rightarrow> (int \<times> u8 list) option" where
  "frame_size_loop m count n code is_first fix_user =
     (if count < n then do {
        c \<leftarrow> rd m count;
        let code = push_bit 8 code OR ucast c;
        if code = 0x000001B6 then
          (if is_first then frame_size_loop m (count + 1) n code False fix_user else Some (count - 3, m))
        else do {
          m \<leftarrow> (if fix_user \<and> code = 0x000001B2 then kill_user_data m (count + 1) count n else Some m);
          frame_size_loop m (count + 1) n code is_first fix_user } }
      else Some (0, m))"
  by pat_completeness auto
termination by (relation "measure (\<lambda>(m, count, n, code, is_first, fix_user). nat (n - count))") auto

declare frame_size_loop.simps [simp del]

definition MPG4_get_frame_size :: "u8 list \<Rightarrow> int \<Rightarrow> bool \<Rightarrow> (int \<times> u8 list) option" where
  "MPG4_get_frame_size data sz fix_user_data = frame_size_loop data 0 (sz - 4) 0 True fix_user_data"

text \<open>A comparison of bytes with a pattern, stopping at the first difference.\<close>

fun bytes_match :: "u8 list \<Rightarrow> int \<Rightarrow> u8 list \<Rightarrow> bool option" where
  "bytes_match m p [] = Some True"
| "bytes_match m p (b # bs) = do { c \<leftarrow> rd m p; if c = b then bytes_match m (p + 1) bs else Some False }"

fun find_frame_loop :: "u8 list \<Rightarrow> int \<Rightarrow> nat \<Rightarrow> int option option" where
  "find_frame_loop m p 0 = Some None"
| "find_frame_loop m p (Suc k) = do {
     hit \<leftarrow> bytes_match m p [0x00, 0x00, 0x01, 0xB6];
     if hit then Some (Some p) else find_frame_loop m (p + 1) k }"

definition find_frame :: "u8 list \<Rightarrow> int \<Rightarrow> int \<Rightarrow> int option option" where
  "find_frame m pos mx = find_frame_loop m pos (nat (if mx = 0 then 65536 else mx))"

text \<open>The return value and the position, which is stored only for a frame that was accepted.\<close>

definition MPG4_checkIFrame :: "u8 list \<Rightarrow> int \<Rightarrow> (int \<times> int option) option" where
  "MPG4_checkIFrame data mx = do {
     f \<leftarrow> find_frame data 0 mx;
     (case f of None \<Rightarrow> Some (0, None)
      | Some p \<Rightarrow> do { b \<leftarrow> rd data (p + 4); Some (if b AND 0xC0 = 0 then (1, Some p) else (0, None)) }) }"

definition MPG4_get_frame_type :: "u8 list \<Rightarrow> int \<Rightarrow> (int \<times> frame_type option) option" where
  "MPG4_get_frame_type data mx = do {
     f \<leftarrow> find_frame data 0 mx;
     (case f of None \<Rightarrow> Some (1, None)
      | Some p \<Rightarrow> do {
          b \<leftarrow> rd data (p + 4);
          let t = b AND 0xC0;
          Some (if t = 0x00 then (0, Some I_VOP) else if t = 0x40 then (0, Some P_VOP)
                else if t = 0x80 then (0, Some B_VOP) else (1, None)) }) }"

text \<open>The first offset below n at which the pattern lies, or the offset at which the loop ends.\<close>

function seek_pat :: "u8 list \<Rightarrow> u8 list \<Rightarrow> int \<Rightarrow> int \<Rightarrow> int option" where
  "seek_pat pat m len n =
     (if len < n then do {
        hit \<leftarrow> mem_match m len pat;
        if hit then Some len else seek_pat pat m (len + 1) n }
      else Some len)"
  by pat_completeness auto
termination by (relation "measure (\<lambda>(pat, m, len, n). nat (n - len))") auto

declare seek_pat.simps [simp del]

definition MPG4_get_VOL_len :: "u8 list \<Rightarrow> int \<Rightarrow> int option" where
  "MPG4_get_VOL_len data sz = do {
     len \<leftarrow> seek_pat [0x00, 0x00, 0x01, 0x20] data 0 (sz - 4);
     if len \<ge> sz - 4 then Some 0
     else do {
       len \<leftarrow> seek_pat [0x00, 0x00, 0x01] data (len + 1) (sz - 4);
       Some (if len \<ge> sz - 4 then 0 else len) } }"

text \<open>The array extraData holds 4096 bytes.\<close>

definition MPG4_get_extradata :: "video_props \<Rightarrow> u8 list \<Rightarrow> int \<Rightarrow> (int \<times> video_props) option" where
  "MPG4_get_extradata video data sz = do {
     vol \<leftarrow> MPG4_get_VOL_len data sz;
     if vol = 0 then Some (1, video)
     else do {
       let n = min vol (int (length (extraData video)));
       xs \<leftarrow> rd_blk data 0 n;
       m \<leftarrow> wr_blk (extraData video) 0 xs;
       Some (0, video\<lparr>extraDataSize := n, extraData := m\<rparr>) } }"


lemma vol_head_at:
  assumes "at_bit ctx m 0" "3 \<le> length m"
  shows "\<exists>ty ver ctx'. vol_head ctx = Some ((ty, ver), ctx') \<and> at_bit ctx' m (if mbits m ! 9 then 17 else 10)"
proof -
  obtain c1 where c1: "BITS_get1 ctx = Some (of_bool (mbits m ! 0), c1)" "at_bit c1 m 1"
    using at_get1 [OF assms(1)] assms(2) by (cases m) auto
  obtain ty c2 where c2: "get_int c1 8 = Some (ty, c2)" "at_bit c2 m 9"
    using at_get_int [OF c1(2), of 8] assms(2) by auto
  obtain c3 where c3: "BITS_get1 c2 = Some (of_bool (mbits m ! 9), c3)" "at_bit c3 m 10"
    using at_get1 [OF c2(2)] assms(2) by auto
  show ?thesis
  proof (cases "mbits m ! 9")
    case True
    obtain ver c4 where c4: "get_int c3 4 = Some (ver, c4)" "at_bit c4 m 14"
      using at_get_int [OF c3(2), of 4] assms(2) by auto
    obtain v c5 where "BITS_get c4 3 = Some (v, c5)" "at_bit c5 m 17"
      using at_get [OF c4(2), of 3] assms(2) by auto
    then show ?thesis using c1 c2 c3 c4 True by (simp add: vol_head_def)
  next
    case False
    then show ?thesis using c1 c2 c3 by (simp add: vol_head_def)
  qed
qed

lemma vol_low_delay_at:
  assumes "at_bit ctx m p" "p + 2 < 8 * length m"
  shows "\<exists>ctx' m'. vol_low_delay ctx = Some ctx' \<and> at_bit ctx' m' (p + 3) \<and> length m' = length m \<and> mbits m' = (mbits m)[p + 2 := False]"
proof -
  obtain v c1 where c1: "BITS_get ctx 2 = Some (v, c1)" "at_bit c1 m (p + 2)"
    using at_get [OF assms(1), of 2] assms(2) by auto
  obtain c2 b m' where c2: "BITS_peek1 c1 = Some b" "BITS_poke1 c1 0 = Some c2" "at_bit c2 m' (p + 2)"
    "length m' = length m" "mbits m' = (mbits m)[p + 2 := False]"
    using at_poke [OF c1(2)] assms(2) by auto
  obtain b' c3 where "BITS_get1 c2 = Some (b', c3)" "at_bit c3 m' (p + 3)"
    using at_get1 [OF c2(3)] c2(4) assms(2) by (auto simp: numeral_3_eq_3)
  then show ?thesis using c1 c2 by (intro exI [of _ c3] exI [of _ m']) (simp add: vol_low_delay_def)
qed

text \<open>
  The patch needs four bytes. It reads the aspect code and never takes it for an extended one
  (the test is for 0x15, and the code has four bits), so the bit it clears is at a fixed place.
\<close>

definition patched :: "bool list \<Rightarrow> bool list" where
  "patched bs = (let p = (if bs ! 9 then 21 else 14) in if bs ! p then bs[p + 3 := False] else bs)"

lemma patch_vol_header_at:
  assumes "4 \<le> length data"
  shows "\<exists>data'. patch_vol_header data = Some data' \<and> length data' = length data \<and> mbits data' = patched (mbits data)"
proof -
  let ?p = "if mbits data ! 9 then 17 else 10"
  have p: "?p + 8 \<le> 8 * length data" using assms by auto
  obtain ty ver c1 where c1: "vol_head (BITS_init data (16 * 8)) = Some ((ty, ver), c1)" "at_bit c1 data ?p"
    using vol_head_at [OF at_init, of data "16 * 8"] assms by auto
  let ?a = "int (bval (take 4 (drop ?p (mbits data))))"
  obtain c2 where c2: "get_int c1 4 = Some (?a, c2)" "at_bit c2 data (?p + 4)"
    using at_get_int [OF c1(2), of 4] p by auto
  have "length (take 4 (drop ?p (mbits data))) = 4" using p by simp
  then have a: "?a \<noteq> 0x15" using bval_bound [of "take 4 (drop ?p (mbits data))"] by simp
  obtain c3 where c3: "BITS_get1 c2 = Some (of_bool (mbits data ! (?p + 4)), c3)" "at_bit c3 data (?p + 5)"
    using at_get1 [OF c2(2)] p by (auto simp: add.commute)
  show ?thesis
  proof (cases "mbits data ! (?p + 4)")
    case True
    obtain c4 m' where c4: "vol_low_delay c3 = Some c4" "at_bit c4 m' (?p + 5 + 3)" "length m' = length data"
      "mbits m' = (mbits data)[?p + 5 + 2 := False]"
      using vol_low_delay_at [OF c3(2)] p by auto
    then have "patch_vol_header data = Some m'"
      using c1(1) c2(1) c3(1) a True by (simp add: patch_vol_header_def at_bit_def)
    then show ?thesis using True c4(3,4) by (auto simp: patched_def Let_def)
  next
    case False
    then have "patch_vol_header data = Some data"
      using c1(1) c2(1) c3 a by (simp add: patch_vol_header_def at_bit_def)
    then show ?thesis using False by (auto simp: patched_def Let_def)
  qed
qed


text \<open>What may have happened to a memory: bits were cleared.\<close>

definition only_cleared :: "u8 list \<Rightarrow> u8 list \<Rightarrow> bool" where
  "only_cleared m m' \<longleftrightarrow> list_all2 (\<lambda>old new. new \<longrightarrow> old) (mbits m) (mbits m')"

lemma only_cleared_refl [simp]: "only_cleared m m"
  by (simp add: only_cleared_def list_all2_same)

lemma only_cleared_trans: "only_cleared a b \<Longrightarrow> only_cleared b c \<Longrightarrow> only_cleared a c"
  by (auto simp: only_cleared_def list_all2_conv_all_nth)

lemma only_cleared_length: "only_cleared m m' \<Longrightarrow> length m' = length m"
  unfolding only_cleared_def by (drule list_all2_lengthD) simp

lemma update_False_nth: "j < length xs \<Longrightarrow> xs[i := False] ! j \<Longrightarrow> xs ! j"
  by (cases "i = j") auto

lemma patched_cleared: "list_all2 (\<lambda>old new. new \<longrightarrow> old) bs (patched bs)"
  by (auto simp: patched_def Let_def list_all2_conv_all_nth dest: update_False_nth)

lemma fix_loop_safe:
  assumes "0 \<le> d" "n + 4 \<le> int (length m)"
  shows "\<exists>m'. fix_loop m d d n code = Some m' \<and> only_cleared m m'"
  using assms
proof (induction "nat (n - d)" arbitrary: m d code rule: less_induct)
  case less
  show ?case
  proof (cases "d < n")
    case False
    then show ?thesis by (simp add: fix_loop.simps [of m d])
  next
    case True
    let ?code = "push_bit 8 code OR ucast (m ! nat d)" and ?k = "nat (d + 1)"
    have rd: "rd m d = Some (m ! nat d)" using less.prems True by (simp add: rd_in_range)
    obtain m1 where m1: "(if ?code = 0x00000120 then map_option (\<lambda>x. take ?k m @ x) (patch_vol_header (drop ?k m)) else Some m) = Some m1"
      and c1: "only_cleared m m1"
    proof (cases "?code = 0x00000120")
      case False
      then show ?thesis using that by simp
    next
      case hit: True
      have "4 \<le> length (drop ?k m)" using less.prems True by simp
      from patch_vol_header_at [OF this] obtain x where x: "patch_vol_header (drop ?k m) = Some x"
        "mbits x = patched (mbits (drop ?k m))" by blast
      have "only_cleared (take ?k m @ drop ?k m) (take ?k m @ x)"
        unfolding only_cleared_def mbits_append x(2)
        by (intro list_all2_appendI patched_cleared) (simp add: list_all2_same)
      then show ?thesis using that x(1) hit by simp
    qed
    have "fix_loop m d d n code = fix_loop m1 (d + 1) (d + 1) n ?code"
      using True rd m1 by (subst fix_loop.simps) (simp add: Let_def)
    moreover have "\<exists>m'. fix_loop m1 (d + 1) (d + 1) n ?code = Some m' \<and> only_cleared m1 m'"
      by (rule less.hyps) (use True less.prems only_cleared_length [OF c1] in auto)
    ultimately show ?thesis using only_cleared_trans [OF c1] by auto
  qed
qed

section \<open>The syntax of the header\<close>

text \<open>
  The fields of a header as the standard names them: the version and priority, if given; the
  pixel aspect for code 15; and the control parameters, if given (chroma format, low delay and the
  79 bits of the buffer parameters).
\<close>

record vol_hdr =
  h_random :: bool
  h_type :: nat
  h_ver :: "(nat \<times> nat) option"
  h_aspect :: nat
  h_par :: "nat \<times> nat"
  h_control :: "(nat \<times> bool \<times> bool list option) option"

definition vol_hdr_ok :: "vol_hdr \<Rightarrow> bool" where
  "vol_hdr_ok v \<longleftrightarrow> h_type v < 256 \<and> (case h_ver v of None \<Rightarrow> True | Some (a, b) \<Rightarrow> a < 16 \<and> b < 8)
     \<and> h_aspect v < 16 \<and> fst (h_par v) < 256 \<and> snd (h_par v) < 256
     \<and> (case h_control v of None \<Rightarrow> True | Some (c, l, vbv) \<Rightarrow> c < 4 \<and> (case vbv of None \<Rightarrow> True | Some bs \<Rightarrow> length bs = 79))"

definition head_bits :: "vol_hdr \<Rightarrow> bool list" where
  "head_bits v = h_random v # nbits 8 (h_type v) @ (case h_ver v of None \<Rightarrow> [False] | Some (a, b) \<Rightarrow> True # nbits 4 a @ nbits 3 b)"

definition aspect_bits :: "vol_hdr \<Rightarrow> bool list" where
  "aspect_bits v = nbits 4 (h_aspect v) @ (if h_aspect v = 15 then nbits 8 (fst (h_par v)) @ nbits 8 (snd (h_par v)) else [])"

definition control_bits :: "vol_hdr \<Rightarrow> bool list" where
  "control_bits v = (case h_control v of None \<Rightarrow> [False]
     | Some (c, l, vbv) \<Rightarrow> True # nbits 2 c @ l # (case vbv of None \<Rightarrow> [False] | Some bs \<Rightarrow> True # bs))"

definition clear_low_delay :: "vol_hdr \<Rightarrow> vol_hdr" where
  "clear_low_delay v = v\<lparr>h_control := map_option (\<lambda>(c, l, vbv). (c, False, vbv)) (h_control v)\<rparr>"

lemma patched_tail:
  assumes "length xs = (if xs ! 9 then 21 else 14)" "4 \<le> length t"
  shows "patched (xs @ t) = xs @ (if t ! 0 then t[3 := False] else t)"
proof -
  have "9 < length xs" using assms(1) by (auto split: if_splits)
  then show ?thesis using assms by (auto simp: patched_def nth_append list_update_append Let_def)
qed

lemma length_head_bits: "length (head_bits v) = (if (head_bits v @ ys) ! 9 then 17 else 10)"
  by (auto simp: head_bits_def nth_append nth_Cons' split: option.split)

lemma nbits_8: "nbits 8 n = [bit n 7, bit n 6, bit n 5, bit n 4, bit n 3, bit n 2, bit n 1, bit n 0]"
  by (simp add: nbits_def upt_rec)

lemma skips_low_delay: "length bs = 2 \<Longrightarrow> skips vol_low_delay (bs @ [l])"
  unfolding skips_def
proof (intro allI impI)
  fix ctx rest assume bs: "length bs = 2" and r: "raw ctx" "readable ctx = (bs @ [l]) @ rest"
  have p: "bpos ctx + 3 \<le> 8 * length (bmem ctx)" "drop (bpos ctx + 3) (mbits (bmem ctx)) = rest"
    using at_readable [OF r] bs by auto
  have at: "at_bit ctx (bmem ctx) (bpos ctx)" using r(1) by (simp add: at_bit_def)
  have "bpos ctx + 2 < 8 * length (bmem ctx)" using p(1) by simp
  from vol_low_delay_at [OF at this] obtain ctx' m' where c: "vol_low_delay ctx = Some ctx'" "at_bit ctx' m' (bpos ctx + 3)"
    "mbits m' = (mbits (bmem ctx))[bpos ctx + 2 := False]"
    by blast
  then have "readable ctx' = drop (bpos ctx + 3) ((mbits (bmem ctx))[bpos ctx + 2 := False])"
    by (simp add: at_bit_def readable_raw)
  then show "\<exists>ctx'. vol_low_delay ctx = Some ctx' \<and> raw ctx' \<and> readable ctx' = rest"
    using c p(2) by (auto simp: at_bit_def)
qed

section \<open>Decoding\<close>

lemma bval_nbits_int [simp]: "n < 2 ^ k \<Longrightarrow> int (bval (nbits k n)) = int n"
  by (simp add: bval_nbits)

lemma eats_nbits: "n < 2 ^ k \<Longrightarrow> k < 32 \<Longrightarrow> eats (\<lambda>ctx. get_int ctx (int k)) (nbits k n) (int n)"
  using eats_get_int [of "nbits k n" "int k"] by simp

definition ver_of :: "vol_hdr \<Rightarrow> int" where
  "ver_of v = (case h_ver v of None \<Rightarrow> 1 | Some (a, b) \<Rightarrow> int a)"

lemma eats_vol_head:
  assumes "vol_hdr_ok v"
  shows "eats vol_head (head_bits v) (int (h_type v), ver_of v)"
proof -
  have t: "eats (\<lambda>ctx. get_int ctx 8) (nbits 8 (h_type v)) (int (h_type v))"
    using eats_nbits [of "h_type v" 8] assms by (simp add: vol_hdr_ok_def)
  show ?thesis
  proof (cases "h_ver v")
    case None
    have "eats vol_head (h_random v # nbits 8 (h_type v) @ [False]) (int (h_type v), 1)"
      unfolding vol_head_def by (rule eats_flag, rule eats_bind [OF t], rule eats_flag) (simp add: eats_return)
    then show ?thesis by (simp add: head_bits_def ver_of_def None)
  next
    case (Some p)
    obtain a b where p: "p = (a, b)" by (cases p)
    have a: "eats (\<lambda>ctx. get_int ctx 4) (nbits 4 a) (int a)"
      using eats_nbits [of a 4] assms by (simp add: vol_hdr_ok_def Some p)
    have r: "eats (\<lambda>ctx. do { (ver, ctx) \<leftarrow> get_int ctx 4; (prio, ctx) \<leftarrow> BITS_get ctx 3; Some ((int (h_type v), ver), ctx) })
        (nbits 4 a @ nbits 3 b @ []) (int (h_type v), int a)"
      by (rule eats_bind [OF a], rule eats_bind [OF eats_get]) (simp_all add: eats_return)
    have "eats vol_head (h_random v # nbits 8 (h_type v) @ True # (nbits 4 a @ nbits 3 b @ [])) (int (h_type v), int a)"
      unfolding vol_head_def by (rule eats_flag, rule eats_bind [OF t], rule eats_flag) (use r in simp)
    then show ?thesis by (simp add: head_bits_def ver_of_def Some p)
  qed
qed

definition aspect_of :: "vol_hdr \<Rightarrow> int \<times> int" where
  "aspect_of v = (if h_aspect v = 15 then (int (fst (h_par v)), int (snd (h_par v))) else h263_par ! h_aspect v)"

lemma eats_vol_aspect:
  assumes "vol_hdr_ok v"
  shows "eats vol_aspect (aspect_bits v) (aspect_of v)"
proof -
  have t: "eats (\<lambda>ctx. get_int ctx 4) (nbits 4 (h_aspect v)) (int (h_aspect v))"
    and w: "eats (\<lambda>ctx. get_int ctx 8) (nbits 8 (fst (h_par v))) (int (fst (h_par v)))"
    and h: "eats (\<lambda>ctx. get_int ctx 8) (nbits 8 (snd (h_par v))) (int (snd (h_par v)))"
    using eats_nbits [of "h_aspect v" 4] eats_nbits [of "fst (h_par v)" 8] eats_nbits [of "snd (h_par v)" 8] assms
    by (simp_all add: vol_hdr_ok_def)
  show ?thesis
  proof (cases "h_aspect v = 15")
    case True
    have "eats (\<lambda>ctx. do { (num, ctx) \<leftarrow> get_int ctx 8; (den, ctx) \<leftarrow> get_int ctx 8; Some ((num, den), ctx) })
        (nbits 8 (fst (h_par v)) @ nbits 8 (snd (h_par v)) @ []) (aspect_of v)"
      by (rule eats_bind [OF w], rule eats_bind [OF h]) (simp add: aspect_of_def True eats_return)
    then have "eats vol_aspect (nbits 4 (h_aspect v) @ (nbits 8 (fst (h_par v)) @ nbits 8 (snd (h_par v)) @ [])) (aspect_of v)"
      unfolding vol_aspect_def by (intro eats_bind [OF t]) (simp add: True)
    then show ?thesis by (simp add: aspect_bits_def True)
  next
    case False
    then have "h_aspect v < length h263_par" using assms by (simp add: vol_hdr_ok_def h263_par_def)
    then have "eats vol_aspect (nbits 4 (h_aspect v) @ []) (aspect_of v)"
      unfolding vol_aspect_def by (intro eats_bind [OF t]) (simp add: aspect_of_def False eats_return)
    then show ?thesis by (simp add: aspect_bits_def False)
  qed
qed

lemma skips_vol_control:
  assumes "vol_hdr_ok v"
  shows "skips vol_control (control_bits v)"
proof (cases "h_control v")
  case None
  then show ?thesis unfolding vol_control_def control_bits_def by (simp, intro skips_flag) (simp add: skips_return)
next
  case (Some p)
  obtain c l vbv where p: "p = (c, l, vbv)" by (cases p)
  have f: "skips (\<lambda>ctx. do { (vbv, ctx) \<leftarrow> BITS_get1 ctx;
      if vbv \<noteq> 0 then read_fields ctx [15, 1, 15, 1, 15, 1, 3, 11, 1, 15, 1] else Some ctx })
    (case vbv of None \<Rightarrow> [False] | Some bs \<Rightarrow> True # bs)"
    using assms by (cases vbv)
      (auto simp: Some p vol_hdr_ok_def skips_return intro!: skips_flag skips_fields [of "[15, 1, 15, 1, 15, 1, 3, 11, 1, 15, 1]", simplified])
  show ?thesis
    unfolding vol_control_def control_bits_def Some p
    using skips_flag [of _ True] skips_bind_skips [OF skips_low_delay f, of "nbits 2 c" l] by simp
qed


text \<open>The fields behind the control parameters, for a rectangular layer.\<close>

record vol_body =
  b_den :: nat
  b_num :: "nat option"
  b_w :: nat
  b_h :: nat
  b_interlaced :: bool
  b_obmc :: bool
  b_sprite :: nat
  b_warp :: "bool list"

text \<open>The number of bits of a time increment: those of the largest one, but at least one.\<close>

definition inc_bits :: "nat \<Rightarrow> nat" where
  "inc_bits den = Suc (code_len (den - 2))"

definition warp_len :: "nat \<Rightarrow> nat" where
  "warp_len su = (if su = 1 then 66 else if su = 2 then 9 else 0)"

definition vol_body_ok :: "vol_hdr \<Rightarrow> vol_body \<Rightarrow> bool" where
  "vol_body_ok v b \<longleftrightarrow> 1 \<le> b_den b \<and> b_den b < 65536 \<and> (case b_num b of None \<Rightarrow> True | Some n \<Rightarrow> n < 2 ^ inc_bits (b_den b))
     \<and> b_w b < 8192 \<and> b_h b < 8192 \<and> b_sprite b < (if ver_of v = 1 then 2 else 4) \<and> length (b_warp b) = warp_len (b_sprite b)"

definition time_bits :: "vol_body \<Rightarrow> bool list" where
  "time_bits b = nbits 2 0 @ True # nbits 16 (b_den b) @ True #
     (case b_num b of None \<Rightarrow> [False] | Some n \<Rightarrow> True # nbits (inc_bits (b_den b)) n)"

definition size_bits :: "vol_body \<Rightarrow> bool list" where
  "size_bits b = True # nbits 13 (b_w b) @ True # nbits 13 (b_h b) @ [True]"

definition sprite_bits :: "vol_hdr \<Rightarrow> vol_body \<Rightarrow> bool list" where
  "sprite_bits v b = b_interlaced b # (\<not> b_obmc b) # nbits (if ver_of v = 1 then 1 else 2) (b_sprite b) @ b_warp b"

lemma alog2_inc:
  assumes "1 \<le> den" "den < 65536"
  shows "alog2 (word_of_int (int den - 1)) = Some (int (code_len (den - 2)))"
proof (cases "den = 1")
  case True
  then show ?thesis by (simp add: code_len.simps)
next
  case False
  have w: "word_of_int (int den - 1) = (word_of_nat (den - 1) :: u32)" using assms(1) by (simp add: of_nat_diff)
  have u: "unat (word_of_nat (den - 1) :: u32) = den - 1" using assms(2) by (simp add: unat_of_nat)
  then have "(word_of_nat (den - 1) :: u32) \<noteq> 0" using False assms(1) by (metis diff_is_0_eq le_antisym unat_0)
  then obtain k where k: "alog2 (word_of_nat (den - 1)) = Some (int k)" "2 ^ k \<le> den - 1" "den - 1 < 2 ^ (k + 1)"
    using alog2_spec u by fastforce
  let ?c = "code_len (den - 2)"
  have "den - 2 + 1 = den - 1" using False assms(1) by simp
  then have c: "2 ^ ?c \<le> den - 1" "den - 1 < 2 ^ (?c + 1)" using code_len_bounds [of "den - 2"] by simp_all
  have "(2::nat) ^ k < 2 ^ (?c + 1)" "(2::nat) ^ ?c < 2 ^ (k + 1)" using k(2,3) c by linarith+
  then have "k < ?c + 1" "?c < k + 1" by (simp_all only: power_strict_increasing_iff)
  then have "k = ?c" by simp
  then show ?thesis using k(1) unfolding w by (simp only:)
qed

lemma inc_bits_le: "den < 65536 \<Longrightarrow> inc_bits den \<le> 17"
proof -
  assume "den < 65536"
  then have "den - 2 + 1 < 2 ^ 16" by simp
  then have "(2::nat) ^ code_len (den - 2) < 2 ^ 16" using code_len_bounds [of "den - 2"] by linarith
  then have "code_len (den - 2) < 16" by (simp only: power_strict_increasing_iff)
  then show ?thesis by (simp add: inc_bits_def)
qed

lemma eats_vol_time:
  assumes "vol_body_ok v b"
  shows "eats (vol_time ver) (time_bits b) (0, (case b_num b of None \<Rightarrow> 1 | Some n \<Rightarrow> int n), int (b_den b))"
proof -
  have z: "eats (\<lambda>ctx. get_int ctx 2) (nbits 2 0) 0" using eats_nbits [of 0 2] by simp
  have d: "eats (\<lambda>ctx. get_int ctx 16) (nbits 16 (b_den b)) (int (b_den b))"
    using eats_nbits [of "b_den b" 16] assms by (simp add: vol_body_ok_def)
  have a: "alog2 (word_of_nat (b_den b) - 1) = Some (int (code_len (b_den b - 2)))"
    using alog2_inc [of "b_den b"] assms by (simp add: vol_body_ok_def)
  let ?r = "case b_num b of None \<Rightarrow> 1 | Some n \<Rightarrow> int n"
  have n: "eats (\<lambda>ctx. do { (fixed, ctx) \<leftarrow> BITS_get1 ctx;
      (num, ctx) \<leftarrow> (if fixed \<noteq> 0 then get_int ctx (int (code_len (b_den b - 2)) + 1) else Some (1, ctx));
      Some ((0, num, int (b_den b)), ctx) })
    (case b_num b of None \<Rightarrow> [False] | Some n \<Rightarrow> True # nbits (inc_bits (b_den b)) n) (0, ?r, int (b_den b))"
  proof (cases "b_num b")
    case None
    then show ?thesis by (simp, intro eats_flag) (simp add: eats_return)
  next
    case (Some n)
    have "eats (\<lambda>ctx. get_int ctx (int (code_len (b_den b - 2)) + 1)) (nbits (inc_bits (b_den b)) n) (int n)"
      using eats_nbits [of n "inc_bits (b_den b)"] inc_bits_le [of "b_den b"] assms Some
      by (simp add: vol_body_ok_def inc_bits_def add.commute)
    from eats_bind [OF this eats_return, of "\<lambda>num. (0, num, int (b_den b))"] show ?thesis
      using Some by (simp, intro eats_flag) simp
  qed
  have "eats (vol_time ver) (nbits 2 0 @ (True # (nbits 16 (b_den b) @ (True #
     (case b_num b of None \<Rightarrow> [False] | Some n \<Rightarrow> True # nbits (inc_bits (b_den b)) n)))))
     (0, ?r, int (b_den b))"
    unfolding vol_time_def
    by (rule eats_bind [OF z], simp, rule eats_flag, rule eats_bind [OF d], simp add: a, rule eats_flag) (use n in simp)
  then show ?thesis by (simp add: time_bits_def)
qed

definition sized :: "video_props \<Rightarrow> vol_hdr \<Rightarrow> vol_body \<Rightarrow> video_props" where
  "sized video v b = video\<lparr>v_width := int (b_w b), v_height := int (b_h b), fourcc := VIDEO_FOURCC_MP4V, format := VIDEO_FORMAT_MPG4,
       scale := (case b_num b of None \<Rightarrow> 1 | Some n \<Rightarrow> int n), rate := int (b_den b),
       aspect_n := fst (aspect_of v), aspect_d := snd (aspect_of v), vol := 1, v_valid := 1\<rparr>"

lemma eats_vol_size:
  assumes "vol_body_ok v b"
  shows "eats (vol_size video (case b_num b of None \<Rightarrow> 1 | Some n \<Rightarrow> int n) (int (b_den b)) (aspect_of v)) (size_bits b) (sized video v b)"
proof -
  have w: "eats (\<lambda>ctx. get_int ctx 13) (nbits 13 (b_w b)) (int (b_w b))"
    and h: "eats (\<lambda>ctx. get_int ctx 13) (nbits 13 (b_h b)) (int (b_h b))"
    using eats_nbits [of "b_w b" 13] eats_nbits [of "b_h b" 13] assms by (simp_all add: vol_body_ok_def)
  show ?thesis
    unfolding vol_size_def size_bits_def
    by (rule eats_flag, rule eats_bind [OF w], rule eats_flag, rule eats_bind [OF h], rule eats_flag)
      (simp add: sized_def eats_return)
qed

definition sprited :: "video_props \<Rightarrow> vol_body \<Rightarrow> video_props" where
  "sprited video b = (if b_sprite b = 1 \<or> b_sprite b = 2 then video\<lparr>fourcc := VIDEO_FOURCC_4GMC, format := VIDEO_FORMAT_MPG4GMC\<rparr>
     else video)\<lparr>sprite_usage := int (b_sprite b)\<rparr>"

lemma eats_vol_sprite:
  assumes "vol_body_ok v b"
  shows "eats (vol_sprite video (ver_of v)) (sprite_bits v b) (sprited video b)"
proof -
  let ?k = "if ver_of v = 1 then 1 else 2 :: nat"
  have u: "eats (\<lambda>ctx. get_int ctx (if ver_of v = 1 then 1 else 2)) (nbits ?k (b_sprite b)) (int (b_sprite b))"
    using eats_nbits [of "b_sprite b" ?k] assms by (simp add: vol_body_ok_def split: if_splits)
  have f: "skips (\<lambda>ctx. read_fields ctx ((if su = 1 then [13, 1, 13, 1, 13, 1, 13, 1] else []) @ [6, 2, 1] @ (if su = 1 then [1] else []))) bs"
    if "length bs = warp_len su" "su = 1 \<or> su = 2" for su bs
    using that by (intro skips_fields) (auto simp: warp_len_def)
  let ?g = "\<lambda>ctx. do { ctx \<leftarrow> read_fields ctx ((if b_sprite b = 1 then [13, 1, 13, 1, 13, 1, 13, 1] else []) @ [6, 2, 1] @ (if b_sprite b = 1 then [1] else []));
      Some ((video\<lparr>fourcc := VIDEO_FOURCC_4GMC, format := VIDEO_FORMAT_MPG4GMC\<rparr>)\<lparr>sprite_usage := int (b_sprite b)\<rparr>, ctx) }"
  have r: "eats (\<lambda>ctx. do { (video, ctx) \<leftarrow> (if int (b_sprite b) = 1 \<or> int (b_sprite b) = 2 then do {
         let video = video\<lparr>fourcc := VIDEO_FOURCC_4GMC, format := VIDEO_FORMAT_MPG4GMC\<rparr>;
         ctx \<leftarrow> read_fields ctx ((if int (b_sprite b) = 1 then [13, 1, 13, 1, 13, 1, 13, 1] else []) @ [6, 2, 1] @ (if int (b_sprite b) = 1 then [1] else []));
         Some (video, ctx) }
       else Some (video, ctx)); Some (video\<lparr>sprite_usage := int (b_sprite b)\<rparr>, ctx) }) (b_warp b) (sprited video b)"
  proof (cases "b_sprite b = 1 \<or> b_sprite b = 2")
    case True
    have i: "int (b_sprite b) = 1 \<longleftrightarrow> b_sprite b = 1" "int (b_sprite b) = 2 \<longleftrightarrow> b_sprite b = 2" by linarith+
    have "skips (\<lambda>ctx. read_fields ctx ((if b_sprite b = 1 then [13, 1, 13, 1, 13, 1, 13, 1] else []) @ [6, 2, 1] @ (if b_sprite b = 1 then [1] else []))) (b_warp b)"
      by (rule f) (use assms True in \<open>auto simp: vol_body_ok_def\<close>)
    from skips_bind [OF this eats_return [of "sprited video b"]] have "eats ?g (b_warp b) (sprited video b)"
      using True by (simp only: sprited_def if_True append_Nil2)
    then show ?thesis unfolding i by (simp only: True if_True Let_def bind_assoc bind.bind_lunit prod.case)
  next
    case False
    then show ?thesis using assms by (auto simp: vol_body_ok_def warp_len_def sprited_def eats_return)
  qed
  show ?thesis
    unfolding vol_sprite_def sprite_bits_def
    by (rule eats_flag, rule eats_flag, rule eats_bind [OF u]) (use r in simp)
qed


text \<open>The whole header.\<close>

lemma parse_vol_header_ok:
  assumes "vol_hdr_ok v" "vol_body_ok v b"
    and "mbits data = head_bits v @ aspect_bits v @ control_bits v @ time_bits b @ size_bits b @ sprite_bits v b @ rest"
  shows "\<exists>m. parse_vol_header video data len = Some (sprited (sized video v b) b, m)"
proof -
  let ?c0 = "BITS_init data (len * 8)" and ?n = "case b_num b of None \<Rightarrow> 1 | Some n \<Rightarrow> int n"
  have r0: "raw ?c0" "readable ?c0 = head_bits v @ (aspect_bits v @ control_bits v @ time_bits b @ size_bits b @ sprite_bits v b @ rest)"
    using assms(3) by (simp_all add: readable_init mbits_def)
  obtain c1 where c1: "vol_head ?c0 = Some ((int (h_type v), ver_of v), c1)" "raw c1"
    "readable c1 = aspect_bits v @ (control_bits v @ time_bits b @ size_bits b @ sprite_bits v b @ rest)"
    using eats_D [OF eats_vol_head [OF assms(1)] r0] by blast
  obtain c2 where c2: "vol_aspect c1 = Some (aspect_of v, c2)" "raw c2"
    "readable c2 = control_bits v @ (time_bits b @ size_bits b @ sprite_bits v b @ rest)"
    using eats_D [OF eats_vol_aspect [OF assms(1)] c1(2,3)] by blast
  obtain c3 where c3: "vol_control c2 = Some c3" "raw c3" "readable c3 = time_bits b @ (size_bits b @ sprite_bits v b @ rest)"
    using skips_D [OF skips_vol_control [OF assms(1)] c2(2,3)] by blast
  obtain c4 where c4: "vol_time (ver_of v) c3 = Some ((0, ?n, int (b_den b)), c4)" "raw c4" "readable c4 = size_bits b @ (sprite_bits v b @ rest)"
    using eats_D [OF eats_vol_time [OF assms(2)] c3(2,3)] by blast
  obtain c5 where c5: "vol_size video ?n (int (b_den b)) (aspect_of v) c4 = Some (sized video v b, c5)" "raw c5"
    "readable c5 = sprite_bits v b @ rest"
    using eats_D [OF eats_vol_size [OF assms(2)] c4(2,3)] by blast
  obtain c6 where "vol_sprite (sized video v b) (ver_of v) c5 = Some (sprited (sized video v b) b, c6)"
    using eats_D [OF eats_vol_sprite [OF assms(2)] c5(2,3)] by blast
  then show ?thesis using c1(1) c2(1) c3(1) c4(1) c5(1) by (simp add: parse_vol_header_def)
qed

section \<open>What the searches find\<close>

text \<open>The code after k bytes: the last four of them, with zeros before the first.\<close>

definition code_after :: "u8 list \<Rightarrow> nat \<Rightarrow> u32" where
  "code_after m k = foldl (\<lambda>code c. push_bit 8 code OR ucast c) 0 (take k m)"

lemma scan_code_first:
  assumes "j \<le> n" "d + n \<le> length m"
  shows "case scan_code test m (int (d + j)) (int j) (int n) (code_after (drop d m) j) of
      Some (Some (e, code)) \<Rightarrow> \<exists>k. j \<le> k \<and> k < n \<and> e = int (d + k + 1) \<and> code = code_after (drop d m) (k + 1) \<and> test code (int k)
        \<and> (\<forall>i. j \<le> i \<and> i < k \<longrightarrow> \<not> test (code_after (drop d m) (i + 1)) (int i))
    | Some None \<Rightarrow> \<forall>i. j \<le> i \<and> i < n \<longrightarrow> \<not> test (code_after (drop d m) (i + 1)) (int i)
    | None \<Rightarrow> False"
  using assms(1)
proof (induction rule: inc_induct)
  case base
  then show ?case by (auto simp: scan_code.simps [of test m _ "int n"])
next
  case (step j)
  have j: "d + j < length m" using step.hyps assms(2) by simp
  let ?c = "code_after (drop d m) (Suc j)"
  have c: "?c = push_bit 8 (code_after (drop d m) j) OR ucast (m ! (d + j))"
    using j by (simp add: code_after_def take_Suc_conv_app_nth)
  have rd: "rd m (int (d + j)) = Some (m ! (d + j))" using j by (simp only: rd_of_nat if_True)
  have s: "scan_code test m (int (d + j)) (int j) (int n) (code_after (drop d m) j)
      = (if test ?c (int j) then Some (Some (int (d + j) + 1, ?c))
         else scan_code test m (int (d + Suc j)) (int (Suc j)) (int n) (code_after (drop d m) (Suc j)))"
    using step.hyps rd by (subst scan_code.simps) (simp add: c Let_def ac_simps)
  show ?case
  proof (cases "test ?c (int j)")
    case True
    then show ?thesis unfolding s using step.hyps by (auto intro!: exI [of _ j])
  next
    case False
    have ex: "j \<le> i \<longleftrightarrow> i = j \<or> Suc j \<le> i" for i by auto
    show ?thesis using step.IH False unfolding s
      by (auto split: option.splits simp: ex)
  qed
qed


lemma scan_code_start:
  assumes "n \<le> length m"
  shows "case scan_code test m 0 0 (int n) 0 of
      Some (Some (e, code)) \<Rightarrow> \<exists>k < n. e = int (k + 1) \<and> code = code_after m (k + 1) \<and> test code (int k)
        \<and> (\<forall>i < k. \<not> test (code_after m (i + 1)) (int i))
    | Some None \<Rightarrow> \<forall>i < n. \<not> test (code_after m (i + 1)) (int i)
    | None \<Rightarrow> False"
proof -
  have "code_after m 0 = 0" by (simp add: code_after_def)
  then show ?thesis using scan_code_first [of 0 n 0 m test] assms by (auto split: option.splits)
qed

lemma scan_code_hit:
  assumes "n \<le> length m" "k < n" "test (code_after m (k + 1)) (int k)" "\<And>i. i < k \<Longrightarrow> \<not> test (code_after m (i + 1)) (int i)"
  shows "scan_code test m 0 0 (int n) 0 = Some (Some (int (k + 1), code_after m (k + 1)))"
proof (cases "scan_code test m 0 0 (int n) 0")
  case None
  then show ?thesis using scan_code_start [OF assms(1), of test] by simp
next
  case (Some hit)
  then obtain ec where ec: "hit = Some ec"
    using scan_code_start [OF assms(1), of test] assms(2,3) by (cases hit) auto
  obtain e code where e: "ec = (e, code)" by (cases ec)
  obtain k' where k': "e = int (k' + 1)" "code = code_after m (k' + 1)" "test (code_after m (k' + 1)) (int k')"
    "\<forall>i<k'. \<not> test (code_after m (i + 1)) (int i)"
    using scan_code_start [OF assms(1), of test] Some ec e by auto
  have "k' = k" using k'(3,4) assms(3,4) by (cases k' k rule: linorder_cases) auto
  then show ?thesis using Some ec e k'(1,2) by simp
qed

lemma shift_four:
  "push_bit 8 (push_bit 8 (push_bit 8 (push_bit 8 w OR ucast a) OR ucast b) OR ucast c) OR ucast d = be32 a b c d" for w :: u32
  by (rule bit_word_eqI) (auto simp: be32_def bit_simps)

lemma code_after_four:
  assumes "k + 3 < length m"
  shows "code_after m (k + 4) = be32 (m ! k) (m ! (k + 1)) (m ! (k + 2)) (m ! (k + 3))"
proof -
  have "take (k + 4) m = take k m @ [m ! k, m ! (k + 1), m ! (k + 2), m ! (k + 3)]"
    using assms by (simp add: take_Suc_conv_app_nth numeral_eq_Suc)
  then show ?thesis by (simp only: code_after_def foldl_append foldl_Cons foldl_Nil shift_four)
qed

lemma be32_start: "be32 a b c d AND 0xFFFFFF00 = 0x100 \<longleftrightarrow> a = 0 \<and> b = 0 \<and> c = 1"
proof -
  have "be32 a b c d AND push_bit 8 (mask 24) = be32 a b c 0"
    by (rule bit_word_eqI) (auto simp: be32_def bit_simps)
  moreover have "(push_bit 8 (mask 24) :: u32) = 0xFFFFFF00" by (simp add: mask_eq_exp_minus_1 push_bit_eq_mult)
  moreover have "(0x100 :: u32) = be32 0 0 1 0" by (simp add: be32_def)
  ultimately show ?thesis using be32_inject [of a b c 0 0 0 1 0] by simp
qed

lemma be32_last: "uint (be32 a b c d AND 0xFF) = uint d"
proof -
  have "be32 a b c d AND mask 8 = ucast d"
    by (rule bit_word_eqI) (auto simp: be32_def bit_simps dest: bit_imp_le_length)
  moreover have "(mask 8 :: u32) = 0xFF" by (simp add: mask_eq_exp_minus_1)
  ultimately show ?thesis by (simp add: uint_up_ucast is_up)
qed

section \<open>Properties\<close>

text \<open>
  MPG4_fix_vol_header is memory safe on every buffer of at least the given size, also when a
  start code stands directly before its last four bytes, and all it does to the buffer is to
  clear bits.
\<close>

theorem MPG4_fix_vol_header_safe:
  assumes "sz \<le> int (length data)"
  shows "\<exists>data'. MPG4_fix_vol_header data sz = Some data' \<and> only_cleared data data'"
  using fix_loop_safe [of 0 "sz - 4" data 0] assms by (simp add: MPG4_fix_vol_header_def)

theorem MPG4_fix_vol_header_safe_witness:
  "\<exists>data'. MPG4_fix_vol_header [0, 0, 1, 0x20, 0, 0x06, 0x60, 0] 8 = Some data' \<and> only_cleared [0, 0, 1, 0x20, 0, 0x06, 0x60, 0] data'"
  by (rule MPG4_fix_vol_header_safe) simp

text \<open>
  The patch of a header clears its low delay bit when the pixel aspect has a fixed code. With an
  extended pixel aspect (code 15) it does not: the test for the extended code never holds, so
  the aspect bytes are taken for the control parameters, and the bit that is cleared, if any, is
  the fourth of the pixel width.
\<close>

theorem patch_vol_header_low_delay:
  assumes "vol_hdr_ok v" "mbits data = head_bits v @ aspect_bits v @ control_bits v @ rest" "4 \<le> length data"
  shows "\<exists>data'. patch_vol_header data = Some data' \<and>
    (if h_aspect v \<noteq> 15 then mbits data' = head_bits v @ aspect_bits v @ control_bits (clear_low_delay v) @ rest
     else mbits data' = head_bits v @
       aspect_bits (v\<lparr>h_par := (if 128 \<le> fst (h_par v) then unset_bit 4 (fst (h_par v)) else fst (h_par v), snd (h_par v))\<rparr>)
         @ control_bits v @ rest)"
proof -
  obtain data' where d: "patch_vol_header data = Some data'" "mbits data' = patched (mbits data)"
    using patch_vol_header_at [OF assms(3)] by blast
  let ?xs = "head_bits v @ nbits 4 (h_aspect v)"
  have l: "length ?xs = (if ?xs ! 9 then 21 else 14)" using length_head_bits [of v "nbits 4 (h_aspect v)"] by (simp split: if_splits)
  have len: "32 \<le> length (mbits data)" using assms(3) by simp
  show ?thesis
  proof (cases "h_aspect v = 15")
    case False
    then have t: "mbits data = ?xs @ (control_bits v @ rest)" using assms(2) by (simp add: aspect_bits_def)
    have "4 \<le> length (control_bits v @ rest)" using len l unfolding t by (auto split: if_splits)
    from patched_tail [OF l this] have "mbits data' = ?xs @ control_bits (clear_low_delay v) @ rest"
      unfolding d(2) t by (auto simp: control_bits_def clear_low_delay_def list_update_append nbits_def upt_rec split: option.splits)
    then show ?thesis using d(1) False by (simp add: aspect_bits_def)
  next
    case True
    let ?w = "fst (h_par v)"
    let ?t = "nbits 8 ?w @ nbits 8 (snd (h_par v)) @ control_bits v @ rest"
    have t: "mbits data = ?xs @ ?t" using assms(2) True by (simp add: aspect_bits_def)
    have "?w < 256" using assms(1) by (simp add: vol_hdr_ok_def)
    then have "?w div 128 = (if 128 \<le> ?w then 1 else 0)" by (auto intro: div_nat_eqI)
    then have "bit ?w 7 \<longleftrightarrow> 128 \<le> ?w" by (simp add: bit_iff_odd)
    then have "mbits data' = ?xs @ nbits 8 (if 128 \<le> ?w then unset_bit 4 ?w else ?w) @ nbits 8 (snd (h_par v)) @ control_bits v @ rest"
      unfolding d(2) t by (subst patched_tail [OF l]) (auto simp: nbits_8 bit_unset_bit_iff)
    then show ?thesis using d(1) True by (simp add: aspect_bits_def)
  qed
qed
text \<open>A header with the pixel aspect 144:45; the patch makes it 128:45 and keeps the low delay bit.\<close>

definition vol_sample :: vol_hdr where
  "vol_sample = \<lparr>h_random = False, h_type = 1, h_ver = None, h_aspect = 15, h_par = (144, 45), h_control = Some (1, True, None)\<rparr>"

theorem patch_vol_header_low_delay_witness:
  "\<exists>data'. patch_vol_header [0x00, 0xBE, 0x40, 0xB6, 0xC0] = Some data' \<and> (\<exists>rest. mbits data' =
     head_bits vol_sample @ aspect_bits (vol_sample\<lparr>h_par := (128, 45)\<rparr>) @ control_bits vol_sample @ rest)"
proof -
  have ok: "vol_hdr_ok vol_sample" by (simp add: vol_hdr_ok_def vol_sample_def)
  have b: "mbits [0x00, 0xBE, 0x40, 0xB6, 0xC0] = head_bits vol_sample @ aspect_bits vol_sample @ control_bits vol_sample @ replicate 5 False"
    by code_simp
  have "unset_bit 4 (144 :: nat) = 128" by code_simp
  then show ?thesis using patch_vol_header_low_delay [OF ok b] by (auto simp: vol_sample_def)
qed

text \<open>
  C38. MPG4_get_video_props decodes every video object layer header for a rectangular layer: behind
  bytes without the start code, a header with given fields yields these fields (size, pixel
  aspect, time base, the sprite mode and the codec), whatever follows.
\<close>

theorem MPG4_get_video_props_decodes:
  assumes "vol_hdr_ok v" "vol_body_ok v b"
    and "mbits h = head_bits v @ aspect_bits v @ control_bits v @ time_bits b @ size_bits b @ sprite_bits v b @ rest"
    and "\<forall>i < length pre + 3. code_after (pre @ [0, 0, 1]) (i + 1) \<noteq> 0x120"
  shows "\<exists>m. MPG4_get_video_props video (pre @ [0, 0, 1, 0x20] @ h) (int (length pre + 4 + length h))
    = Some (0, sprited (sized video v b) b, m)"
proof -
  let ?d = "pre @ [0, 0, 1, 0x20] @ h" and ?k = "length pre + 3" and ?n = "length pre + length h"
  have "50 \<le> length (mbits h)" unfolding assms(3) by (simp add: head_bits_def time_bits_def size_bits_def)
  then have h: "4 \<le> length h" by simp
  have before: "code_after ?d (i + 1) \<noteq> 0x120" if "i < ?k" for i
  proof -
    have "?d = (pre @ [0, 0, 1]) @ 0x20 # h" by simp
    then have "take (i + 1) ?d = take (i + 1) (pre @ [0, 0, 1])" using that by (simp only: take_append) simp
    then show ?thesis using that assms(4) by (simp only: code_after_def) blast
  qed
  have at: "code_after ?d (?k + 1) = 0x120"
  proof -
    have "?d ! length pre = 0" "?d ! (length pre + 1) = 0" "?d ! (length pre + 2) = 1" "?d ! (length pre + 3) = 0x20"
      by (simp_all add: nth_append)
    moreover have "be32 0 0 1 0x20 = 0x120" by (simp add: be32_def)
    moreover have "length pre + 3 < length ?d" "?k + 1 = length pre + 4" by simp_all
    ultimately show ?thesis using code_after_four [of "length pre" ?d] by (simp only:)
  qed
  let ?t = "\<lambda>(code :: u32) (count :: int). code = 0x00000120"
  have "scan_code ?t ?d 0 0 (int ?n) 0 = Some (Some (int (?k + 1), code_after ?d (?k + 1)))"
    by (rule scan_code_hit) (use h at before in auto)
  moreover have "int (length pre + 4 + length h) - 4 = int ?n" by simp
  moreover have "drop (nat (int (?k + 1))) ?d = h"
    unfolding nat_int by simp
  ultimately show ?thesis
    using parse_vol_header_ok [OF assms(1,2,3), of video "int (length h)"] by (auto simp: MPG4_get_video_props_def)
qed

text \<open>A header for 640 by 480 pixels at 25 frames per second with square pixels.\<close>

definition vol_hdr_sample :: vol_hdr where
  "vol_hdr_sample = \<lparr>h_random = False, h_type = 1, h_ver = None, h_aspect = 1, h_par = (0, 0), h_control = None\<rparr>"

definition vol_body_sample :: vol_body where
  "vol_body_sample = \<lparr>b_den = 25, b_num = None, b_w = 640, b_h = 480, b_interlaced = False, b_obmc = False,
     b_sprite = 0, b_warp = []\<rparr>"

theorem MPG4_get_video_props_decodes_witness:
  "\<forall>video. \<exists>m. MPG4_get_video_props video ([0x42] @ [0, 0, 1, 0x20] @ [0x00, 0x84, 0x40, 0x06, 0x68, 0xA0, 0x21, 0xE0, 0xA0]) 14
    = Some (0, sprited (sized video vol_hdr_sample vol_body_sample) vol_body_sample, m)"
proof -
  have 1: "vol_hdr_ok vol_hdr_sample" by (simp add: vol_hdr_ok_def vol_hdr_sample_def)
  have 2: "vol_body_ok vol_hdr_sample vol_body_sample"
    by (simp add: vol_body_ok_def vol_hdr_sample_def vol_body_sample_def ver_of_def warp_len_def)
  have 3: "mbits [0x00, 0x84, 0x40, 0x06, 0x68, 0xA0, 0x21, 0xE0, 0xA0] = head_bits vol_hdr_sample @ aspect_bits vol_hdr_sample @ control_bits vol_hdr_sample
      @ time_bits vol_body_sample @ size_bits vol_body_sample @ sprite_bits vol_hdr_sample vol_body_sample @ [False, False, False, False]"
    by (simp add: mbits_def byte_bits_code head_bits_def aspect_bits_def control_bits_def time_bits_def size_bits_def
        sprite_bits_def vol_hdr_sample_def vol_body_sample_def ver_of_def nbits_def upt_rec bit_Suc_0_iff)
  have 4: "\<forall>i < length [0x42 :: u8] + 3. code_after ([0x42] @ [0, 0, 1]) (i + 1) \<noteq> 0x120"
  proof (intro allI impI)
    fix i assume "i < length [0x42 :: u8] + 3"
    then have "i = 0 \<or> i = 1 \<or> i = 2 \<or> i = 3" by auto
    then show "code_after ([0x42] @ [0, 0, 1]) (i + 1) \<noteq> 0x120" by (auto simp: code_after_def)
  qed
  from MPG4_get_video_props_decodes [OF 1 2 3 4] show ?thesis by simp
qed

text \<open>
  MPG4_find_start_code returns the offset and the type of the first start code that has at least
  four bytes behind its type, or -1.
\<close>

theorem MPG4_find_start_code_first:
  assumes "n \<le> length data"
  shows "\<exists>r t. MPG4_find_start_code data (int n) = Some (r, t) \<and>
    (let found = (\<lambda>k. data ! k = 0 \<and> data ! (k + 1) = 0 \<and> data ! (k + 2) = 1) in
     (r = -1 \<and> t = None \<and> (\<forall>k. k + 7 < n \<longrightarrow> \<not> found k))
     \<or> (\<exists>k. r = int k \<and> k + 7 < n \<and> found k \<and> t = Some (uint (data ! (k + 3))) \<and> (\<forall>i<k. \<not> found i)))"
proof -
  let ?t = "\<lambda>(code :: u32) count. code AND 0xFFFFFF00 = 0x100 \<and> (count :: int) > 2"
  let ?f = "\<lambda>k. data ! k = 0 \<and> data ! (k + 1) = 0 \<and> data ! (k + 2) = 1"
  have t: "?t (code_after data (i + 1)) (int i) \<longleftrightarrow> 3 \<le> i \<and> ?f (i - 3)" if "i + 4 < n" for i
  proof (cases "3 \<le> i")
    case True
    then have "code_after data (i + 1) = be32 (data ! (i - 3)) (data ! (i - 3 + 1)) (data ! (i - 3 + 2)) (data ! (i - 3 + 3))"
      using code_after_four [of "i - 3" data] that assms by simp
    then show ?thesis using True by (simp add: be32_start)
  qed simp
  show ?thesis
  proof (cases "n < 4")
    case True
    then have "scan_code ?t data 0 0 (int n - 4) 0 = Some None" by (simp add: scan_code.simps)
    then show ?thesis using True by (simp add: MPG4_find_start_code_def)
  next
    case False
    then have n: "int n - 4 = int (n - 4)" by simp
    have "n - 4 \<le> length data" using assms by simp
    note s = scan_code_start [OF this, of ?t]
    show ?thesis
    proof (cases "scan_code ?t data 0 0 (int (n - 4)) 0")
      case None
      then show ?thesis using s by simp
    next
      case (Some hit)
      show ?thesis
      proof (cases hit)
        case None
        then have nf: "\<not> ?t (code_after data (i + 1)) (int i)" if "i < n - 4" for i using s Some that by simp
        have "\<not> ?f k" if "k + 7 < n" for k
          using nf [of "k + 3"] t [of "k + 3"] that by simp
        then show ?thesis using Some None by (simp add: MPG4_find_start_code_def n)
      next
        case h: (Some ec)
        obtain e code where ec: "ec = (e, code)" by (cases ec)
        obtain k where k: "k < n - 4" "e = int (k + 1)" "code = code_after data (k + 1)" "?t code (int k)"
          "\<forall>i. i < k \<longrightarrow> \<not> ?t (code_after data (i + 1)) (int i)" using s Some h ec by auto
        have f: "3 \<le> k" "?f (k - 3)" using t [of k] k(1,3,4) by auto
        have nf: "\<not> ?f i" if "i < k - 3" for i
        proof -
          have i: "i + 3 < k" "i + 3 + 4 < n" using that k(1) by simp_all
          then have "\<not> ?t (code_after data (i + 3 + 1)) (int (i + 3))" using k(5) by blast
          then show ?thesis using t [OF i(2)] by simp
        qed
        have "code = be32 (data ! (k - 3)) (data ! (k - 3 + 1)) (data ! (k - 3 + 2)) (data ! (k - 3 + 3))"
          using code_after_four [of "k - 3" data] f(1) k(1,3) assms by simp
        then have u: "uint (code AND 0xFF) = uint (data ! (k - 3 + 3))" by (simp only: be32_last)
        have "e - 4 = int (k - 3)" using k(2) f(1) by simp
        then have "MPG4_find_start_code data (int n) = Some (int (k - 3), Some (uint (data ! (k - 3 + 3))))"
          by (simp only: MPG4_find_start_code_def n Some h ec u bind.bind_lunit option.case prod.case)
        moreover have "k - 3 + 7 < n" using k(1) f(1) by simp
        ultimately show ?thesis using f(2) nf unfolding Let_def by blast
      qed
    qed
  qed
qed

theorem MPG4_find_start_code_first_witness:
  "\<exists>r t. MPG4_find_start_code [7, 0, 0, 1, 0xB6, 0, 0, 0, 0] (int 9) = Some (r, t) \<and> r = 1 \<and> t = Some 0xB6"
proof -
  let ?m = "[7, 0, 0, 1, 0xB6, 0, 0, 0, 0] :: u8 list"
  have "9 \<le> length ?m" by simp
  from MPG4_find_start_code_first [OF this] obtain r t where r: "MPG4_find_start_code ?m (int 9) = Some (r, t)"
    and c: "(r = -1 \<and> t = None \<and> (\<forall>k. k + 7 < 9 \<longrightarrow> \<not> (?m ! k = 0 \<and> ?m ! (k + 1) = 0 \<and> ?m ! (k + 2) = 1)))
     \<or> (\<exists>k. r = int k \<and> k + 7 < 9 \<and> (?m ! k = 0 \<and> ?m ! (k + 1) = 0 \<and> ?m ! (k + 2) = 1) \<and> t = Some (uint (?m ! (k + 3))))"
    unfolding Let_def by blast
  from c show ?thesis
  proof
    assume "r = -1 \<and> t = None \<and> (\<forall>k. k + 7 < 9 \<longrightarrow> \<not> (?m ! k = 0 \<and> ?m ! (k + 1) = 0 \<and> ?m ! (k + 2) = 1))"
    then have "\<not> (?m ! 1 = 0 \<and> ?m ! (1 + 1) = 0 \<and> ?m ! (1 + 2) = 1)" by (elim conjE allE [of _ 1]) simp
    then show ?thesis by simp
  next
    assume "\<exists>k. r = int k \<and> k + 7 < 9 \<and> (?m ! k = 0 \<and> ?m ! (k + 1) = 0 \<and> ?m ! (k + 2) = 1) \<and> t = Some (uint (?m ! (k + 3)))"
    then obtain k where k: "r = int k" "k < 2" "?m ! k = 0" "t = Some (uint (?m ! (k + 3)))" by auto
    then have "k = 1" by (auto simp: less_2_cases_iff)
    then show ?thesis using r k by simp
  qed
qed

end
