(* ===== verification/Mpeg2.thy ===== *)
theory Mpeg2
  imports Mpg4 H264_Nal
begin

text \<open>
  MPEG-1/2 video (Source/mpeg2.c): sequence headers, the properties of MPEG, MPEG-4 and H.264
  elementary streams, the report of changed properties, and the mangler that gives every decoded
  picture its time. The fraction reduction is from Source/av.c.
\<close>

section \<open>Reducing a fraction\<close>

function av_gcd :: "int \<Rightarrow> int \<Rightarrow> int" where
  "av_gcd a b = (if b \<noteq> 0 then av_gcd b (a smod b) else a)"
  by pat_completeness auto
termination
proof (relation "measure (\<lambda>(a, b). nat \<bar>b\<bar>)")
  fix a b :: int assume "b \<noteq> 0"
  then have "\<bar>a smod b\<bar> < \<bar>b\<bar>" using smod_int_range [of b a] by auto
  then show "((b, a smod b), (a, b)) \<in> measure (\<lambda>(a, b). nat \<bar>b\<bar>)" by simp
qed simp

declare av_gcd.simps [simp del]

definition av_reduce :: "int \<Rightarrow> int \<Rightarrow> int \<times> int" where
  "av_reduce a b = (let c = av_gcd a b in if c \<noteq> 0 then (a sdiv c, b sdiv c) else (a, b))"

section \<open>Sequence headers\<close>

text \<open>The array has 15 entries and 14 initialisers.\<close>

definition aspect_ratio_mpeg1 :: "int list" where
  "aspect_ratio_mpeg1 = [10000, 6735, 7031, 7615, 8055, 8437, 8935, 9157, 9815, 10255, 10695, 10950, 11575, 12015, 0]"

definition aspect_ratio_numerator :: "int list" where "aspect_ratio_numerator = [1, 4, 16, 221]"
definition aspect_ratio_denominator :: "int list" where "aspect_ratio_denominator = [1, 3, 9, 100]"
definition frame_rate_rate :: "int list" where "frame_rate_rate = [24000, 24, 25, 30000, 30, 50, 60000, 60]"
definition frame_rate_scale :: "int list" where "frame_rate_scale = [1001, 1, 1, 1001, 1, 1, 1001, 1]"

definition MPEG2_get_video_props :: "video_props \<Rightarrow> u8 list \<Rightarrow> int \<Rightarrow> int \<Rightarrow> (int \<times> video_props) option" where
  "MPEG2_get_video_props video m p mpeg = do {
     b4 \<leftarrow> get8 m (p + 4);
     b5 \<leftarrow> get8 m (p + 5);
     b6 \<leftarrow> get8 m (p + 6);
     b7 \<leftarrow> get8 m (p + 7);
     let w = uint b4 * 16 + uint (drop_bit 4 b5);
     let h = uint (b5 AND 0x0F) * 256 + uint b6;
     let asp = uint (drop_bit 4 (b7 AND 0xF0));
     let frc = uint (b7 AND 0x0F);
     if mpeg = 0 then Some (1, video)
     else do {
       let video = video\<lparr>v_width := w, v_height := h\<rparr>;
       v \<leftarrow> (if asp = 0 then Some None
          else if mpeg = 1 then do { d \<leftarrow> rd aspect_ratio_mpeg1 (asp - 1); Some (Some (video\<lparr>aspect_n := 10000, aspect_d := d\<rparr>)) }
          else if asp = 1 then Some (Some (video\<lparr>aspect_n := 1, aspect_d := 1\<rparr>))
          else if asp > 1 \<and> asp < 5 then do {
            n \<leftarrow> rd aspect_ratio_numerator (asp - 1);
            d \<leftarrow> rd aspect_ratio_denominator (asp - 1);
            q \<leftarrow> cdiv (h * n) d;
            Some (Some (video\<lparr>aspect_n := q, aspect_d := w\<rparr>)) }
          else Some None);
       (case v of None \<Rightarrow> Some (1, video)
        | Some video \<Rightarrow>
            if frc > 0 \<and> frc < 9 then do {
              sc \<leftarrow> rd frame_rate_scale (frc - 1);
              r \<leftarrow> rd frame_rate_rate (frc - 1);
              Some (0, video\<lparr>scale := sc, rate := r, bytesPerSec := 0,
                fourcc := (if mpeg = 1 then VIDEO_FOURCC_MPG1 else VIDEO_FOURCC_MPG2),
                format := VIDEO_FORMAT_MPEG, v_valid := 1\<rparr>) }
            else Some (1, video)) } }"

text \<open>The offset of the picture start code with the temporal reference and the picture type.\<close>

definition MPEG2_find_psc :: "u8 list \<Rightarrow> int \<Rightarrow> int \<Rightarrow> (int \<times> (int \<times> int) option) option" where
  "MPEG2_find_psc m p sz = do {
     hit \<leftarrow> scan_code (\<lambda>code count. code = 0x00000100) m p 0 (sz - 4) 0;
     (case hit of None \<Rightarrow> Some (-1, None)
      | Some (d, code) \<Rightarrow> do {
          a \<leftarrow> rd m d;
          b \<leftarrow> rd m (d + 1);
          Some (d - p - 4, Some (uint a * 4 OR uint (drop_bit 6 b), uint (drop_bit 3 b AND 0x07) - 1)) }) }"

function coding_ext_loop :: "u8 list \<Rightarrow> int \<Rightarrow> int \<Rightarrow> int \<Rightarrow> u32 \<Rightarrow> int option" where
  "coding_ext_loop m d count n code =
     (if count < n then do {
        c \<leftarrow> rd m d;
        let code = push_bit 8 code OR ucast c;
        x \<leftarrow> (if code = 0x000001B5 then map_option (\<lambda>e. drop_bit 4 e = 8) (rd m (d + 1)) else Some False);
        if x then Some (count - 3) else coding_ext_loop m (d + 1) (count + 1) n code }
      else Some (-1))"
  by pat_completeness auto
termination by (relation "measure (\<lambda>(m, d, count, n, code). nat (n - count))") auto

declare coding_ext_loop.simps [simp del]

definition MPEG2_find_coding_ext :: "u8 list \<Rightarrow> int \<Rightarrow> int \<Rightarrow> int option" where
  "MPEG2_find_coding_ext m p sz = coding_ext_loop m p 0 (sz - 4) 0"

function seq_len_loop :: "u8 list \<Rightarrow> int \<Rightarrow> int \<Rightarrow> int option" where
  "seq_len_loop m len n =
     (if len < n then do {
        g \<leftarrow> mem_match m len [0x00, 0x00, 0x01, 0xB8];
        if g then Some len
        else do {
          p \<leftarrow> mem_match m len [0x00, 0x00, 0x01, 0x00];
          if p then Some len else seq_len_loop m (len + 1) n } }
      else Some len)"
  by pat_completeness auto
termination by (relation "measure (\<lambda>(m, len, n). nat (n - len))") auto

declare seq_len_loop.simps [simp del]

definition MPEG2_get_SEQ_len :: "u8 list \<Rightarrow> int \<Rightarrow> int option" where
  "MPEG2_get_SEQ_len data sz = do {
     q \<leftarrow> mem_match data 0 [0x00, 0x00, 0x01, 0xB3];
     if \<not> q then Some 0
     else do {
       len \<leftarrow> seq_len_loop data 4 (sz - 4);
       Some (if len = sz - 4 then 0 else len) } }"

function mpeg2_sc_loop :: "u8 list \<Rightarrow> int \<Rightarrow> int \<Rightarrow> int \<Rightarrow> int option option" where
  "mpeg2_sc_loop m p i len =
     (if i < len then do {
        v \<leftarrow> get32BE m p;
        if v = 0x001B3 then Some (Some p) else mpeg2_sc_loop m (p + 1) (i + 1) len }
      else Some None)"
  by pat_completeness auto
termination by (relation "measure (\<lambda>(m, p, i, len). nat (len - i))") auto

declare mpeg2_sc_loop.simps [simp del]

definition MPEG2_find_video_sc :: "u8 list \<Rightarrow> int \<Rightarrow> int \<Rightarrow> int option option" where
  "MPEG2_find_video_sc m p len = mpeg2_sc_loop m p 0 len"

section \<open>The properties of an elementary stream\<close>

definition reduced :: "video_props \<Rightarrow> video_props" where
  "reduced v = (let (n, d) = av_reduce (aspect_n v) (aspect_d v) in v\<lparr>aspect_n := n, aspect_d := d\<rparr>)"

text \<open>The return value, the new properties and the memory (the MPEG-4 parser clears a bit in it).\<close>

definition MPEG_get_video_props ::
  "int \<Rightarrow> video_props \<Rightarrow> u8 list \<Rightarrow> int \<Rightarrow> int \<Rightarrow> int \<Rightarrow> (int \<times> video_props \<times> u8 list) option" where
  "MPEG_get_video_props fmt new m p maxsearch buflen = (
     let new = zero_props (length (extraData new)) in
     if fmt = VIDEO_FORMAT_MPEG then do {
       vp \<leftarrow> MPEG2_find_video_sc m p maxsearch;
       (case vp of None \<Rightarrow> Some (1, new, m)
        | Some vp \<Rightarrow> do {
            (r, new) \<leftarrow> MPEG2_get_video_props new m vp 2;
            Some (if r \<noteq> 0 then (1, new, m) else (0, reduced new, m)) }) }
     else if fmt = VIDEO_FORMAT_MPG4 then do {
       vp \<leftarrow> MPG4_find_video_sc m p maxsearch;
       (case vp of None \<Rightarrow> Some (1, new, m)
        | Some vp \<Rightarrow> do {
            (r, new, x) \<leftarrow> MPG4_get_video_props new (drop (nat vp) m) (buflen - (vp - p));
            Some (if r \<noteq> 0 then (1, new, take (nat vp) m @ x) else (0, reduced new, take (nat vp) m @ x)) }) }
     else if fmt = VIDEO_FORMAT_H264 then do {
       h264 \<leftarrow> H264_find_AUD m p maxsearch;
       if h264 = -1 then Some (1, new, m)
       else do {
         (r, new, sps) \<leftarrow> H264_get_video_props new m (p + h264) (buflen - h264 - 8) (v_sps new);
         let new = new\<lparr>v_sps := sps\<rparr>;
         Some (if r \<noteq> 0 then (1, new, m) else (0, reduced new, m)) } }
     else Some (1, new, m))"

text \<open>The return value, the changed properties and the flag (None when the pointer is NULL).\<close>

definition MPEG_check_video_changed ::
  "video_props \<Rightarrow> video_props \<Rightarrow> int option \<Rightarrow> (int \<times> video_props \<times> int option) option" where
  "MPEG_check_video_changed video new changed = (
     let changed = map_option (\<lambda>_. 0) changed in
     if v_width new = v_width video \<and> v_height new = v_height video \<and> aspect_n new = aspect_n video
        \<and> aspect_d new = aspect_d video \<and> scale new = scale video \<and> rate new = rate video
        \<and> fourcc new = fourcc video \<and> profile new = profile video \<and> level new = level video
     then Some (0, video, changed)
     else
       (let changed = (if v_valid video = 1 then map_option (\<lambda>_. 1) changed else changed);
            video = video\<lparr>v_width := v_width new, v_height := v_height new, aspect_n := aspect_n new, aspect_d := aspect_d new,
              scale := scale new, rate := rate new, fourcc := fourcc new, v_sps := v_sps new, profile := profile new,
              level := level new, bytesPerSec := bytesPerSec new\<rparr>
        in if rate video \<noteq> 0 \<and> scale video \<noteq> 0
           then Some (1, video\<lparr>msPerFrame := i32 ((1000 * (scale video mod 2 ^ 64) mod 2 ^ 64) div (rate video mod 2 ^ 64)),
                  framesPerSec := i32 ((rate video mod 2 ^ 64) div (scale video mod 2 ^ 64))\<rparr>, changed)
           else Some (1, video, changed)))"

section \<open>The mangler\<close>

record m_entry =
  m_valid :: int
  m_time :: int
  pic :: int
  tff :: int
  rff :: int
  pro :: int

record m_priv =
  n_fields :: int
  last_tff :: int
  ref_time :: int
  last_time :: int
  fake_time :: int
  ref_count :: int
  ms :: "m_entry list"

definition TREF_MAX :: int where "TREF_MAX = 1024"

definition zero_priv :: m_priv where
  "zero_priv = \<lparr>n_fields = 0, last_tff = 0, ref_time = 0, last_time = 0, fake_time = 0, ref_count = 0,
     ms = replicate 1024 \<lparr>m_valid = 0, m_time = 0, pic = 0, tff = 0, rff = 0, pro = 0\<rparr>\<rparr>"

text \<open>priv is the private state (None for NULL), allocated when missing; alloc_ok is whether that works.\<close>

definition m_init :: "bool \<Rightarrow> bool \<Rightarrow> m_priv option \<Rightarrow> int \<Rightarrow> m_priv option option" where
  "m_init reorder_pts alloc_ok priv t =
     (if reorder_pts then Some priv
      else do {
        p \<leftarrow> (case priv of Some p \<Rightarrow> Some p | None \<Rightarrow> if alloc_ok then Some zero_priv else None);
        Some (Some (p\<lparr>ms := map (\<lambda>e. e\<lparr>m_valid := 0, m_time := -1\<rparr>) (ms p), n_fields := 0, ref_time := t,
          last_time := 0, ref_count := 0\<rparr>)) })"

text \<open>The bits of the picture coding extension at offset ofs behind p.\<close>

definition ext_bits :: "u8 list \<Rightarrow> int \<Rightarrow> (int \<times> int \<times> int \<times> int) option" where
  "ext_bits m e = do {
     e6 \<leftarrow> rd m (e + 6);
     e7 \<leftarrow> rd m (e + 7);
     e8 \<leftarrow> rd m (e + 8);
     Some (uint (e6 AND 0x02), uint (drop_bit 7 e7 AND 0x01), uint (drop_bit 1 e7 AND 0x01), uint (drop_bit 7 e8 AND 0x01)) }"

text \<open>The entry of a picture; the time of the first field is kept for the second.\<close>

definition note_entry :: "int \<Rightarrow> int \<times> int \<times> int \<times> int \<Rightarrow> m_entry \<Rightarrow> m_entry" where
  "note_entry t x e = (case x of (pc, tf, rf, pr) \<Rightarrow>
     (if pic e = 0 \<and> pc = 0x02 \<and> t = -1 \<and> m_time e \<noteq> -1 then e else e\<lparr>m_time := t\<rparr>)
       \<lparr>m_valid := 1, pic := pc, tff := tf, rff := rf, pro := pr\<rparr>)"

definition m_pre :: "bool \<Rightarrow> int \<Rightarrow> m_priv \<Rightarrow> cbe \<Rightarrow> stream_cdata \<Rightarrow> (m_priv \<times> stream_cdata) option" where
  "m_pre reorder_pts sub p c cd =
     (if reorder_pts then Some (p, cd)
      else do {
        let m = cdata c;
        let q = cbe_get_p c;
        (psc, hdr) \<leftarrow> MPEG2_find_psc m q (c_size cd);
        ofs \<leftarrow> (if sub = VIDEO_SUBFMT_MPEG2 then MPEG2_find_coding_ext m q (c_size cd) else Some (-1));
        if psc \<noteq> -1 then do {
          (tref, ty) \<leftarrow> hdr;
          x \<leftarrow> (if ofs \<noteq> -1 then ext_bits m (q + ofs) else Some (0, 0, 0, 0));
          l \<leftarrow> (if tref < TREF_MAX then do { e \<leftarrow> rd (ms p) tref; wr (ms p) tref (note_entry (c_time cd) x e) } else Some (ms p));
          let p = p\<lparr>ms := l\<rparr>;
          let (p, cd) = (if c_time cd = -1
            then (let f = i32 (fake_time p + 1) in (p\<lparr>fake_time := f\<rparr>, cd\<lparr>c_time := f\<rparr>))
            else (p\<lparr>fake_time := c_time cd\<rparr>, cd));
          Some (p, cd\<lparr>c_user_ID := tref, frm_type := ty\<rparr>) }
        else Some (p, cd) })"

record vframe =
  f_valid :: int
  f_type :: int
  f_time :: int
  f_user_ID :: int

text \<open>Until two reference pictures have been seen, a B picture cannot be shown.\<close>

definition m_reorder :: "m_priv \<Rightarrow> vframe \<Rightarrow> m_priv \<times> vframe" where
  "m_reorder p f =
     (if f_type f = frame_code B_VOP then (p, if ref_count p < 2 then f\<lparr>f_valid := 0\<rparr> else f)
      else if f_type f = frame_code I_VOP then (p\<lparr>ref_count := i32 (ref_count p + 1)\<rparr>, f)
      else if f_type f = frame_code P_VOP \<and> ref_count p \<noteq> 0 then (p\<lparr>ref_count := i32 (ref_count p + 1)\<rparr>, f)
      else (p, f))"

text \<open>fields * 500 is an int; its product with scale, the quotient and the sum are uint32_t, as sc and r are.\<close>

definition m_post :: "bool \<Rightarrow> bool \<Rightarrow> int \<Rightarrow> int \<Rightarrow> m_priv \<Rightarrow> vframe option \<Rightarrow> (m_priv \<times> vframe option) option" where
  "m_post reorder_pts no_reorder sc r p fo =
     (if reorder_pts then Some (p, fo)
      else (case fo of None \<Rightarrow> Some (p, None)
        | Some f \<Rightarrow>
            (let (p, f) = (if no_reorder then (p, f) else m_reorder p f) in
             if f_valid f = 0 then Some (p, Some f)
             else do {
               eo \<leftarrow> (if f_user_ID f < TREF_MAX then map_option (\<lambda>e. if m_valid e \<noteq> 0 then Some e else None) (rd (ms p) (f_user_ID f))
                     else Some None);
               (p, f) \<leftarrow> (case eo of
                   Some e \<Rightarrow> do {
                     (p, f) \<leftarrow> (if m_time e \<noteq> -1
                       then Some (p\<lparr>n_fields := 0, ref_time := m_time e\<rparr>, f\<lparr>f_time := m_time e\<rparr>)
                       else do {
                         let p = p\<lparr>n_fields := i32 (n_fields p + (if last_tff p = tff e then 2 else 3))\<rparr>;
                         q \<leftarrow> (if r = 0 then None else Some (uw32 (i32 (n_fields p * 500) * sc) div r));
                         Some (p, f\<lparr>f_time := i32 (ref_time p + q)\<rparr>) });
                     Some (p\<lparr>last_tff := tff e\<rparr>, f) }
                 | None \<Rightarrow> Some (p, f\<lparr>f_time := ref_time p\<rparr>));
               Some (p\<lparr>last_time := f_time f\<rparr>, Some f) })))"

definition m_flush :: "bool \<Rightarrow> m_priv \<Rightarrow> m_priv" where
  "m_flush reorder_pts p = (if reorder_pts then p else p\<lparr>ref_count := 0\<rparr>)"


section \<open>Reduced fractions\<close>

lemma av_gcd_eq: "0 \<le> a \<Longrightarrow> 0 \<le> b \<Longrightarrow> av_gcd a b = gcd a b"
proof (induction a b rule: av_gcd.induct)
  case (1 a b)
  show ?case
  proof (cases "b = 0")
    case True
    then show ?thesis using "1.prems" by (simp add: av_gcd.simps [of a 0])
  next
    case False
    then have m: "a smod b = a mod b" "0 \<le> a mod b"
      using "1.prems" by (simp_all add: modulo_int_eq_signed_modulo_int [symmetric] smod_mod_positive)
    have "av_gcd b (a smod b) = gcd b (a mod b)" using "1.IH" [OF False] "1.prems" m by simp
    then show ?thesis using False by (simp add: av_gcd.simps [of a b] gcd.commute [of b] gcd_red_int [symmetric])
  qed
qed

lemma av_reduce_eq:
  assumes "0 \<le> a" "0 \<le> b"
  shows "av_reduce a b = (if a = 0 \<and> b = 0 then (0, 0) else (a div gcd a b, b div gcd a b))"
  using assms by (auto simp: av_reduce_def av_gcd_eq Let_def sdiv_nonneg)

section \<open>Decoding a sequence header\<close>

lemma nibbles: "uint (drop_bit 4 b) = uint b div 16" "uint (b AND 0x0F) = uint b mod 16"
  "uint (drop_bit 4 (b AND 0xF0)) = uint b div 16" for b :: u8
proof -
  show 1: "uint (drop_bit 4 b) = uint b div 16" by (simp add: drop_bit_eq_div uint_div)
  have "b AND 0x0F = take_bit 4 b" by (simp add: take_bit_eq_mask mask_eq_exp_minus_1)
  then show "uint (b AND 0x0F) = uint b mod 16" by (simp add: take_bit_eq_mod uint_mod)
  have "drop_bit 4 (b AND 0xF0) = drop_bit 4 b"
  proof -
    have "drop_bit 4 (b AND push_bit 4 (mask 4)) = drop_bit 4 b"
      by (rule bit_word_eqI) (auto simp: bit_simps dest: bit_imp_le_length)
    moreover have "(push_bit 4 (mask 4) :: u8) = 0xF0" by (simp add: mask_eq_exp_minus_1 push_bit_eq_mult)
    ultimately show ?thesis by simp
  qed
  then show "uint (drop_bit 4 (b AND 0xF0)) = uint b div 16" using 1 by simp
qed

lemma MPEG2_find_video_sc_first:
  assumes "k < n" "b + k + 4 \<le> length m" "take 4 (drop (b + k) m) = [0, 0, 1, 0xB3]"
    and "\<And>i. i < k \<Longrightarrow> take 4 (drop (b + i) m) \<noteq> [0, 0, 1, 0xB3]"
  shows "MPEG2_find_video_sc m (int b) (int n) = Some (Some (int (b + k)))"
proof -
  have e: "get32BE m (int (b + i)) = Some v \<and> (v = 0x001B3 \<longleftrightarrow> take 4 (drop (b + i) m) = [0, 0, 1, 0xB3])"
    if "i \<le> k" and v: "v = be32 (m ! (b + i)) (m ! (b + i + 1)) (m ! (b + i + 2)) (m ! (b + i + 3))" for i v
  proof -
    have i: "b + i + 3 < length m" using that(1) assms(2) by simp
    have "take 4 (drop (b + i) m) = [m ! (b + i), m ! (b + i + 1), m ! (b + i + 2), m ! (b + i + 3)]"
      by (rule take_drop_nth_eqI) (use i in \<open>auto simp: less_Suc_eq numeral_eq_Suc\<close>)
    moreover have "(0x001B3 :: u32) = be32 0 0 1 0xB3" by (simp add: be32_def)
    ultimately show ?thesis
      using i v be32_inject [of "m ! (b + i)" "m ! (b + i + 1)" "m ! (b + i + 2)" "m ! (b + i + 3)" 0 0 1 "0xB3"]
      by (simp add: get32BE_defined nat_add_distrib)
  qed
  have "mpeg2_sc_loop m (int (b + i)) (int i) (int n) = Some (Some (int (b + k)))" if "i \<le> k" for i
    using that
  proof (induction rule: inc_induct)
    case base
    then show ?case using e [of k] assms(1,3) by (subst mpeg2_sc_loop.simps) simp
  next
    case (step i)
    then have i: "i < k" by simp
    have "mpeg2_sc_loop m (int (b + i)) (int i) (int n) = mpeg2_sc_loop m (int (b + Suc i)) (int (Suc i)) (int n)"
      using e [of i] i assms(1) assms(4) [OF i] by (subst mpeg2_sc_loop.simps) (simp add: ac_simps)
    then show ?case using step.IH by simp
  qed
  from this [of 0] show ?thesis by (simp add: MPEG2_find_video_sc_def)
qed


lemma high_nibble: "uint (b AND 0xF0) div 16 = uint b div 16" for b :: u8
  using nibbles(1) [of "b AND 0xF0"] nibbles(3) [of b] by simp

text \<open>The four bytes behind the start code for a size, an aspect code and a frame rate code.\<close>

definition seq_bytes :: "nat \<Rightarrow> nat \<Rightarrow> nat \<Rightarrow> nat \<Rightarrow> u8 list" where
  "seq_bytes w h asp frc = [word_of_nat (w div 16), word_of_nat (w mod 16 * 16 + h div 256), word_of_nat (h mod 256),
     word_of_nat (asp * 16 + frc)]"

definition seq_aspect :: "nat \<Rightarrow> nat \<Rightarrow> nat \<Rightarrow> int \<times> int" where
  "seq_aspect w h asp = (if asp = 1 then (1, 1) else if asp = 2 then (int (h * 4 div 3), int w)
     else if asp = 3 then (int (h * 16 div 9), int w) else (int (h * 221 div 100), int w))"

lemma uint_u8: "n < 256 \<Longrightarrow> uint (word_of_nat n :: u8) = int n"
  by (simp add: unsigned_of_nat take_bit_nat_eq_self)

lemma MPEG2_get_video_props_decodes:
  assumes "take 4 (drop (q + 4) m) = seq_bytes w h asp frc" "w < 4096" "h < 4096" "asp \<in> {1, 2, 3, 4}" "frc \<in> {1..8}"
  shows "MPEG2_get_video_props video m (int q) 2 = Some (0, video\<lparr>v_width := int w, v_height := int h,
    aspect_n := fst (seq_aspect w h asp), aspect_d := snd (seq_aspect w h asp), scale := frame_rate_scale ! (frc - 1),
    rate := frame_rate_rate ! (frc - 1), bytesPerSec := 0, fourcc := VIDEO_FOURCC_MPG2, format := VIDEO_FORMAT_MPEG, v_valid := 1\<rparr>)"
proof -
  have l: "length (take 4 (drop (q + 4) m)) = 4" unfolding assms(1) by (simp add: seq_bytes_def)
  then have q: "q + 8 \<le> length m" by (simp split: if_splits)
  have n: "m ! (q + 4 + i) = seq_bytes w h asp frc ! i" if "i < 4" for i
    using that q by (simp flip: assms(1))
  have b: "get8 m (int q + 4) = Some (word_of_nat (w div 16))" "get8 m (int q + 5) = Some (word_of_nat (w mod 16 * 16 + h div 256))"
    "get8 m (int q + 6) = Some (word_of_nat (h mod 256))" "get8 m (int q + 7) = Some (word_of_nat (asp * 16 + frc))"
    using n [of 0] n [of 1] n [of 2] n [of 3] q
    by (simp_all add: get8_def seq_bytes_def rd_def nat_add_distrib add.commute)
  have lt: "w div 16 < 256" "w mod 16 * 16 + h div 256 < 256" "h mod 256 < 256" "asp * 16 + frc < 256"
    using assms(2-5) by auto
  have w: "int (w div 16) * 16 + int (w mod 16 * 16 + h div 256) div 16 = int w"
    and h: "int (w mod 16 * 16 + h div 256) mod 16 * 256 + int (h mod 256) = int h"
    and a: "int (asp * 16 + frc) div 16 = int asp" "int (asp * 16 + frc) mod 16 = int frc"
    using assms(2-5) by (auto simp: zdiv_int zmod_int)
  have i: "int frc - 1 = int (frc - 1)" "frc - 1 < 8" using assms(5) by auto
  have "length frame_rate_scale = 8" "length frame_rate_rate = 8" by (simp_all add: frame_rate_scale_def frame_rate_rate_def)
  then have f: "rd frame_rate_scale (int frc - 1) = Some (frame_rate_scale ! (frc - 1))"
    "rd frame_rate_rate (int frc - 1) = Some (frame_rate_rate ! (frc - 1))"
    unfolding i(1) rd_of_nat using i(2) by simp_all
  obtain b4 b5 b6 b7 where g: "get8 m (int q + 4) = Some b4" "get8 m (int q + 5) = Some b5" "get8 m (int q + 6) = Some b6"
      "get8 m (int q + 7) = Some b7"
    and d: "uint b4 * 16 + uint (drop_bit 4 b5) = int w" "uint (b5 AND 0x0F) * 256 + uint b6 = int h"
      "uint (drop_bit 4 (b7 AND 0xF0)) = int asp" "uint (b7 AND 0x0F) = int frc"
    by (rule that [OF b]) (simp_all only: nibbles high_nibble uint_u8 [OF lt(1)] uint_u8 [OF lt(2)] uint_u8 [OF lt(3)] uint_u8 [OF lt(4)] w h a)
  have p: "0 < frc" "frc < 9" using assms(5) by auto
  consider "asp = 1" | "asp = 2" | "asp = 3" | "asp = 4" using assms(4) by auto
  then show ?thesis
  proof cases
    case 1
    show ?thesis unfolding MPEG2_get_video_props_def g bind.bind_lunit d Let_def using p f 1
      by (simp add: seq_aspect_def)
  next
    case 2
    have "cdiv (int h * 4) 3 = Some (int (h * 4 div 3))" by (simp add: cdiv_def sdiv_nonneg zdiv_int)
    then show ?thesis unfolding MPEG2_get_video_props_def g bind.bind_lunit d Let_def using p f 2
      by (simp add: seq_aspect_def aspect_ratio_numerator_def aspect_ratio_denominator_def)
  next
    case 3
    have "cdiv (int h * 16) 9 = Some (int (h * 16 div 9))" by (simp add: cdiv_def sdiv_nonneg zdiv_int)
    then show ?thesis unfolding MPEG2_get_video_props_def g bind.bind_lunit d Let_def using p f 3
      by (simp add: seq_aspect_def aspect_ratio_numerator_def aspect_ratio_denominator_def)
  next
    case 4
    have "cdiv (int h * 221) 100 = Some (int (h * 221 div 100))" by (simp add: cdiv_def sdiv_nonneg zdiv_int)
    then show ?thesis unfolding MPEG2_get_video_props_def g bind.bind_lunit d Let_def using p f 4
      by (simp add: seq_aspect_def aspect_ratio_numerator_def aspect_ratio_denominator_def)
  qed
qed


section \<open>The times of pictures\<close>

text \<open>
  The number of fields every picture of a sequence is shown for when its predecessor had the top
  field flag t: two, and three where the flag changes (pictures from film); and the sums.
\<close>

fun field_counts :: "int \<Rightarrow> int list \<Rightarrow> int list" where
  "field_counts t [] = []"
| "field_counts t (u # us) = (if t = u then 2 else 3) # field_counts u us"

fun sums :: "int \<Rightarrow> int list \<Rightarrow> int list" where
  "sums a [] = []"
| "sums a (x # xs) = (a + x) # sums (a + x) xs"

text \<open>The mangler applied to the decoded pictures one after the other.\<close>

fun post_all :: "bool \<Rightarrow> int \<Rightarrow> int \<Rightarrow> m_priv \<Rightarrow> vframe list \<Rightarrow> (m_priv \<times> vframe list) option" where
  "post_all no_reorder sc r p [] = Some (p, [])"
| "post_all no_reorder sc r p (f # fs) = do {
     (p, fo) \<leftarrow> m_post False no_reorder sc r p (Some f);
     f \<leftarrow> fo;
     (p, fs) \<leftarrow> post_all no_reorder sc r p fs;
     Some (p, f # fs) }"

text \<open>A picture known to the mangler, without a time stamp.\<close>

definition untimed :: "m_priv \<Rightarrow> vframe \<Rightarrow> bool" where
  "untimed p f \<longleftrightarrow> f_valid f \<noteq> 0 \<and> 0 \<le> f_user_ID f \<and> f_user_ID f < 1024 \<and> length (ms p) = 1024
     \<and> m_valid (ms p ! nat (f_user_ID f)) \<noteq> 0 \<and> m_time (ms p ! nat (f_user_ID f)) = -1"

definition tff_of :: "m_priv \<Rightarrow> vframe \<Rightarrow> int" where
  "tff_of p f = tff (ms p ! nat (f_user_ID f))"

lemma m_reorder_ready:
  assumes "2 \<le> ref_count p" "ref_count p + 1 < 2 ^ 31" "f_valid f \<noteq> 0"
  shows "\<exists>k. m_reorder p f = (p\<lparr>ref_count := k\<rparr>, f) \<and> ref_count p \<le> k \<and> k \<le> ref_count p + 1"
proof -
  have "p = p\<lparr>ref_count := ref_count p\<rparr>" by simp
  then show ?thesis using assms by (auto simp: m_reorder_def i32_id intro: exI [of _ "ref_count p"])
qed

lemma m_post_untimed:
  assumes "untimed p f" "no_reorder \<or> 2 \<le> ref_count p \<and> ref_count p + 1 < 2 ^ 31"
    and "0 < r" "0 \<le> n_fields p" "0 \<le> sc" "0 \<le> ref_time p"
    and "(n_fields p + 3) * 500 < 2 ^ 31" "(n_fields p + 3) * 500 * sc < 2 ^ 32" "ref_time p + (n_fields p + 3) * 500 * sc div r < 2 ^ 31"
  defines "n \<equiv> n_fields p + (if last_tff p = tff_of p f then 2 else 3)"
  defines "t \<equiv> ref_time p + n * 500 * sc div r"
  shows "\<exists>k. m_post False no_reorder sc r p (Some f)
      = Some (p\<lparr>ref_count := k, n_fields := n, last_tff := tff_of p f, last_time := t\<rparr>, Some (f\<lparr>f_time := t\<rparr>))
    \<and> (\<not> no_reorder \<longrightarrow> ref_count p \<le> k \<and> k \<le> ref_count p + 1)"
proof -
  obtain k where k: "(if no_reorder then (p, f) else m_reorder p f) = (p\<lparr>ref_count := k\<rparr>, f)"
    "\<not> no_reorder \<longrightarrow> ref_count p \<le> k \<and> k \<le> ref_count p + 1"
  proof (cases no_reorder)
    case True
    show ?thesis by (rule that [of "ref_count p"]) (simp_all add: True)
  next
    case False
    then show ?thesis using m_reorder_ready [of p f] assms(1,2) that by (auto simp: untimed_def)
  qed
  have n: "0 \<le> n" "n \<le> n_fields p + 3" using assms(4) by (auto simp: n_def)
  have n5: "n * 500 \<le> (n_fields p + 3) * 500" using n by simp
  then have m: "n * 500 * sc \<le> (n_fields p + 3) * 500 * sc" using assms(5) by (rule mult_right_mono)
  have "n * 500 * sc div r \<le> (n_fields p + 3) * 500 * sc div r" using m assms(3) by (rule zdiv_mono1)
  moreover have "0 \<le> n * 500 * sc div r" using n assms(3,5) by (simp add: pos_imp_zdiv_nonneg_iff)
  ultimately have t: "0 \<le> t" "t < 2 ^ 31" using assms(6,9) by (simp_all add: t_def)
  have nn: "0 \<le> n * 500 * sc" using n(1) assms(5) by simp
  have big: "(2::int) ^ 32 = 4294967296" by simp
  have "n * 500 * sc < 4294967296" using m assms(8) unfolding big by linarith
  then have "uw32 (n * 500 * sc) = n * 500 * sc" using nn by (intro uw32_id)
  moreover have "i32 (n * 500) = n * 500" "i32 n = n" "i32 t = t"
    using n n5 t assms(7) by (auto intro!: i32_id)
  ultimately have w: "i32 (n * 500) = n * 500" "uw32 (n * 500 * sc) = n * 500 * sc" "i32 n = n" "i32 t = t" by blast+
  have e: "rd (ms p) (f_user_ID f) = Some (ms p ! nat (f_user_ID f))" using assms(1) by (simp add: untimed_def rd_def)
  have "m_post False no_reorder sc r p (Some f)
      = Some (p\<lparr>ref_count := k, n_fields := n, last_tff := tff_of p f, last_time := t\<rparr>, Some (f\<lparr>f_time := t\<rparr>))"
    using assms(1,3) w n(1) assms(5) 
    by (simp add: m_post_def k(1) e untimed_def TREF_MAX_def n_def [symmetric] t_def [symmetric] tff_of_def [symmetric] Let_def)
  then show ?thesis using k(2) by blast
qed


lemma length_field_counts [simp]: "length (field_counts t us) = length us"
  by (induction us arbitrary: t) simp_all

lemma length_sums [simp]: "length (sums a xs) = length xs"
  by (induction xs arbitrary: a) simp_all

section \<open>Properties\<close>

text \<open>
  C35. The times of pictures without time stamps. After a picture with the time ref_time, with
  n_fields fields since, the mangler gives every following picture of a sequence without time
  stamps the reference time plus the duration of the fields shown up to it, where a picture whose
  top field flag differs from that of its predecessor counts three fields and any other two
  (film in 3:2 pulldown), as long as the product with the scale fits 32 bits without sign and the
  time itself 31 bits.
\<close>

theorem mangler_times:
  assumes "\<forall>f\<in>set fs. untimed p f" "no_reorder \<or> 2 \<le> ref_count p \<and> ref_count p + int (length fs) < 2 ^ 31"
    and "0 < r" "0 \<le> n_fields p" "0 \<le> sc" "0 \<le> ref_time p"
    and "(n_fields p + 3 * int (length fs)) * 500 < 2 ^ 31" "(n_fields p + 3 * int (length fs)) * 500 * sc < 2 ^ 32"
    and "ref_time p + (n_fields p + 3 * int (length fs)) * 500 * sc div r < 2 ^ 31"
  shows "\<exists>p'. post_all no_reorder sc r p fs = Some (p', map2 (\<lambda>f n. f\<lparr>f_time := ref_time p + n * 500 * sc div r\<rparr>) fs
      (sums (n_fields p) (field_counts (last_tff p) (map (tff_of p) fs))))"
  using assms
proof (induction fs arbitrary: p)
  case (Cons f fs)
  let ?n = "n_fields p + (if last_tff p = tff_of p f then 2 else 3)"
  let ?M = "n_fields p + 3 * int (length (f # fs))"
  have M: "n_fields p + 3 \<le> ?M" "?n + 3 * int (length fs) \<le> ?M" by auto
  have mono: "a * 500 < 2 ^ 31 \<and> a * 500 * sc < 2 ^ 32 \<and> ref_time p + a * 500 * sc div r < 2 ^ 31" if "a \<le> ?M" for a
  proof -
    have "a * 500 \<le> ?M * 500" using that by simp
    moreover from this have "a * 500 * sc \<le> ?M * 500 * sc" using Cons.prems(5) by (rule mult_right_mono)
    moreover from this have "a * 500 * sc div r \<le> ?M * 500 * sc div r" using Cons.prems(3) by (rule zdiv_mono1)
    ultimately show ?thesis using Cons.prems(7-9) by linarith
  qed
  let ?t = "ref_time p + ?n * 500 * sc div r"
  have "untimed p f" "no_reorder \<or> 2 \<le> ref_count p \<and> ref_count p + 1 < 2 ^ 31" using Cons.prems(1,2) by auto
  from m_post_untimed [OF this Cons.prems(3-6)] mono [OF M(1)]
  obtain k where k: "m_post False no_reorder sc r p (Some f)
      = Some (p\<lparr>ref_count := k, n_fields := ?n, last_tff := tff_of p f, last_time := ?t\<rparr>, Some (f\<lparr>f_time := ?t\<rparr>))"
    "\<not> no_reorder \<longrightarrow> ref_count p \<le> k \<and> k \<le> ref_count p + 1"
    by blast
  define q where "q = p\<lparr>ref_count := k, n_fields := ?n, last_tff := tff_of p f, last_time := ?t\<rparr>"
  have q: "n_fields q = ?n" "last_tff q = tff_of p f" "ref_time q = ref_time p" "ref_count q = k" "ms q = ms p" by (simp_all add: q_def)
  have same: "untimed q = untimed p" "tff_of q = tff_of p" by (auto simp: untimed_def tff_of_def q fun_eq_iff)
  have "\<exists>p'. post_all no_reorder sc r q fs = Some (p', map2 (\<lambda>f n. f\<lparr>f_time := ref_time q + n * 500 * sc div r\<rparr>) fs
      (sums (n_fields q) (field_counts (last_tff q) (map (tff_of q) fs))))"
  proof (rule Cons.IH)
    show "no_reorder \<or> 2 \<le> ref_count q \<and> ref_count q + int (length fs) < 2 ^ 31"
      using Cons.prems(2) k(2) by (auto simp: q)
  qed (use Cons.prems mono [OF M(2)] in \<open>simp_all add: same q\<close>)
  moreover have "m_post False no_reorder sc r p (Some f) = Some (q, Some (f\<lparr>f_time := ?t\<rparr>))"
    using k(1) by (simp only: q_def)
  ultimately show ?case by (auto simp: q same)
qed simp

text \<open>A private state with one known picture, after m fields.\<close>

definition priv_sample :: "int \<Rightarrow> m_priv" where
  "priv_sample m = zero_priv\<lparr>n_fields := m, ref_time := 1000,
     ms := replicate 1024 \<lparr>m_valid = 1, m_time = -1, pic = 0, tff = 1, rff = 0, pro = 0\<rparr>\<rparr>"

definition frame_sample :: vframe where
  "frame_sample = \<lparr>f_valid = 1, f_type = 1, f_time = 0, f_user_ID = 5\<rparr>"

theorem mangler_times_witness:
  "\<exists>p'. post_all True 1001 30000 (priv_sample 0) [frame_sample, frame_sample]
    = Some (p', [frame_sample\<lparr>f_time := 1050\<rparr>, frame_sample\<lparr>f_time := 1083\<rparr>])"
proof -
  have "\<forall>f\<in>set [frame_sample, frame_sample]. untimed (priv_sample 0) f"
    by (simp add: untimed_def priv_sample_def frame_sample_def)
  from mangler_times [OF this, of True 30000 1001]
  show ?thesis by (simp add: priv_sample_def zero_priv_def tff_of_def frame_sample_def)
qed

lemma tref_bound: "0 \<le> uint a * 4 OR uint (drop_bit 6 b) \<and> uint a * 4 OR uint (drop_bit 6 b) < 1024" for a b :: u8
proof -
  have "uint a < 256" "uint b < 256" using uint_lt2p [of a] uint_lt2p [of b] by simp_all
  then have "uint a * 4 < 2 ^ 10" "uint (drop_bit 6 b) < 2 ^ 10" "0 \<le> uint a * 4" by (simp_all add: drop_bit_eq_div uint_div)
  then show ?thesis using OR_upper [of "uint a * 4" 10 "uint (drop_bit 6 b)"] by simp
qed

lemma MPEG2_find_psc_bound: "MPEG2_find_psc m p sz = Some (psc, Some (tref, ty)) \<Longrightarrow> 0 \<le> tref \<and> tref < 1024"
  using tref_bound by (auto simp: MPEG2_find_psc_def bind_eq_Some_iff split: option.splits)

text \<open>What the player does with the mangler between two calls of interest: chunks, pictures and flushes.\<close>

datatype m_event = Chunk cbe stream_cdata | Picture "vframe option" | Flush

fun m_event_step :: "int \<Rightarrow> bool \<Rightarrow> int \<Rightarrow> int \<Rightarrow> m_event \<Rightarrow> m_priv \<Rightarrow> m_priv option" where
  "m_event_step sub no_reorder sc r (Chunk c cd) p = map_option fst (m_pre False sub p c cd)"
| "m_event_step sub no_reorder sc r (Picture fo) p = map_option fst (m_post False no_reorder sc r p fo)"
| "m_event_step sub no_reorder sc r Flush p = Some (m_flush False p)"

fun m_events :: "int \<Rightarrow> bool \<Rightarrow> int \<Rightarrow> int \<Rightarrow> m_priv \<Rightarrow> m_event list \<Rightarrow> m_priv option" where
  "m_events sub no_reorder sc r p [] = Some p"
| "m_events sub no_reorder sc r p (e # es) = do {
     p \<leftarrow> m_event_step sub no_reorder sc r e p;
     m_events sub no_reorder sc r p es }"

text \<open>The temporal reference of the picture in a chunk.\<close>

definition chunk_ref :: "cbe \<Rightarrow> stream_cdata \<Rightarrow> int option" where
  "chunk_ref c cd = (case MPEG2_find_psc (cdata c) (cbe_get_p c) (c_size cd) of
     Some (psc, Some (tref, ty)) \<Rightarrow> if psc \<noteq> -1 then Some tref else None | _ \<Rightarrow> None)"

fun event_ref :: "m_event \<Rightarrow> int option" where
  "event_ref (Chunk c cd) = chunk_ref c cd"
| "event_ref _ = None"

lemma m_post_ms: "m_post False no_reorder sc r p fo = Some (q, fo') \<Longrightarrow> ms q = ms p"
proof (cases fo)
  case (Some f)
  obtain p0 f0 where r: "(if no_reorder then (p, f) else m_reorder p f) = (p0, f0)" by fastforce
  then have "ms p0 = ms p" by (auto simp: m_reorder_def split: if_splits)
  then show "m_post False no_reorder sc r p fo = Some (q, fo') \<Longrightarrow> ms q = ms p"
    using Some by (auto simp: m_post_def r Let_def bind_eq_Some_iff split: option.splits if_splits)
qed (simp add: m_post_def)

lemma m_pre_entry:
  assumes "m_pre False sub p c cd = Some (p', cd')" "length (ms p) = 1024"
  shows "length (ms p') = 1024" "chunk_ref c cd \<noteq> Some t \<Longrightarrow> 0 \<le> t \<Longrightarrow> ms p' ! nat t = ms p ! nat t"
proof -
  obtain psc hdr where psc: "MPEG2_find_psc (cdata c) (cbe_get_p c) (c_size cd) = Some (psc, hdr)"
    using assms(1) by (auto simp: m_pre_def bind_eq_Some_iff Let_def)
  have "length (ms p') = 1024 \<and> (chunk_ref c cd \<noteq> Some t \<longrightarrow> 0 \<le> t \<longrightarrow> ms p' ! nat t = ms p ! nat t)"
  proof (cases "psc = -1")
    case True
    then show ?thesis using assms psc by (auto simp: m_pre_def bind_eq_Some_iff Let_def)
  next
    case False
    then obtain tref ty x l where h: "hdr = Some (tref, ty)"
      "(if tref < TREF_MAX then do { e \<leftarrow> rd (ms p) tref; wr (ms p) tref (note_entry (c_time cd) x e) } else Some (ms p)) = Some l"
      "ms p' = l"
      using assms(1) psc False by (cases "c_time cd = -1") (auto simp: m_pre_def bind_eq_Some_iff Let_def)
    moreover have "chunk_ref c cd = Some tref" using psc h(1) False by (simp add: chunk_ref_def)
    moreover obtain e where "l = (ms p)[nat tref := e] \<or> l = ms p" "0 \<le> tref \<or> l = ms p"
      using h(2) by (auto simp: bind_eq_Some_iff wr_def split: if_splits)
    ultimately show ?thesis using assms(2) by (auto simp: nat_eq_iff)
  qed
  then show "length (ms p') = 1024" "chunk_ref c cd \<noteq> Some t \<Longrightarrow> 0 \<le> t \<Longrightarrow> ms p' ! nat t = ms p ! nat t" by auto
qed

lemma m_events_entry:
  assumes "m_events sub no_reorder sc r p es = Some p'" "length (ms p) = 1024" "\<forall>e\<in>set es. event_ref e \<noteq> Some t" "0 \<le> t"
  shows "length (ms p') = 1024 \<and> ms p' ! nat t = ms p ! nat t"
  using assms(1-3)
proof (induction es arbitrary: p)
  case (Cons e es)
  then obtain q where q: "m_event_step sub no_reorder sc r e p = Some q" "m_events sub no_reorder sc r q es = Some p'"
    by (auto simp: bind_eq_Some_iff)
  have "length (ms q) = 1024 \<and> ms q ! nat t = ms p ! nat t"
    using q(1) Cons.prems(2,3) assms(4)
    by (cases e) (auto dest: m_pre_entry m_post_ms simp: m_flush_def)
  then show ?case using Cons.IH [OF q(2)] Cons.prems(3) by simp
qed simp

lemma m_pre_stamp:
  assumes "m_pre False sub p c cd = Some (p', cd')" "c_time cd \<noteq> -1" "length (ms p) = 1024" "chunk_ref c cd = Some tref"
  shows "0 \<le> tref" "tref < 1024" "c_user_ID cd' = tref" "c_time cd' = c_time cd" "length (ms p') = 1024"
    "m_valid (ms p' ! nat tref) = 1" "m_time (ms p' ! nat tref) = c_time cd"
proof -
  obtain psc ty where psc: "MPEG2_find_psc (cdata c) (cbe_get_p c) (c_size cd) = Some (psc, Some (tref, ty))" "psc \<noteq> -1"
    using assms(4) by (auto simp: chunk_ref_def split: option.splits if_splits)
  show tr: "0 \<le> tref" "tref < 1024" using MPEG2_find_psc_bound [OF psc(1)] by auto
  obtain x l where l: "wr (ms p) tref (note_entry (c_time cd) x (ms p ! nat tref)) = Some l"
    and p': "p' = p\<lparr>ms := l, fake_time := c_time cd\<rparr>" "cd' = cd\<lparr>c_user_ID := tref, frm_type := ty\<rparr>"
    using assms(1-3) psc tr by (auto simp: m_pre_def TREF_MAX_def rd_in_range wr_in_range bind_eq_Some_iff Let_def split: if_splits)
  obtain pc tf rf pr where x: "x = (pc, tf, rf, pr)" by (metis prod_cases4)
  show "c_user_ID cd' = tref" "c_time cd' = c_time cd" "length (ms p') = 1024"
    "m_valid (ms p' ! nat tref) = 1" "m_time (ms p' ! nat tref) = c_time cd"
    using l p' assms(2,3) tr by (auto simp: wr_def x note_entry_def split: if_splits)
qed

lemma m_post_stamped:
  assumes "0 \<le> f_user_ID f" "f_user_ID f < 1024" "length (ms p) = 1024" "m_valid (ms p ! nat (f_user_ID f)) = 1"
    "m_time (ms p ! nat (f_user_ID f)) = t" "t \<noteq> -1" "f_valid f \<noteq> 0" "\<not> no_reorder \<longrightarrow> f_type f \<noteq> frame_code B_VOP \<or> 2 \<le> ref_count p"
  shows "\<exists>p'. m_post False no_reorder sc r p (Some f) = Some (p', Some (f\<lparr>f_time := t\<rparr>)) \<and> ref_time p' = t"
proof -
  have "\<exists>q. (if no_reorder then (p, f) else m_reorder p f) = (q, f) \<and> ms q = ms p"
    using assms(8) by (auto simp: m_reorder_def)
  then obtain q where q: "(if no_reorder then (p, f) else m_reorder p f) = (q, f)" "ms q = ms p" by blast
  show ?thesis using assms by (simp add: m_post_def q TREF_MAX_def rd_in_range)
qed

text \<open>
  C36. A time stamp comes back with its picture: when a chunk with a time stamp holds a picture start
  code, its description gets the temporal reference; and after whatever further chunks, pictures
  and flushes the mangler handles, as long as no chunk brings the same reference again, a valid picture with that
  reference (not one that is held back) is given the time of the stamp, which becomes the reference time.
\<close>

theorem mangler_time_stamp:
  assumes "m_pre False sub p c cd = Some (p1, cd1)" "c_time cd \<noteq> -1" "length (ms p) = 1024" "chunk_ref c cd = Some tref"
    and "m_events sub no_reorder sc r p1 es = Some p2" "\<forall>e\<in>set es. event_ref e \<noteq> Some tref"
    and "f_user_ID f = c_user_ID cd1" "f_valid f \<noteq> 0" "\<not> no_reorder \<longrightarrow> f_type f \<noteq> frame_code B_VOP \<or> 2 \<le> ref_count p2"
  shows "c_user_ID cd1 = tref \<and> c_time cd1 = c_time cd \<and> length (ms p2) = 1024 \<and>
    (\<exists>p3. m_post False no_reorder sc r p2 (Some f) = Some (p3, Some (f\<lparr>f_time := c_time cd\<rparr>)) \<and> ref_time p3 = c_time cd)"
proof -
  note s = m_pre_stamp [OF assms(1-4)]
  have e: "length (ms p2) = 1024" "ms p2 ! nat tref = ms p1 ! nat tref"
    using m_events_entry [OF assms(5) s(5) assms(6) s(1)] by auto
  have "\<exists>p3. m_post False no_reorder sc r p2 (Some f) = Some (p3, Some (f\<lparr>f_time := c_time cd\<rparr>)) \<and> ref_time p3 = c_time cd"
    by (rule m_post_stamped) (use s e assms(2,7-9) in auto)
  then show ?thesis using s e by simp
qed

text \<open>Chunks with a picture start code, temporal reference 5 and 6 and type P, in an overlapping buffer.\<close>

definition cbe_sample :: "u8 \<Rightarrow> cbe" where
  "cbe_sample b = \<lparr>cdata = [0, 0, 1, 0, 1, b, 0, 0, 0], csize = 8, overlap = 1, dma = False, wpos = 8, rpos = 0\<rparr>"

definition cdata_sample :: "int \<Rightarrow> stream_cdata" where
  "cdata_sample t = \<lparr>c_size = 9, frm_type = 0, c_time = t, c_valid = 1, c_user_ID = 0\<rparr>"

text \<open>Picture 5 is stamped 7000; then comes chunk 6 with stamp 7033 and its picture, and a flush.\<close>

theorem mangler_time_stamp_witness:
  "\<exists>p1 cd1 p2 p3. m_pre False 1 zero_priv (cbe_sample 0x50) (cdata_sample 7000) = Some (p1, cd1)
    \<and> m_events 1 True 1 25 p1 [Chunk (cbe_sample 0x90) (cdata_sample 7033), Picture (Some (frame_sample\<lparr>f_user_ID := 6\<rparr>)), Flush] = Some p2
    \<and> m_post False True 1 25 p2 (Some frame_sample) = Some (p3, Some (frame_sample\<lparr>f_time := 7000\<rparr>))"
proof -
  have psc: "MPEG2_find_psc (cdata (cbe_sample 0x50)) (cbe_get_p (cbe_sample 0x50)) (c_size (cdata_sample t)) = Some (0, Some (5, 1))"
    "MPEG2_find_psc (cdata (cbe_sample 0x90)) (cbe_get_p (cbe_sample 0x90)) (c_size (cdata_sample t)) = Some (0, Some (6, 1))" for t
    by (simp_all add: MPEG2_find_psc_def cbe_sample_def cdata_sample_def cbe_get_p_def scan_code.simps rd_def)
  have t: "c_time (cdata_sample t) = t" for t by (simp add: cdata_sample_def)
  define ms5 where "ms5 = (ms zero_priv)[5 := note_entry 7000 (0, 0, 0, 0) (ms zero_priv ! 5)]"
  define ms6 where "ms6 = ms5[6 := note_entry 7033 (0, 0, 0, 0) (ms5 ! 6)]"
  have l: "length (ms zero_priv) = 1024" "length ms5 = 1024" "length ms6 = 1024" by (simp_all add: zero_priv_def ms5_def ms6_def)
  have e6: "ms6 ! 6 = \<lparr>m_valid = 1, m_time = 7033, pic = 0, tff = 0, rff = 0, pro = 0\<rparr>"
    using l by (simp add: ms6_def ms5_def note_entry_def zero_priv_def)
  define p1 where "p1 = zero_priv\<lparr>ms := ms5, fake_time := 7000\<rparr>"
  define p2 where "p2 = p1\<lparr>ms := ms6, fake_time := 7033, n_fields := 0, ref_time := 7033, last_tff := 0, last_time := 7033, ref_count := 0\<rparr>"
  have pre: "m_pre False 1 zero_priv (cbe_sample 0x50) (cdata_sample 7000) = Some (p1, (cdata_sample 7000)\<lparr>c_user_ID := 5, frm_type := 1\<rparr>)"
    using l by (simp add: m_pre_def psc VIDEO_SUBFMT_MPEG2_def TREF_MAX_def wr_def p1_def t ms5_def)
  have pre6: "m_pre False 1 p1 (cbe_sample 0x90) (cdata_sample 7033) = Some (p1\<lparr>ms := ms6, fake_time := 7033\<rparr>, (cdata_sample 7033)\<lparr>c_user_ID := 6, frm_type := 1\<rparr>)"
    using l by (simp add: m_pre_def psc VIDEO_SUBFMT_MPEG2_def TREF_MAX_def wr_def p1_def t ms6_def)
  have es: "m_events 1 True 1 25 p1 [Chunk (cbe_sample 0x90) (cdata_sample 7033), Picture (Some (frame_sample\<lparr>f_user_ID := 6\<rparr>)), Flush] = Some p2"
    using l by (simp add: pre6 m_post_def TREF_MAX_def frame_sample_def e6 m_flush_def p2_def)
  have "chunk_ref (cbe_sample 0x50) (cdata_sample 7000) = Some 5" "chunk_ref (cbe_sample 0x90) (cdata_sample 7033) = Some 6"
    by (simp_all add: chunk_ref_def psc)
  with mangler_time_stamp [OF pre _ l(1) _ es, of 5 frame_sample] pre es show ?thesis
    by (auto simp: t frame_sample_def)
qed

text \<open>
  The product of the fields and the scale wraps at 32 bits: with 8582 fields (143 seconds at 60 fields a second)
  since the last time stamp, a picture gets a time before that of the pictures shown already.
\<close>

lemma m_post_product_wraps:
  "\<exists>p'. m_post False True 1001 30000 ((priv_sample 8580)\<lparr>last_tff := 1\<rparr>) (Some frame_sample) = Some (p', Some (frame_sample\<lparr>f_time := 1010\<rparr>))"
  by (simp add: m_post_def priv_sample_def frame_sample_def zero_priv_def TREF_MAX_def i32_def uw32_def)

text \<open>
  C37. MPEG_get_video_props on an MPEG-2 stream: when the first sequence start code lies within
  maxsearch bytes and is followed by a header with a size, an aspect code from 1 to 4 and a frame
  rate code from 1 to 8, it returns 0 with the size, the frame rate and the pixel aspect, reduced
  to lowest terms.
\<close>

theorem MPEG_get_video_props_sequence:
  assumes "k < n" "take 4 (drop (b + k) m) = [0, 0, 1, 0xB3]" "\<And>i. i < k \<Longrightarrow> take 4 (drop (b + i) m) \<noteq> [0, 0, 1, 0xB3]"
    and "take 4 (drop (b + k + 4) m) = seq_bytes w h asp frc" "0 < w" "w < 4096" "h < 4096" "asp \<in> {1, 2, 3, 4}" "frc \<in> {1..8}"
  shows "\<exists>v. MPEG_get_video_props VIDEO_FORMAT_MPEG new m (int b) (int n) buflen = Some (0, v, m)
    \<and> v_width v = int w \<and> v_height v = int h \<and> rate v = frame_rate_rate ! (frc - 1) \<and> scale v = frame_rate_scale ! (frc - 1)
    \<and> coprime (aspect_n v) (aspect_d v) \<and> aspect_n v * snd (seq_aspect w h asp) = aspect_d v * fst (seq_aspect w h asp)"
proof -
  have "length (take 4 (drop (b + k + 4) m)) = 4" unfolding assms(4) by (simp add: seq_bytes_def)
  then have l: "b + k + 4 \<le> length m" by (simp split: if_splits)
  note sc = MPEG2_find_video_sc_first [OF assms(1) l assms(2,3)]
  note d = MPEG2_get_video_props_decodes [OF assms(4,6-9), unfolded of_nat_add]
  obtain N D where a: "seq_aspect w h asp = (N, D)" by (cases "seq_aspect w h asp")
  have nd: "0 \<le> N" "0 < D" using a assms(5) by (auto simp: seq_aspect_def split: if_splits)
  have r: "av_reduce N D = (N div gcd N D, D div gcd N D)" using nd by (simp add: av_reduce_eq)
  have "coprime (N div gcd N D) (D div gcd N D)" using nd by (intro div_gcd_coprime) auto
  moreover have "N div gcd N D * D = D div gcd N D * N"
    by (metis dvd_div_mult gcd_dvd1 gcd_dvd2 mult.commute)
  ultimately show ?thesis
    by (simp add: MPEG_get_video_props_def sc d a reduced_def r)
qed

text \<open>720 by 576, 16:9, 25 frames per second; 576 * 16 div 9 is 1024, and 1024 : 720 is 64 : 45.\<close>

theorem MPEG_get_video_props_sequence_witness:
  "\<forall>new. \<exists>v. MPEG_get_video_props VIDEO_FORMAT_MPEG new [9, 0, 0, 1, 0xB3, 0x2D, 0x02, 0x40, 0x33] (int 0) (int 5) 9
      = Some (0, v, [9, 0, 0, 1, 0xB3, 0x2D, 0x02, 0x40, 0x33])
    \<and> v_width v = 720 \<and> v_height v = 576 \<and> aspect_n v * 720 = aspect_d v * 1024"
proof
  fix new
  let ?m = "[9, 0, 0, 1, 0xB3, 0x2D, 0x02, 0x40, 0x33] :: u8 list"
  have 1: "(1::nat) < 5" by simp
  have 2: "take 4 (drop (0 + 1) ?m) = [0, 0, 1, 0xB3]" by simp
  have 3: "\<And>i. i < 1 \<Longrightarrow> take 4 (drop (0 + i) ?m) \<noteq> [0, 0, 1, 0xB3]" by simp
  have 4: "take 4 (drop (0 + 1 + 4) ?m) = seq_bytes 720 576 3 3" by (simp add: seq_bytes_def)
  have "\<exists>v. MPEG_get_video_props VIDEO_FORMAT_MPEG new ?m (int 0) (int 5) 9 = Some (0, v, ?m)
    \<and> v_width v = int 720 \<and> v_height v = int 576 \<and> rate v = frame_rate_rate ! (3 - 1) \<and> scale v = frame_rate_scale ! (3 - 1)
    \<and> coprime (aspect_n v) (aspect_d v) \<and> aspect_n v * snd (seq_aspect 720 576 3) = aspect_d v * fst (seq_aspect 720 576 3)"
    by (rule MPEG_get_video_props_sequence [OF 1 2 3 4]) simp_all
  then show "\<exists>v. MPEG_get_video_props VIDEO_FORMAT_MPEG new ?m (int 0) (int 5) 9 = Some (0, v, ?m)
    \<and> v_width v = 720 \<and> v_height v = 576 \<and> aspect_n v * 720 = aspect_d v * 1024"
    by (auto simp: seq_aspect_def)
qed

end
