(* ===== verification/Stream_Buffer.thy ===== *)
theory Stream_Buffer
  imports Ring
begin

text \<open>
  The stream buffer of Source/stream_buffer.c and Include/stream_buffer.h: a ring of buffer_size
  bytes with overlap_size bytes behind it that repeat the first ones, holding a window of the
  stream. buf_write and buf_write_pos say where the next byte of the stream goes and which
  position of the stream that is, buf_scan and buf_scan_pos where the parser reads, buf_read the
  oldest byte the decoders still need, buf_tail how far back the parser can go. sb_data is the
  memory; a freed buffer has none. Positions of the stream are UINT64 in the code and do not
  reach 2^63 here. The record strm has the fields of the STREAM that the buffer uses. Locks and
  threads are left out: an operation is a step.
\<close>

datatype drive_state = BUFFER_RDWR | BUFFER_SLEEP | BUFFER_NO_SLEEP

definition VE_FILE_ERROR :: int where "VE_FILE_ERROR = 1"
definition VE_USER_ABORT :: int where "VE_USER_ABORT = 4"

record strm =
  audio_valid :: bool
  buffer_chunk :: int
  parser_mindata_size :: int
  atime_parsed :: int
  acurrent_rate :: int
  vtime_parsed :: int
  vcurrent_rate :: int
  aborted :: bool
  video_error :: int
  s_error :: bool

record sbuf =
  sb_data :: "u8 list"
  buffer_size :: int
  overlap_size :: int
  sb_data_start :: int
  data_end :: int
  buf_file_pos :: int
  buf_write :: int
  buf_write_cls :: int
  buf_write_pos :: int
  buf_read :: int
  buf_scan :: int
  buf_scan_pos :: int
  buf_tail :: int
  buf_wrap :: bool
  buf_end :: bool
  drive :: drive_state
  state_changed :: bool
  no_sleep :: bool
  vid_last_pos :: int
  vid_last_buf :: int
  aud_last_pos :: int
  aud_last_buf :: int
  sub_last_pos :: int
  sub_last_buf :: int
  b_audio :: bool
  b_video :: bool
  b_subtitle :: bool
  is_buffer2 :: bool
  flag_no_sleep :: bool
  flag_no_wrap :: bool
  flag_mmap :: bool
  flag_mmap_file :: bool
  paused :: int

section \<open>The fields of the stream\<close>

definition stream_buffer_chunk :: "strm \<Rightarrow> int" where
  "stream_buffer_chunk s = buffer_chunk s"

definition stream_set_buffer_chunk :: "strm \<Rightarrow> int \<Rightarrow> strm" where
  "stream_set_buffer_chunk s n = s\<lparr>buffer_chunk := n sdiv 512 * 512\<rparr>"

definition pad_to_buffer_chunk :: "strm \<Rightarrow> int \<Rightarrow> int option" where
  "pad_to_buffer_chunk s n = do {
     q \<leftarrow> cdiv (n + stream_buffer_chunk s - 1) (stream_buffer_chunk s);
     Some (q * stream_buffer_chunk s) }"

definition stream_set_error :: "strm \<Rightarrow> int \<Rightarrow> strm" where
  "stream_set_error s e = (if aborted s then s
     else let s = (if e = VE_USER_ABORT then s\<lparr>video_error := e\<rparr> else s)
          in if video_error s \<noteq> VE_USER_ABORT then s\<lparr>video_error := e\<rparr> else s)"

definition stream_buffer_state_set :: "sbuf \<Rightarrow> drive_state \<Rightarrow> sbuf" where
  "stream_buffer_state_set b d = b\<lparr>drive := d, state_changed := True\<rparr>"

section \<open>Space and position\<close>

definition stream_buffer_get_free :: "sbuf \<Rightarrow> int" where
  "stream_buffer_get_free b =
     (let free = buf_read b - buf_write b in if free \<le> 0 then free + buffer_size b else free)"

definition stream_buffer_get_used :: "sbuf \<Rightarrow> int" where
  "stream_buffer_get_used b =
     (let used = buf_write b - buf_read b in if used < 0 then used + buffer_size b else used)"

definition stream_buffer_get_head :: "sbuf \<Rightarrow> int" where
  "stream_buffer_get_head b =
     (let used = buf_write b - buf_scan b in if used < 0 then used + buffer_size b else used)"

definition stream_buffer_get_tail :: "sbuf \<Rightarrow> int" where
  "stream_buffer_get_tail b =
     (let used = buf_scan b - buf_tail b in if used < 0 then used + buffer_size b else used)"

definition stream_buffer_get_pos :: "sbuf \<Rightarrow> int" where
  "stream_buffer_get_pos b = buf_scan_pos b"

definition stream_buffer_get_buf_pos :: "sbuf \<Rightarrow> int" where
  "stream_buffer_get_buf_pos b = buf_scan b"

text \<open>A pointer into the buffer is an offset in sb_data.\<close>

definition stream_buffer_get_pointer :: "sbuf \<Rightarrow> int" where
  "stream_buffer_get_pointer b = buf_scan b"

definition stream_buffer_EOF :: "sbuf \<Rightarrow> bool" where
  "stream_buffer_EOF b \<longleftrightarrow> data_end b \<le> buf_scan_pos b"

definition stream_buffer_pause :: "sbuf \<Rightarrow> sbuf" where
  "stream_buffer_pause b = b\<lparr>paused := paused b + 1\<rparr>"

definition stream_buffer_un_pause :: "sbuf \<Rightarrow> sbuf" where
  "stream_buffer_un_pause b = (if paused b > 0 then b\<lparr>paused := paused b - 1\<rparr> else b)"

section \<open>Releasing data\<close>

text \<open>The last position is initially the largest UINT64.\<close>

definition free_data :: "sbuf \<Rightarrow> sbuf" where
  "free_data b = (let
     (r, p) = (buf_read b, 2 ^ 64 - 1);
     (r, p) = (if b_video b \<and> vid_last_pos b < p then (vid_last_buf b, vid_last_pos b) else (r, p));
     (r, p) = (if b_audio b \<and> aud_last_pos b < p then (aud_last_buf b, aud_last_pos b) else (r, p));
     (r, p) = (if b_subtitle b \<and> sub_last_pos b < p then (sub_last_buf b, sub_last_pos b) else (r, p))
     in b\<lparr>buf_read := r\<rparr>)"

text \<open>The type of a chunk; NO_CHUNK is the value -1 that a parser leaves when it found none.\<close>

datatype chunk_type = TYPE_NONE | TYPE_AUD | TYPE_VID | TYPE_SUBT | NO_CHUNK

text \<open>The fields of a STREAM_CHUNK.\<close>

record chunk =
  ck_type :: chunk_type
  ck_valid :: bool
  ck_key :: bool
  ck_frm_type :: int
  ck_pos :: int
  ck_buf :: int
  ck_size :: int
  ck_payload_size :: int
  ck_frame :: int
  ck_time :: int
  ck_audio_skip :: int
  ck_video_skip :: int
  ck_buf2 :: bool
  ck_stream :: int
  ck_sample_ID :: int

definition stream_buffer_free_data :: "sbuf \<Rightarrow> chunk \<Rightarrow> sbuf" where
  "stream_buffer_free_data b sc = (let
     p = ck_pos sc + ck_size sc;
     e = uw32 (ck_buf sc + ck_size sc);
     e = (if e > buffer_size b then e - buffer_size b else e)
     in case ck_type sc of
          TYPE_VID \<Rightarrow> free_data (b\<lparr>vid_last_pos := p, vid_last_buf := e\<rparr>)
        | TYPE_AUD \<Rightarrow> free_data (b\<lparr>aud_last_pos := p, aud_last_buf := e\<rparr>)
        | TYPE_SUBT \<Rightarrow> free_data (b\<lparr>sub_last_pos := p, sub_last_buf := e\<rparr>)
        | _ \<Rightarrow> b)"

definition stream_buffer_fix_subs :: "sbuf \<Rightarrow> sbuf" where
  "stream_buffer_fix_subs b = b\<lparr>sub_last_pos := vid_last_pos b, sub_last_buf := vid_last_buf b\<rparr>"

definition stream_buffer_free_all_data :: "sbuf \<Rightarrow> int \<Rightarrow> int \<Rightarrow> sbuf" where
  "stream_buffer_free_all_data b p c = free_data (b\<lparr>vid_last_pos := p, vid_last_buf := c,
     aud_last_pos := p, aud_last_buf := c, sub_last_pos := p, sub_last_buf := c\<rparr>)"

definition stream_buffer_flush :: "sbuf \<Rightarrow> sbuf" where
  "stream_buffer_flush b = stream_buffer_free_all_data
     (b\<lparr>buf_write := 0, buf_write_pos := sb_data_start b, buf_write_cls := 0, buf_scan := 0,
        buf_scan_pos := sb_data_start b, buf_read := 0, buf_tail := 0, buf_wrap := False,
        buf_end := False\<rparr>) 0 0"

section \<open>When the drive has to wake up\<close>

definition calc_buffer_threshold :: "strm \<Rightarrow> sbuf \<Rightarrow> int \<Rightarrow> bool" where
  "calc_buffer_threshold s b time_to_wake = (let
     (time_parsed, rate) =
       (if is_buffer2 b then (atime_parsed s, acurrent_rate s)
        else if audio_valid s then (min (vtime_parsed s) (atime_parsed s), max (vcurrent_rate s) (acurrent_rate s))
        else (vtime_parsed s, vcurrent_rate s));
     head = stream_buffer_get_head b - overlap_size b
     in if time_parsed > time_to_wake then False
        else if head < 0 then True
        else if rate \<noteq> 0 then
          time_parsed + i32 (1000 * head div (rate mod 2 ^ 64)) \<le> time_to_wake
        else False)"

definition stream_drive_wake_sleep :: int where "stream_drive_wake_sleep = 5000"
definition stream_drive_wake_no_sleep :: int where "stream_drive_wake_no_sleep = 2000"

definition stream_buffer_drive_needs_to_wake_up :: "strm \<Rightarrow> sbuf \<Rightarrow> bool" where
  "stream_buffer_drive_needs_to_wake_up s b =
     calc_buffer_threshold s b (if no_sleep b then stream_drive_wake_no_sleep else stream_drive_wake_sleep)"

section \<open>Reading at the scan position\<close>

text \<open>The positions are compared with buffer_size as unsigned ints.\<close>

definition stream_buffer_peek_byte :: "sbuf \<Rightarrow> int \<Rightarrow> u8 option" where
  "stream_buffer_peek_byte b offset = (let peek = buf_scan b + offset in
     rd (sb_data b) (if uw32 peek \<ge> buffer_size b then i32 (peek - buffer_size b) else peek))"

definition stream_buffer_read_byte :: "sbuf \<Rightarrow> (u8 \<times> sbuf) option" where
  "stream_buffer_read_byte b = do {
     x \<leftarrow> rd (sb_data b) (buf_scan b);
     let scan = buf_scan b + 1;
     Some (x, b\<lparr>buf_scan := (if scan = buffer_size b then 0 else scan),
       buf_scan_pos := buf_scan_pos b + 1\<rparr>) }"

fun stream_buffer_read :: "sbuf \<Rightarrow> nat \<Rightarrow> (u8 list \<times> sbuf) option" where
  "stream_buffer_read b 0 = Some ([], b)"
| "stream_buffer_read b (Suc n) = do {
     (x, b) \<leftarrow> stream_buffer_read_byte b;
     (xs, b) \<leftarrow> stream_buffer_read b n;
     Some (x # xs, b) }"

text \<open>
  The loop that wraps the scan position; the comparison and the subtraction are unsigned, so the
  loop ends for every position unless buffer_size is 0.
\<close>

partial_function (option) wrap_scan :: "int \<Rightarrow> int \<Rightarrow> int option" where
  "wrap_scan scan n = (if uw32 scan \<ge> n then wrap_scan (i32 (uw32 scan - n)) n else Some scan)"

definition stream_buffer_skip_buf_pos :: "sbuf \<Rightarrow> int \<Rightarrow> sbuf option" where
  "stream_buffer_skip_buf_pos b offset = do {
     scan \<leftarrow> wrap_scan (buf_scan b + offset) (buffer_size b);
     Some (b\<lparr>buf_scan := scan\<rparr>) }"

definition stream_buffer_skip_pos :: "sbuf \<Rightarrow> int \<Rightarrow> sbuf" where
  "stream_buffer_skip_pos b offset = b\<lparr>buf_scan_pos := buf_scan_pos b + offset\<rparr>"

definition stream_buffer_skip :: "sbuf \<Rightarrow> int \<Rightarrow> (int \<times> sbuf) option" where
  "stream_buffer_skip b offset = do {
     b \<leftarrow> stream_buffer_skip_buf_pos b offset;
     let b = stream_buffer_skip_pos b offset;
     Some (buf_scan_pos b, b) }"

section \<open>Writing\<close>

definition sb_copy_nowrap :: "sbuf \<Rightarrow> u8 list \<Rightarrow> int \<Rightarrow> int \<Rightarrow> sbuf option" where
  "sb_copy_nowrap b src off count = do {
     xs \<leftarrow> rd_blk src off count;
     d \<leftarrow> wr_blk (sb_data b) (buf_write b) xs;
     d \<leftarrow> (if buf_write b < overlap_size b then do {
            ys \<leftarrow> rd_blk src off (min count (overlap_size b - buf_write b));
            wr_blk d (buffer_size b + buf_write b) ys }
          else Some d);
     let w = buf_write b + count;
     Some (b\<lparr>sb_data := d, buf_write_pos := buf_write_pos b + count,
       buf_write := (if w \<ge> buffer_size b then w - buffer_size b else w)\<rparr>) }"

definition tail_follows :: "sbuf \<Rightarrow> sbuf" where
  "tail_follows b = (if buf_wrap b then b\<lparr>buf_tail := buf_write b\<rparr> else b)"

definition stream_buffer_write :: "sbuf \<Rightarrow> u8 list \<Rightarrow> int \<Rightarrow> (int \<times> sbuf) option" where
  "stream_buffer_write b src n =
     (if stream_buffer_get_free b < n then Some (0, b)
      else let rest = buffer_size b - buf_write b in do {
        b \<leftarrow> (if rest \<ge> n then sb_copy_nowrap b src 0 n
             else do {
               b \<leftarrow> sb_copy_nowrap b src 0 rest;
               b \<leftarrow> sb_copy_nowrap b src rest (n - rest);
               Some (b\<lparr>buf_wrap := True\<rparr>) });
        Some (n, tail_follows b) })"

text \<open>
  The other way to write: stream_buffer_get_write_pointer gives the address and the bytes that
  can be written there, stream_buffer_update_write_pointer takes over what was written.
\<close>

definition stream_buffer_get_write_pointer :: "sbuf \<Rightarrow> int \<times> int" where
  "stream_buffer_get_write_pointer b =
     (min (stream_buffer_get_free b) (buffer_size b + overlap_size b - buf_write b), buf_write b)"

text \<open>The copies between the start of the ring and the overlap, d being the memory.\<close>

definition copy_to_overlap :: "sbuf \<Rightarrow> u8 list \<Rightarrow> int \<Rightarrow> u8 list option" where
  "copy_to_overlap b d count =
     (if buf_write b < overlap_size b then do {
        xs \<leftarrow> rd_blk d (buf_write b) (min count (overlap_size b - buf_write b));
        wr_blk d (buffer_size b + buf_write b) xs }
      else Some d)"

definition copy_to_start :: "sbuf \<Rightarrow> u8 list \<Rightarrow> int \<Rightarrow> u8 list option" where
  "copy_to_start b d count =
     (if buf_write b + count > buffer_size b then do {
        xs \<leftarrow> rd_blk d (buffer_size b) (buf_write b + count - buffer_size b);
        wr_blk d 0 xs }
      else Some d)"

definition stream_buffer_update_write_pointer :: "sbuf \<Rightarrow> int \<Rightarrow> (int \<times> sbuf) option" where
  "stream_buffer_update_write_pointer b count = do {
     d \<leftarrow> copy_to_overlap b (sb_data b) count;
     d \<leftarrow> copy_to_start b d count;
     let w = buf_write b + count;
     let b = b\<lparr>sb_data := d, buf_write_pos := buf_write_pos b + count, buf_write := w\<rparr>;
     let b = (if w \<ge> buffer_size b then b\<lparr>buf_write := w - buffer_size b, buf_wrap := True\<rparr> else b);
     Some (count, tail_follows b) }"

section \<open>Memory\<close>

text \<open>
  The new memory m is what the allocator returns; it starts with the old contents. When arealloc
  fails the old memory is lost.
\<close>

definition stream_buffer_resize :: "sbuf \<Rightarrow> int \<Rightarrow> u8 list option \<Rightarrow> int \<times> sbuf" where
  "stream_buffer_resize b n m =
     (if flag_mmap_file b then (1, b)
      else if flag_mmap b then
        (case m of None \<Rightarrow> (1, b) | Some d \<Rightarrow> (0, b\<lparr>sb_data := d, buffer_size := n\<rparr>))
      else
        (case m of None \<Rightarrow> (1, b\<lparr>sb_data := []\<rparr>) | Some d \<Rightarrow> (0, b\<lparr>sb_data := d, buffer_size := n\<rparr>)))"


section \<open>The window of the stream in the memory\<close>

text \<open>
  sb_base is a position of the stream kept in cell 0. As long as nothing was overwritten
  (buf_wrap) the memory holds the stream from the position of cell 0 on, afterwards a whole ring.
  sb_oldest is the position the parser can go back to.
\<close>

definition sb_base :: "sbuf \<Rightarrow> int" where
  "sb_base b = buf_write_pos b - buf_write b"

definition sb_oldest :: "sbuf \<Rightarrow> int" where
  "sb_oldest b = buf_write_pos b - (if buf_wrap b then buffer_size b else buf_write b)"

definition sb_shape :: "sbuf \<Rightarrow> bool" where
  "sb_shape b \<longleftrightarrow> 0 < buffer_size b \<and> 0 \<le> overlap_size b \<and> overlap_size b \<le> buffer_size b
     \<and> buffer_size b + overlap_size b < 2 ^ 31
     \<and> int (length (sb_data b)) = buffer_size b + overlap_size b
     \<and> 0 \<le> buf_write b \<and> buf_write b < buffer_size b
     \<and> 0 \<le> buf_read b \<and> buf_read b \<le> buffer_size b
     \<and> buf_tail b = (if buf_wrap b then buf_write b else 0)
     \<and> 0 \<le> buf_write_pos b \<and> data_end b \<le> 2 ^ 63"

definition sb_scan_ok :: "sbuf \<Rightarrow> bool" where
  "sb_scan_ok b \<longleftrightarrow> sb_oldest b \<le> buf_scan_pos b \<and> buf_scan_pos b \<le> buf_write_pos b
     \<and> buf_write_pos b - buf_scan_pos b < buffer_size b
     \<and> buf_scan b = (buf_scan_pos b - sb_base b) mod buffer_size b"

definition sb_window :: "sbuf \<Rightarrow> (int \<Rightarrow> u8) \<Rightarrow> bool" where
  "sb_window b f \<longleftrightarrow> live (sb_data b) (buffer_size b) (overlap_size b) (sb_base b) f (sb_oldest b) (buf_write_pos b)"

definition sb_ok :: "sbuf \<Rightarrow> (int \<Rightarrow> u8) \<Rightarrow> bool" where
  "sb_ok b f \<longleftrightarrow> sb_shape b \<and> sb_scan_ok b \<and> sb_window b f"

text \<open>
  Only the stream from lo on is intact; with lo the scan position this is what the parser needs.
\<close>

definition sb_from :: "sbuf \<Rightarrow> (int \<Rightarrow> u8) \<Rightarrow> int \<Rightarrow> bool" where
  "sb_from b f lo \<longleftrightarrow> sb_shape b \<and> sb_scan_ok b \<and> sb_oldest b \<le> lo \<and> lo \<le> buf_scan_pos b
     \<and> live (sb_data b) (buffer_size b) (overlap_size b) (sb_base b) f lo (buf_write_pos b)"

lemma sb_ok_from: "sb_ok b f \<longleftrightarrow> sb_from b f (sb_oldest b)"
  by (auto simp: sb_ok_def sb_from_def sb_window_def sb_scan_ok_def)

lemma sb_from_later: "sb_from b f lo \<Longrightarrow> lo \<le> lo' \<Longrightarrow> lo' \<le> buf_scan_pos b \<Longrightarrow> sb_from b f lo'"
  by (auto simp: sb_from_def intro: live_subset)

text \<open>The decoders do not release bytes that the parser has not read.\<close>

definition sb_guard :: "sbuf \<Rightarrow> bool" where
  "sb_guard b \<longleftrightarrow> buf_write_pos b - buf_scan_pos b \<le> stream_buffer_get_used b"

lemma sb_write_cell: "sb_shape b \<Longrightarrow> (buf_write_pos b - sb_base b) mod buffer_size b = buf_write b"
  by (simp add: sb_base_def sb_shape_def)

lemma sb_oldest_span: "sb_shape b \<Longrightarrow> buf_write_pos b - sb_oldest b \<le> buffer_size b"
  by (auto simp: sb_oldest_def sb_shape_def)

lemma sb_head_ok:
  assumes "sb_shape b" "sb_scan_ok b"
  shows "stream_buffer_get_head b = buf_write_pos b - buf_scan_pos b"
proof -
  let ?k = "buf_write_pos b - buf_scan_pos b"
  have k: "0 \<le> ?k" "?k < buffer_size b" using assms(2) by (auto simp: sb_scan_ok_def)
  show ?thesis
  proof (cases "?k = 0")
    case True
    then have "buf_scan_pos b = buf_write_pos b" by simp
    then show ?thesis
      using assms by (auto simp: sb_scan_ok_def stream_buffer_get_head_def sb_base_def sb_shape_def)
  next
    case False
    then have "buf_scan b = (if ?k \<le> buf_write b then buf_write b - ?k else buf_write b - ?k + buffer_size b)"
      using mod_back [OF sb_write_cell [OF assms(1)], of ?k] k assms(1,2)
      by (auto simp: sb_scan_ok_def sb_shape_def)
    then show ?thesis using k assms(1)
      by (auto simp: stream_buffer_get_head_def sb_shape_def Let_def split: if_splits)
  qed
qed

lemma sb_tail_ok:
  assumes "sb_shape b" "sb_scan_ok b"
  shows "stream_buffer_get_tail b \<le> buf_scan_pos b - sb_oldest b" "0 \<le> stream_buffer_get_tail b"
proof -
  have scan: "0 \<le> buf_scan b" "buf_scan b < buffer_size b"
    using assms by (auto simp: sb_scan_ok_def sb_shape_def)
  have h: "stream_buffer_get_head b = buf_write_pos b - buf_scan_pos b" by (rule sb_head_ok [OF assms])
  show "0 \<le> stream_buffer_get_tail b"
    using scan assms(1) by (auto simp: stream_buffer_get_tail_def sb_shape_def Let_def)
  have "buf_scan b = buf_scan_pos b - sb_base b" if "\<not> buf_wrap b"
    using that assms by (simp add: sb_scan_ok_def sb_oldest_def sb_base_def sb_shape_def)
  moreover have "sb_base b = buf_write_pos b - buf_write b" by (simp add: sb_base_def)
  ultimately show "stream_buffer_get_tail b \<le> buf_scan_pos b - sb_oldest b"
    using h scan assms
    by (auto simp: stream_buffer_get_tail_def stream_buffer_get_head_def sb_shape_def sb_oldest_def
        sb_scan_ok_def Let_def split: if_splits)
qed

lemma sb_free_used: "sb_shape b \<Longrightarrow> stream_buffer_get_free b = buffer_size b - stream_buffer_get_used b"
  by (auto simp: stream_buffer_get_free_def stream_buffer_get_used_def sb_shape_def Let_def)

lemma sb_used_range: "sb_shape b \<Longrightarrow> 0 \<le> stream_buffer_get_used b \<and> stream_buffer_get_used b < buffer_size b"
  by (auto simp: stream_buffer_get_used_def sb_shape_def Let_def)

section \<open>Reading\<close>

lemma sb_cell:
  assumes "sb_ok b f" "sb_oldest b \<le> p" "p < buf_write_pos b"
  shows "rd (sb_data b) ((p - sb_base b) mod buffer_size b) = Some (f p)"
proof -
  have s: "0 < buffer_size b" "int (length (sb_data b)) = buffer_size b + overlap_size b" "0 \<le> overlap_size b"
    using assms(1) by (auto simp: sb_ok_def sb_shape_def)
  have "0 \<le> (p - sb_base b) mod buffer_size b" "(p - sb_base b) mod buffer_size b < buffer_size b"
    using s(1) by auto
  moreover have "sb_data b ! nat ((p - sb_base b) mod buffer_size b) = f p"
    using assms by (auto simp: sb_ok_def sb_window_def live_def)
  moreover from calculation(2) s(3) have "(p - sb_base b) mod buffer_size b < buffer_size b + overlap_size b"
    by linarith
  ultimately show ?thesis using s(2) by (simp add: rd_def)
qed

lemma sb_move_scan:
  assumes "sb_ok b f" "sb_oldest b \<le> p" "p \<le> buf_write_pos b" "buf_write_pos b - p < buffer_size b"
  shows "sb_ok (b\<lparr>buf_scan := (p - sb_base b) mod buffer_size b, buf_scan_pos := p\<rparr>) f"
  using assms by (auto simp: sb_ok_def sb_shape_def sb_scan_ok_def sb_window_def sb_oldest_def sb_base_def)

lemma mod_Suc_cases:
  fixes N :: int assumes "0 < N"
  shows "(x + 1) mod N = (if x mod N + 1 = N then 0 else x mod N + 1)"
proof -
  have "(x + 1) mod N = (x mod N + 1) mod N" by (simp add: mod_add_left_eq)
  moreover have "0 \<le> x mod N" "x mod N < N" using assms by auto
  ultimately show ?thesis by auto
qed

lemma stream_buffer_read_byte_ok:
  assumes "sb_ok b f" "buf_scan_pos b < buf_write_pos b"
  shows "\<exists>b'. stream_buffer_read_byte b = Some (f (buf_scan_pos b), b') \<and> sb_ok b' f
    \<and> b' = b\<lparr>buf_scan := buf_scan b', buf_scan_pos := buf_scan_pos b + 1\<rparr>"
proof -
  have N: "0 < buffer_size b" and sc: "sb_scan_ok b"
    using assms(1) by (auto simp: sb_ok_def sb_shape_def)
  have scan: "buf_scan b = (buf_scan_pos b - sb_base b) mod buffer_size b" "sb_oldest b \<le> buf_scan_pos b"
    "buf_write_pos b - buf_scan_pos b < buffer_size b"
    using sc by (auto simp: sb_scan_ok_def)
  have x: "rd (sb_data b) (buf_scan b) = Some (f (buf_scan_pos b))"
    using sb_cell [OF assms(1) scan(2) assms(2)] scan(1) by simp
  have nx: "(if buf_scan b + 1 = buffer_size b then 0 else buf_scan b + 1)
      = (buf_scan_pos b + 1 - sb_base b) mod buffer_size b"
    using mod_Suc_cases [OF N, of "buf_scan_pos b - sb_base b"] scan(1) by (simp add: algebra_simps)
  let ?b = "b\<lparr>buf_scan := (buf_scan_pos b + 1 - sb_base b) mod buffer_size b, buf_scan_pos := buf_scan_pos b + 1\<rparr>"
  have "stream_buffer_read_byte b = Some (f (buf_scan_pos b), ?b)"
    unfolding stream_buffer_read_byte_def Let_def nx x by simp
  moreover have "sb_ok ?b f" using sb_move_scan [OF assms(1), of "buf_scan_pos b + 1"] scan assms(2) by simp
  ultimately show ?thesis by auto
qed

lemma stream_buffer_read_ok:
  assumes "sb_ok b f" "buf_scan_pos b + int n \<le> buf_write_pos b"
  shows "\<exists>b'. stream_buffer_read b n = Some (map (\<lambda>i. f (buf_scan_pos b + int i)) [0..<n], b') \<and> sb_ok b' f
    \<and> b' = b\<lparr>buf_scan := buf_scan b', buf_scan_pos := buf_scan_pos b + int n\<rparr>"
  using assms
proof (induction n arbitrary: b)
  case 0 then show ?case by simp
next
  case (Suc n)
  then obtain b1 where b1: "stream_buffer_read_byte b = Some (f (buf_scan_pos b), b1)" "sb_ok b1 f"
    "b1 = b\<lparr>buf_scan := buf_scan b1, buf_scan_pos := buf_scan_pos b + 1\<rparr>"
    using stream_buffer_read_byte_ok [of b f] by force
  have p1: "buf_scan_pos b1 = buf_scan_pos b + 1" "buf_write_pos b1 = buf_write_pos b"
    by (subst b1(3), simp)+
  obtain b2 where b2: "stream_buffer_read b1 n = Some (map (\<lambda>i. f (buf_scan_pos b1 + int i)) [0..<n], b2)" "sb_ok b2 f"
    "b2 = b1\<lparr>buf_scan := buf_scan b2, buf_scan_pos := buf_scan_pos b1 + int n\<rparr>"
    using Suc.IH [OF b1(2)] Suc.prems(2) p1 by auto
  have "b2 = b\<lparr>buf_scan := buf_scan b2, buf_scan_pos := buf_scan_pos b + int (Suc n)\<rparr>"
    by (subst b2(3), subst b1(3)) (simp add: p1)
  moreover have "map (\<lambda>i. f (buf_scan_pos b + int i)) [0..<Suc n]
      = f (buf_scan_pos b) # map (\<lambda>i. f (buf_scan_pos b1 + int i)) [0..<n]"
    by (simp add: upt_conv_Cons map_Suc_upt [symmetric] p1 o_def add.assoc del: upt_Suc)
  ultimately show ?case using b1(1) b2 by simp
qed

text \<open>The bytes of the window are contiguous as far as the overlap reaches.\<close>

lemma live_rd_blk:
  fixes N ov base p c :: int
  assumes win: "live d N ov base f lo hi" and s: "0 < N" "0 \<le> ov" "ov \<le> N" "int (length d) = N + ov"
    and p: "lo \<le> p" "p + int n \<le> hi" "(p - base) mod N = c" "c + int n \<le> N + ov"
  shows "rd_blk d c (int n) = Some (map (\<lambda>i. f (p + int i)) [0..<n])"
proof -
  have r: "0 \<le> c" "c < N" unfolding p(3) [symmetric] using s(1) by auto
  have "d ! (nat c + i) = f (p + int i)" if i: "i < n" for i
  proof -
    let ?p = "p + int i"
    have here: "d ! nat ((?p - base) mod N) = f ?p" "(?p - base) mod N < ov \<Longrightarrow> d ! nat (N + (?p - base) mod N) = f ?p"
      using win p i by (auto simp: live_def)
    show ?thesis
    proof (cases "c + int i < N")
      case True
      have "(?p - base) mod N = c + int i" by (rule mod_forward) (use p s True in auto)
      then show ?thesis using here(1) r by (simp add: nat_add_distrib)
    next
      case False
      then have "(c + int i) mod N = (c + int i - N) mod N" by simp
      also have "\<dots> = c + int i - N" using False p(4) i s r by (intro mod_pos_pos_trivial) auto
      finally have "(?p - base) mod N = c + int i - N"
        using p(3) by (metis (no_types, opaque_lifting) add_diff_eq add.commute mod_add_right_eq)
      then have "d ! nat (c + int i) = f ?p" using here(2) p(4) i False by simp
      then show ?thesis using r by (simp add: nat_add_distrib)
    qed
  qed
  then have "take n (drop (nat c) d) = map (\<lambda>i. f (p + int i)) [0..<n]"
    using p(4) s r by (intro take_drop_nth_eqI) auto
  then show ?thesis using p(4) s r by (simp add: rd_blk_def)
qed

lemma sb_linear:
  assumes "sb_ok b f" "buf_scan_pos b + int n \<le> buf_write_pos b" "buf_scan b + int n \<le> buffer_size b + overlap_size b"
  shows "rd_blk (sb_data b) (buf_scan b) (int n) = Some (map (\<lambda>i. f (buf_scan_pos b + int i)) [0..<n])"
  using assms by (intro live_rd_blk [where lo = "sb_oldest b" and hi = "buf_write_pos b" and base = "sb_base b" and N = "buffer_size b"
      and ov = "overlap_size b"]) (auto simp: sb_ok_def sb_shape_def sb_window_def sb_scan_ok_def)

section \<open>Moving the scan position\<close>

lemma wrap_scan_mod:
  assumes "0 < n" "n < 2 ^ 31" "- (2 ^ 31) \<le> x" "x < 2 ^ 31"
  shows "wrap_scan x n = Some (uw32 x mod n)"
  using assms
proof (induction "nat (uw32 x)" arbitrary: x rule: less_induct)
  case less
  have r: "0 \<le> uw32 x" "uw32 x < 2 ^ 32" by (auto simp: uw32_def)
  show ?case
  proof (cases "n \<le> uw32 x")
    case True
    have u: "uw32 (i32 (uw32 x - n)) = uw32 x - n"
      using True r less.prems(1) by (simp add: uw32_id)
    then have "wrap_scan (i32 (uw32 x - n)) n = Some ((uw32 x - n) mod n)"
      using less.hyps [of "i32 (uw32 x - n)"] less.prems True i32_range [of "uw32 x - n"] by simp
    then show ?thesis using True by (subst wrap_scan.simps) simp
  next
    case False
    then have "i32 (uw32 x) = uw32 x" "i32 x = x" using less.prems r by (auto intro!: i32_id)
    then have "x = uw32 x" by (simp add: i32_uw32)
    then show ?thesis using False r by (subst wrap_scan.simps) simp
  qed
qed

lemma sb_move_scan_from:
  assumes "sb_from b f lo" "lo \<le> p" "p \<le> buf_write_pos b" "buf_write_pos b - p < buffer_size b"
  shows "sb_from (b\<lparr>buf_scan := (p - sb_base b) mod buffer_size b, buf_scan_pos := p\<rparr>) f lo"
  using assms by (auto simp: sb_from_def sb_shape_def sb_scan_ok_def sb_oldest_def sb_base_def)

lemma stream_buffer_skip_from:
  assumes "sb_from b f lo" "0 \<le> k" "buf_scan_pos b + k \<le> buf_write_pos b"
  shows "\<exists>b'. stream_buffer_skip b k = Some (buf_scan_pos b + k, b') \<and> sb_from b' f lo
    \<and> b' = b\<lparr>buf_scan := buf_scan b', buf_scan_pos := buf_scan_pos b + k\<rparr>"
proof -
  have s: "0 < buffer_size b" "buffer_size b + overlap_size b < 2 ^ 31" "0 \<le> overlap_size b"
    and sc: "sb_scan_ok b" and lo: "lo \<le> buf_scan_pos b"
    using assms(1) by (auto simp: sb_from_def sb_shape_def)
  have scan: "buf_scan b = (buf_scan_pos b - sb_base b) mod buffer_size b" "sb_oldest b \<le> buf_scan_pos b"
    "buf_write_pos b - buf_scan_pos b < buffer_size b"
    using sc by (auto simp: sb_scan_ok_def)
  have "0 \<le> buf_scan b" "buf_scan b < buffer_size b" unfolding scan(1) using s(1) by auto
  then have small: "0 \<le> buf_scan b + k" "buf_scan b + k < 2 ^ 32" using assms(2,3) scan(3) s by auto
  have uw: "uw32 (buf_scan b + k) = buf_scan b + k" using small by (simp add: uw32_def)
  have m: "(buf_scan b + k) mod buffer_size b = (buf_scan_pos b + k - sb_base b) mod buffer_size b"
  proof -
    have "(buf_scan b + k) mod buffer_size b = (buf_scan_pos b - sb_base b + k) mod buffer_size b"
      unfolding scan(1) by (rule mod_add_left_eq)
    then show ?thesis by (simp add: add.commute add_diff_eq)
  qed
  have w: "wrap_scan (buf_scan b + k) (buffer_size b) = Some ((buf_scan b + k) mod buffer_size b)"
  proof (cases "buf_scan b + k < 2 ^ 31")
    case True
    then show ?thesis using wrap_scan_mod [of "buffer_size b" "buf_scan b + k"] s small uw by simp
  next
    case False
    have "wrap_scan (i32 (buf_scan b + k - buffer_size b)) (buffer_size b) = Some (uw32 (i32 (buf_scan b + k - buffer_size b)) mod buffer_size b)"
      using s by (intro wrap_scan_mod) (use i32_range in auto)
    moreover have "uw32 (i32 (buf_scan b + k - buffer_size b)) = buf_scan b + k - buffer_size b"
      using small False s by (simp add: uw32_id)
    ultimately show ?thesis using False s uw by (subst wrap_scan.simps) simp
  qed
  let ?b = "b\<lparr>buf_scan := (buf_scan_pos b + k - sb_base b) mod buffer_size b, buf_scan_pos := buf_scan_pos b + k\<rparr>"
  have "stream_buffer_skip b k = Some (buf_scan_pos b + k, ?b)"
    using w unfolding m by (simp add: stream_buffer_skip_def stream_buffer_skip_buf_pos_def stream_buffer_skip_pos_def)
  moreover have "sb_from ?b f lo" using sb_move_scan_from [OF assms(1), of "buf_scan_pos b + k"] scan lo assms(2,3) by simp
  ultimately show ?thesis by auto
qed

lemma stream_buffer_skip_ok:
  assumes "sb_ok b f" "0 \<le> k" "buf_scan_pos b + k \<le> buf_write_pos b"
  shows "\<exists>b'. stream_buffer_skip b k = Some (buf_scan_pos b + k, b') \<and> sb_ok b' f
    \<and> b' = b\<lparr>buf_scan := buf_scan b', buf_scan_pos := buf_scan_pos b + k\<rparr>"
proof -
  obtain b' where b': "stream_buffer_skip b k = Some (buf_scan_pos b + k, b')" "sb_from b' f (sb_oldest b)"
    "b' = b\<lparr>buf_scan := buf_scan b', buf_scan_pos := buf_scan_pos b + k\<rparr>"
    using stream_buffer_skip_from [of b f "sb_oldest b" k] assms by (auto simp: sb_ok_from)
  have "sb_oldest b' = sb_oldest b" by (subst b'(3)) (simp add: sb_oldest_def)
  then show ?thesis using b' by (auto simp: sb_ok_from)
qed

section \<open>Storing bytes\<close>

text \<open>The buffer after n bytes were stored at the write position, d being the new memory.\<close>

definition sb_advanced :: "sbuf \<Rightarrow> int \<Rightarrow> u8 list \<Rightarrow> sbuf" where
  "sb_advanced b n d = tail_follows (b\<lparr>sb_data := d, buf_write_pos := buf_write_pos b + n,
     buf_write := (if buf_write b + n \<ge> buffer_size b then buf_write b + n - buffer_size b else buf_write b + n),
     buf_wrap := (buf_wrap b \<or> buf_write b + n \<ge> buffer_size b)\<rparr>)"

lemma sb_advanced_fields [simp]:
  "sb_data (sb_advanced b n d) = d" "buffer_size (sb_advanced b n d) = buffer_size b"
  "overlap_size (sb_advanced b n d) = overlap_size b" "buf_write_pos (sb_advanced b n d) = buf_write_pos b + n"
  "buf_write (sb_advanced b n d) = (if buf_write b + n \<ge> buffer_size b then buf_write b + n - buffer_size b else buf_write b + n)"
  "buf_wrap (sb_advanced b n d) = (buf_wrap b \<or> buf_write b + n \<ge> buffer_size b)"
  "buf_scan (sb_advanced b n d) = buf_scan b" "buf_scan_pos (sb_advanced b n d) = buf_scan_pos b"
  "buf_read (sb_advanced b n d) = buf_read b" "buf_end (sb_advanced b n d) = buf_end b"
  "data_end (sb_advanced b n d) = data_end b"
  by (simp_all add: sb_advanced_def tail_follows_def)

lemma buf_tail_sb_advanced: "buf_tail (sb_advanced b n d) = (if buf_wrap (sb_advanced b n d) then buf_write (sb_advanced b n d) else buf_tail b)"
  by (simp add: sb_advanced_def tail_follows_def)

text \<open>The position that is the oldest one after n more bytes.\<close>

definition oldest_after :: "sbuf \<Rightarrow> int \<Rightarrow> int" where
  "oldest_after b n = (if buf_wrap b \<or> buf_write b + n \<ge> buffer_size b
     then buf_write_pos b + n - buffer_size b else sb_oldest b)"

lemma oldest_after_bounds:
  assumes "sb_shape b" "0 \<le> n"
  shows "sb_oldest b \<le> oldest_after b n" "buf_write_pos b + n - oldest_after b n \<le> buffer_size b"
  using assms by (auto simp: oldest_after_def sb_oldest_def sb_shape_def)

lemma sb_window_oldest_after:
  "sb_ok b f \<Longrightarrow> 0 \<le> n \<Longrightarrow>
   live (sb_data b) (buffer_size b) (overlap_size b) (sb_base b) f (oldest_after b n) (buf_write_pos b)"
  using oldest_after_bounds(1) [of b n] by (auto simp: sb_ok_def sb_window_def intro: live_subset)

lemma sb_advanced_used:
  assumes "sb_shape b" "0 \<le> n" "n < stream_buffer_get_free b"
  shows "stream_buffer_get_used (sb_advanced b n d) = stream_buffer_get_used b + n"
  using assms sb_free_used [OF assms(1)] sb_used_range [OF assms(1)]
  by (auto simp: stream_buffer_get_used_def sb_shape_def Let_def)

lemma sb_advanced_oldest: "sb_oldest (sb_advanced b n d) = oldest_after b n"
  by (auto simp: sb_oldest_def oldest_after_def)

lemma sb_advanced_cell: "(p - sb_base (sb_advanced b n d)) mod buffer_size b = (p - sb_base b) mod buffer_size b"
proof -
  have "sb_base (sb_advanced b n d) = sb_base b + (if buf_write b + n \<ge> buffer_size b then buffer_size b else 0)"
    by (simp add: sb_base_def)
  then show ?thesis by simp (metis diff_diff_eq minus_mod_self2)
qed

lemma sb_advanced_from:
  assumes fr: "sb_from b f lo" and "sb_guard b" "0 \<le> n" "n < stream_buffer_get_free b" "length d = length (sb_data b)"
    and win: "live d (buffer_size b) (overlap_size b) (sb_base b) f (max lo (oldest_after b n)) (buf_write_pos b + n)"
  shows "sb_from (sb_advanced b n d) f (max lo (oldest_after b n))" "sb_guard (sb_advanced b n d)"
proof -
  let ?b = "sb_advanced b n d" and ?wr = "buf_write b + n \<ge> buffer_size b"
  have sh: "sb_shape b" and sc: "sb_scan_ok b" and lo: "lo \<le> buf_scan_pos b" using fr by (auto simp: sb_from_def)
  note s = sh [unfolded sb_shape_def]
  have n: "n + stream_buffer_get_used b < buffer_size b" using sb_free_used [OF sh] assms(4) by simp
  have head: "0 \<le> buf_write_pos b - buf_scan_pos b" "buf_write_pos b + n - buf_scan_pos b < buffer_size b"
    using n sc assms(2) by (auto simp: sb_guard_def sb_scan_ok_def)
  have base: "sb_base ?b = sb_base b + (if ?wr then buffer_size b else 0)"
    by (simp add: sb_base_def)
  have shift: "live d' (buffer_size b) ov (sb_base ?b) f l h = live d' (buffer_size b) ov (sb_base b) f l h" for d' ov l h
    by (simp add: base live_shift_base)
  note cell = sb_advanced_cell [of _ b n d]
  note old = sb_advanced_oldest [of b n d]
  have shape: "sb_shape ?b"
    using s n sb_used_range [OF sh] assms(3,5) unfolding sb_shape_def buf_tail_sb_advanced by simp
  have oa: "oldest_after b n \<le> buf_scan_pos b"
    using sc head(2) by (auto simp: oldest_after_def sb_scan_ok_def)
  then have "sb_scan_ok ?b"
    using sc head assms(3) cell [of "buf_scan_pos b"]
    by (simp add: sb_scan_ok_def old)
  then show "sb_from ?b f (max lo (oldest_after b n))"
    using shape oa lo win shift by (simp add: sb_from_def old)
  show "sb_guard ?b"
    using assms(2) sb_advanced_used [OF sh assms(3,4), of d] by (simp add: sb_guard_def)
qed

lemma sb_advanced_ok:
  assumes "sb_ok b f" "sb_guard b" "0 \<le> n" "n < stream_buffer_get_free b" "length d = length (sb_data b)"
    and win: "live d (buffer_size b) (overlap_size b) (sb_base b) f (oldest_after b n) (buf_write_pos b + n)"
  shows "sb_ok (sb_advanced b n d) f" "sb_guard (sb_advanced b n d)"
proof -
  have "max (sb_oldest b) (oldest_after b n) = oldest_after b n"
    using oldest_after_bounds(1) [of b n] assms(1,3) by (simp add: sb_ok_def)
  moreover have "sb_oldest (sb_advanced b n d) = oldest_after b n"
    by (auto simp: sb_oldest_def oldest_after_def)
  ultimately show "sb_ok (sb_advanced b n d) f" "sb_guard (sb_advanced b n d)"
    using sb_advanced_from [of b f "sb_oldest b" n d] assms by (simp_all add: sb_ok_from)
qed

lemma sb_copy_nowrap_live:
  assumes sz: "0 < buffer_size b" "0 \<le> overlap_size b" "overlap_size b \<le> buffer_size b"
    "int (length (sb_data b)) = buffer_size b + overlap_size b" "0 \<le> buf_write b" "buf_write b < buffer_size b"
    and n: "0 \<le> off" "0 \<le> n" "off + n \<le> int (length src)" "buf_write b + n \<le> buffer_size b"
    and win: "live (sb_data b) (buffer_size b) (overlap_size b) base f lo (buf_write_pos b)"
    "(buf_write_pos b - base) mod buffer_size b = buf_write b" "buf_write_pos b + n - lo \<le> buffer_size b"
    and src: "\<And>i. i < nat n \<Longrightarrow> src ! (nat off + i) = f (buf_write_pos b + int i)"
  shows "\<exists>d. sb_copy_nowrap b src off n = Some (b\<lparr>sb_data := d, buf_write_pos := buf_write_pos b + n,
      buf_write := (if buf_write b + n = buffer_size b then 0 else buf_write b + n)\<rparr>)
    \<and> length d = length (sb_data b)
    \<and> live d (buffer_size b) (overlap_size b) base f lo (buf_write_pos b + n)"
proof -
  define xs where "xs = take (nat n) (drop (nat off) src)"
  have xs: "int (length xs) = n" "rd_blk src off n = Some xs" using n by (auto simp: xs_def rd_blk_def)
  have ys: "rd_blk src off (min n (overlap_size b - buf_write b)) = Some (take (nat (min n (overlap_size b - buf_write b))) xs)"
    if "buf_write b < overlap_size b" using that n by (auto simp: xs_def rd_blk_def min_def)
  obtain d1 d2 where d: "wr_blk (sb_data b) (buf_write b) xs = Some d1"
    "(if buf_write b < overlap_size b then wr_blk d1 (buffer_size b + buf_write b) (take (nat (min n (overlap_size b - buf_write b))) xs)
      else Some d1) = Some d2"
    "length d2 = length (sb_data b)"
    "\<And>i. i < nat (buffer_size b + overlap_size b) \<Longrightarrow> d2 ! i = cell_after (sb_data b) (nat (buffer_size b)) (nat (buf_write b)) xs i"
    using wr_with_overlap [of "buffer_size b" "overlap_size b" "sb_data b" "buf_write b" xs] sz n(4) unfolding xs(1) by blast
  have "sb_copy_nowrap b src off n = Some (b\<lparr>sb_data := d2, buf_write_pos := buf_write_pos b + n,
      buf_write := (if buf_write b + n = buffer_size b then 0 else buf_write b + n)\<rparr>)"
    using d(1,2) xs(2) ys n(4) unfolding sb_copy_nowrap_def by (cases "buf_write b < overlap_size b") (simp_all add: Let_def)
  moreover have "live d2 (buffer_size b) (overlap_size b) base f lo (buf_write_pos b + int (length xs))"
    by (rule live_store [OF d(4) sz(1-3) win(2) _ _ win(1)]) (use n sz(5) win(3) xs(1) src in \<open>auto simp: xs_def\<close>)
  ultimately show ?thesis using d(3) xs(1) by auto
qed

lemma stream_buffer_write_stores:
  assumes ok: "sb_ok b f" and n: "int (length src) \<le> stream_buffer_get_free b"
    and src: "\<And>i. i < length src \<Longrightarrow> src ! i = f (buf_write_pos b + int i)"
    and fit: "buf_write b + int (length src) = buffer_size b \<Longrightarrow> buf_wrap b"
  shows "\<exists>d. stream_buffer_write b src (int (length src)) = Some (int (length src), sb_advanced b (int (length src)) d)
    \<and> length d = length (sb_data b)
    \<and> live d (buffer_size b) (overlap_size b) (sb_base b) f (oldest_after b (int (length src))) (buf_write_pos b + int (length src))"
proof -
  let ?n = "int (length src)" and ?N = "buffer_size b" and ?rest = "buffer_size b - buf_write b"
  define lo where "lo = oldest_after b ?n"
  have sh: "sb_shape b" using ok by (auto simp: sb_ok_def)
  have sz: "0 < ?N" "0 \<le> overlap_size b" "overlap_size b \<le> ?N"
    "int (length (sb_data b)) = ?N + overlap_size b" "0 \<le> buf_write b" "buf_write b < ?N"
    using sh by (auto simp: sb_shape_def)
  have lo: "buf_write_pos b + ?n - lo \<le> ?N"
    using oldest_after_bounds(2) [OF sh, of ?n] by (simp add: lo_def)
  have win: "live (sb_data b) ?N (overlap_size b) (sb_base b) f lo (buf_write_pos b)"
    using sb_window_oldest_after [OF ok, of ?n] by (simp add: lo_def)
  have "\<exists>d. stream_buffer_write b src ?n = Some (?n, sb_advanced b ?n d)
      \<and> length d = length (sb_data b)
      \<and> live d ?N (overlap_size b) (sb_base b) f lo (buf_write_pos b + ?n)"
  proof (cases "?n \<le> ?rest")
    case True
    obtain d where d: "sb_copy_nowrap b src 0 ?n = Some (b\<lparr>sb_data := d, buf_write_pos := buf_write_pos b + ?n,
        buf_write := (if buf_write b + ?n = ?N then 0 else buf_write b + ?n)\<rparr>)"
      "length d = length (sb_data b)" "live d ?N (overlap_size b) (sb_base b) f lo (buf_write_pos b + ?n)"
      using sb_copy_nowrap_live [OF sz, of 0 ?n src "sb_base b" f lo] True win lo sb_write_cell [OF sh] src by auto
    have "tail_follows (b\<lparr>sb_data := d, buf_write_pos := buf_write_pos b + ?n,
        buf_write := (if buf_write b + ?n = ?N then 0 else buf_write b + ?n)\<rparr>) = sb_advanced b ?n d"
      using True fit by (auto simp: sb_advanced_def tail_follows_def)
    then show ?thesis using d n True by (auto simp: stream_buffer_write_def)
  next
    case False
    obtain d1 where d1: "sb_copy_nowrap b src 0 ?rest = Some (b\<lparr>sb_data := d1, buf_write_pos := buf_write_pos b + ?rest, buf_write := 0\<rparr>)"
      "length d1 = length (sb_data b)" "live d1 ?N (overlap_size b) (sb_base b) f lo (buf_write_pos b + ?rest)"
      using sb_copy_nowrap_live [OF sz, of 0 ?rest src "sb_base b" f lo] False win lo sb_write_cell [OF sh] src sz by force
    let ?b1 = "b\<lparr>sb_data := d1, buf_write_pos := buf_write_pos b + ?rest, buf_write := 0\<rparr>"
    have nN: "?n \<le> ?N" using n sb_free_used [OF sh] sb_used_range [OF sh] by simp
    have c0: "(buf_write_pos b + ?rest - sb_base b) mod ?N = 0" by (simp add: sb_base_def)
    have rest: "nat ?rest + i < length src" if "i < nat (?n - ?rest)" for i using that sz by linarith
    obtain d2 where d2: "sb_copy_nowrap ?b1 src ?rest (?n - ?rest) = Some (?b1\<lparr>sb_data := d2,
        buf_write_pos := buf_write_pos b + ?n, buf_write := ?n - ?rest\<rparr>)"
      "length d2 = length (sb_data b)" "live d2 ?N (overlap_size b) (sb_base b) f lo (buf_write_pos b + ?n)"
      using sb_copy_nowrap_live [of ?b1 ?rest "?n - ?rest" src "sb_base b" f lo] sz d1(2,3) False c0 lo nN
        src rest by (force simp: algebra_simps)
    have "tail_follows ((?b1\<lparr>sb_data := d2, buf_write_pos := buf_write_pos b + ?n, buf_write := ?n - ?rest\<rparr>)\<lparr>buf_wrap := True\<rparr>)
        = sb_advanced b ?n d2"
      using False by (auto simp: sb_advanced_def tail_follows_def)
    then show ?thesis using d1(1) d2 n False by (auto simp: stream_buffer_write_def)
  qed
  then show ?thesis by (simp add: lo_def)
qed

text \<open>The client stores n bytes at the pointer it got and reports them.\<close>

lemma stream_buffer_update_write_pointer_ok:
  assumes ok: "sb_ok b f" "sb_guard b" and n: "int (length xs) < stream_buffer_get_free b"
      "int (length xs) \<le> fst (stream_buffer_get_write_pointer b)"
    and xs: "\<And>i. i < length xs \<Longrightarrow> xs ! i = f (buf_write_pos b + int i)"
    and d0: "wr_blk (sb_data b) (snd (stream_buffer_get_write_pointer b)) xs = Some d0"
  shows "\<exists>d. stream_buffer_update_write_pointer (b\<lparr>sb_data := d0\<rparr>) (int (length xs)) = Some (int (length xs), sb_advanced b (int (length xs)) d)
    \<and> sb_ok (sb_advanced b (int (length xs)) d) f \<and> sb_guard (sb_advanced b (int (length xs)) d)"
proof -
  let ?n = "int (length xs)" and ?N = "buffer_size b" and ?w = "buf_write b" and ?ov = "overlap_size b"
  have sh: "sb_shape b" using ok(1) by (auto simp: sb_ok_def)
  have sz: "0 < ?N" "0 \<le> ?ov" "?ov \<le> ?N"
    "int (length (sb_data b)) = ?N + ?ov" "0 \<le> ?w" "?w < ?N"
    using sh by (auto simp: sb_shape_def)
  have nN: "?n < ?N" using n(1) sb_free_used [OF sh] sb_used_range [OF sh] by simp
  have fits: "?w + ?n \<le> ?N + ?ov" using n(2) by (simp add: stream_buffer_get_write_pointer_def)
  have d0': "d0 = put_at (sb_data b) (nat ?w) xs" "length d0 = length (sb_data b)"
    using d0 sz fits by (auto simp: stream_buffer_get_write_pointer_def wr_blk_def)
  define k where "k = nat (min ?n (?ov - ?w))"
  define d1 where "d1 = (if ?w < ?ov then put_at d0 (nat (?N + ?w)) (take k (drop (nat ?w) d0)) else d0)"
  have len1: "length d1 = length d0" using sz d0'(2) by (auto simp: d1_def k_def)
  have d1: "copy_to_overlap (b\<lparr>sb_data := d0\<rparr>) d0 ?n = Some d1"
    using sz d0'(2) fits by (auto simp: copy_to_overlap_def d1_def k_def rd_blk_def wr_blk_def)
  define d2 where "d2 = (if ?w + ?n > ?N then put_at d1 0 (take (nat (?w + ?n - ?N)) (drop (nat ?N) d1)) else d1)"
  have len2: "length d2 = length (sb_data b)" using sz d0'(2) len1 fits by (auto simp: d2_def)
  have d2: "copy_to_start (b\<lparr>sb_data := d0\<rparr>) d1 ?n = Some d2"
    using sz d0'(2) len1 fits by (auto simp: copy_to_start_def d2_def rd_blk_def wr_blk_def)
  have cells: "d2 ! i = cell_after (sb_data b) (nat ?N) (nat ?w) xs i" if i: "i < nat (?N + ?ov)" for i
  proof (rule overlap_copies)
    show "k = min (length xs) (nat ?ov - nat ?w)"
      using sz(2,5) unfolding k_def min_def by (split if_split)+ linarith
    show "d1 = (if nat ?w < nat ?ov then put_at d0 (nat ?N + nat ?w) (take k (drop (nat ?w) d0)) else d0)"
      using sz by (auto simp: d1_def nat_add_distrib)
    have "nat (?w + ?n - ?N) = nat ?w + length xs - nat ?N" using sz by linarith
    then show "d2 = (if nat ?N < nat ?w + length xs then put_at d1 0 (take (nat ?w + length xs - nat ?N) (drop (nat ?N) d1)) else d1)"
      using sz by (auto simp: d2_def)
  qed (use sz nN fits i d0'(1) in \<open>auto simp: nat_add_distrib\<close>)
  have "live d2 ?N ?ov (sb_base b) f (oldest_after b ?n) (buf_write_pos b + ?n)"
    by (rule live_store [OF cells sz(1-3) sb_write_cell [OF sh] _ _ sb_window_oldest_after [OF ok(1)] xs])
      (use nN oldest_after_bounds(2) [OF sh, of ?n] in auto)
  note adv = sb_advanced_ok [OF ok _ n(1) len2 this]
  have "stream_buffer_update_write_pointer (b\<lparr>sb_data := d0\<rparr>) ?n = Some (?n, sb_advanced b ?n d2)"
    using d1 d2 by (auto simp: stream_buffer_update_write_pointer_def sb_advanced_def tail_follows_def Let_def)
  then show ?thesis using adv by auto
qed

section \<open>The bytes that may be overwritten\<close>

definition tracks :: "sbuf \<Rightarrow> (int \<times> int) list" where
  "tracks b = (if b_video b then [(vid_last_pos b, vid_last_buf b)] else [])
     @ (if b_audio b then [(aud_last_pos b, aud_last_buf b)] else [])
     @ (if b_subtitle b then [(sub_last_pos b, sub_last_buf b)] else [])"

lemma free_data_least:
  assumes "tracks b \<noteq> []" "\<forall>t\<in>set (tracks b). fst t < 2 ^ 64 - 1"
  shows "\<exists>t\<in>set (tracks b). buf_read (free_data b) = snd t \<and> (\<forall>u\<in>set (tracks b). fst t \<le> fst u)"
proof -
  have "tracks b \<noteq> [] \<Longrightarrow> (\<forall>t\<in>set (tracks b). fst t < 2 ^ 64 - 1) \<Longrightarrow> ?thesis"
    unfolding tracks_def free_data_def Let_def
    by (cases "b_video b"; cases "b_audio b"; cases "b_subtitle b"; auto)
  then show ?thesis using assms by blast
qed

lemma free_data_fields:
  "free_data b = b\<lparr>buf_read := buf_read (free_data b)\<rparr>"
  by (simp add: free_data_def Let_def split: prod.splits)

text \<open>
  A track has released the stream up to a position that the memory holds, and its cell; before
  its first chunk this is position 0 and cell 0.
\<close>

definition track_ok :: "sbuf \<Rightarrow> int \<times> int \<Rightarrow> bool" where
  "track_ok b t \<longleftrightarrow> (let e = max (fst t) (sb_oldest b) in
     (fst t < sb_oldest b \<longrightarrow> \<not> buf_wrap b) \<and> fst t < 2 ^ 64 - 1 \<and> e \<le> buf_scan_pos b
     \<and> buf_write_pos b - e < buffer_size b
     \<and> 0 \<le> snd t \<and> snd t \<le> buffer_size b \<and> snd t mod buffer_size b = (e - sb_base b) mod buffer_size b)"

definition tracks_ok :: "sbuf \<Rightarrow> bool" where
  "tracks_ok b \<longleftrightarrow> tracks b \<noteq> [] \<and> (\<forall>t\<in>set (tracks b). track_ok b t)"

lemma used_of_track:
  assumes sh: "sb_shape b" and t: "track_ok b t" and r: "buf_read b = snd t" and sc: "buf_scan_pos b \<le> buf_write_pos b"
  shows "stream_buffer_get_used b = buf_write_pos b - max (fst t) (sb_oldest b)"
proof -
  define e where "e = max (fst t) (sb_oldest b)"
  let ?k = "buf_write_pos b - e" and ?N = "buffer_size b" and ?w = "buf_write b"
  have w: "0 \<le> ?w" "?w < ?N" using sh by (auto simp: sb_shape_def)
  have k: "0 \<le> ?k" "?k < ?N" "0 \<le> snd t" "snd t \<le> ?N" and m: "snd t mod ?N = (e - sb_base b) mod ?N"
    using t sc by (auto simp: track_ok_def Let_def e_def)
  have "(e - sb_base b) mod ?N = (if ?k \<le> ?w then ?w - ?k else ?w - ?k + ?N)"
  proof (cases "?k = 0")
    case True
    then show ?thesis using sb_write_cell [OF sh] w by simp
  next
    case False
    then show ?thesis using mod_back [OF sb_write_cell [OF sh], of ?k] k w by auto
  qed
  moreover have "snd t mod ?N = (if snd t = ?N then 0 else snd t)" using k by auto
  ultimately have "(if snd t = ?N then 0 else snd t) = (if ?k \<le> ?w then ?w - ?k else ?w - ?k + ?N)" using m by simp
  then show ?thesis
    unfolding stream_buffer_get_used_def r e_def [symmetric] Let_def using k w by (auto split: if_splits)
qed

lemma free_data_used:
  assumes sh: "sb_shape b" and sc: "sb_scan_ok b" and tk: "tracks_ok b"
  shows "\<exists>t\<in>set (tracks b). free_data b = b\<lparr>buf_read := snd t\<rparr> \<and> sb_shape (free_data b) \<and> tracks_ok (free_data b)
    \<and> tracks (free_data b) = tracks b
    \<and> stream_buffer_get_used (free_data b) = buf_write_pos b - max (fst t) (sb_oldest b)
    \<and> max (fst t) (sb_oldest b) \<le> buf_scan_pos b \<and> (\<forall>u\<in>set (tracks b). fst t \<le> fst u)"
proof -
  obtain t where t: "t \<in> set (tracks b)" "buf_read (free_data b) = snd t" "\<forall>u\<in>set (tracks b). fst t \<le> fst u"
    using free_data_least [of b] tk by (auto simp: tracks_ok_def track_ok_def Let_def)
  have e: "free_data b = b\<lparr>buf_read := snd t\<rparr>" using free_data_fields [of b] t(2) by simp
  have tb: "track_ok b t" using tk t(1) by (simp add: tracks_ok_def)
  have same: "sb_oldest (b\<lparr>buf_read := r\<rparr>) = sb_oldest b" "sb_base (b\<lparr>buf_read := r\<rparr>) = sb_base b"
    "tracks (b\<lparr>buf_read := r\<rparr>) = tracks b" for r by (simp_all add: sb_oldest_def sb_base_def tracks_def)
  have tr: "track_ok (b\<lparr>buf_read := r\<rparr>) = track_ok b" for r by (simp add: track_ok_def same fun_eq_iff)
  have sh': "sb_shape (free_data b)" using sh tb by (auto simp: e sb_shape_def track_ok_def Let_def)
  have "stream_buffer_get_used (free_data b) = buf_write_pos b - max (fst t) (sb_oldest b)"
    using used_of_track [OF sh', of t] sc tb by (simp add: e tr same sb_scan_ok_def)
  moreover have "tracks_ok (free_data b)" using tk by (simp add: e tracks_ok_def same tr)
  moreover have "max (fst t) (sb_oldest b) \<le> buf_scan_pos b" using tb by (simp add: track_ok_def Let_def)
  ultimately show ?thesis using t(1,3) e sh' same(3) by (intro bexI [of _ t]) auto
qed

lemma free_data_guard:
  assumes "sb_ok b f" "tracks_ok b"
  shows "sb_ok (free_data b) f" "tracks_ok (free_data b)" "sb_guard (free_data b)"
    "\<exists>t\<in>set (tracks b). stream_buffer_get_used (free_data b) = buf_write_pos b - max (fst t) (sb_oldest b)
       \<and> (\<forall>u\<in>set (tracks b). fst t \<le> fst u)"
proof -
  obtain t where t: "t \<in> set (tracks b)" "free_data b = b\<lparr>buf_read := snd t\<rparr>" "sb_shape (free_data b)" "tracks_ok (free_data b)"
    "stream_buffer_get_used (free_data b) = buf_write_pos b - max (fst t) (sb_oldest b)"
    "max (fst t) (sb_oldest b) \<le> buf_scan_pos b" "\<forall>u\<in>set (tracks b). fst t \<le> fst u"
    using free_data_used [of b] assms by (auto simp: sb_ok_def)
  have "sb_scan_ok (b\<lparr>buf_read := r\<rparr>) = sb_scan_ok b" "sb_window (b\<lparr>buf_read := r\<rparr>) f = sb_window b f" for r
    by (simp_all add: sb_scan_ok_def sb_window_def sb_oldest_def sb_base_def)
  then show "sb_ok (free_data b) f" using assms(1) t(2,3) by (simp add: sb_ok_def)
  show "tracks_ok (free_data b)" by (rule t(4))
  show "sb_guard (free_data b)" using t(5,6) by (simp add: sb_guard_def) (simp add: t(2))
  show "\<exists>t\<in>set (tracks b). stream_buffer_get_used (free_data b) = buf_write_pos b - max (fst t) (sb_oldest b)
       \<and> (\<forall>u\<in>set (tracks b). fst t \<le> fst u)" using t by blast
qed

text \<open>A chunk that the parser has read completely.\<close>

definition chunk_in :: "sbuf \<Rightarrow> chunk \<Rightarrow> bool" where
  "chunk_in b sc \<longleftrightarrow> 0 \<le> ck_size sc \<and> sb_oldest b \<le> ck_pos sc \<and> ck_pos sc + ck_size sc \<le> buf_scan_pos b
     \<and> buf_write_pos b - (ck_pos sc + ck_size sc) < buffer_size b
     \<and> ck_pos sc + ck_size sc < 2 ^ 64 - 1
     \<and> ck_buf sc = (ck_pos sc - sb_base b) mod buffer_size b"

lemma chunk_end_track:
  assumes "sb_shape b" "chunk_in b sc" "sb_scan_ok b"
  defines "e \<equiv> uw32 (ck_buf sc + ck_size sc)"
  shows "track_ok b (ck_pos sc + ck_size sc, if e > buffer_size b then e - buffer_size b else e)"
proof -
  let ?N = "buffer_size b"
  have s: "0 < ?N" "?N < 2 ^ 31" "0 \<le> overlap_size b" using assms(1) by (auto simp: sb_shape_def)
  have c: "0 \<le> ck_size sc" "ck_buf sc = (ck_pos sc - sb_base b) mod ?N" "sb_oldest b \<le> ck_pos sc"
    "ck_pos sc + ck_size sc \<le> buf_scan_pos b" "buf_write_pos b - (ck_pos sc + ck_size sc) < ?N" "ck_pos sc + ck_size sc < 2 ^ 64 - 1"
    using assms(2) by (auto simp: chunk_in_def)
  have "ck_size sc \<le> ?N" using c sb_oldest_span [OF assms(1)] assms(3) by (auto simp: sb_scan_ok_def)
  moreover have b0: "0 \<le> ck_buf sc" "ck_buf sc < ?N" unfolding c(2) using s(1) by auto
  ultimately have e: "e = ck_buf sc + ck_size sc" "0 \<le> e" "e \<le> 2 * ?N" using c(1) s by (auto simp: e_def uw32_id)
  have "(ck_buf sc + ck_size sc) mod ?N = (ck_pos sc - sb_base b + ck_size sc) mod ?N"
    unfolding c(2) by (rule mod_add_left_eq)
  then have m: "e mod ?N = (ck_pos sc + ck_size sc - sb_base b) mod ?N" by (simp add: e(1) algebra_simps)
  have "(if e > ?N then e - ?N else e) mod ?N = e mod ?N" by simp
  moreover define q where "q = (if e > ?N then e - ?N else e)"
  ultimately have "0 \<le> q" "q \<le> ?N" "q mod ?N = (ck_pos sc + ck_size sc - sb_base b) mod ?N"
    using e(2,3) m by (auto simp: q_def)
  moreover have "max (ck_pos sc + ck_size sc) (sb_oldest b) = ck_pos sc + ck_size sc" using c by simp
  ultimately show ?thesis
    unfolding track_ok_def fst_conv snd_conv q_def [symmetric] using c(1,3-6) by (simp add: Let_def)
qed

lemma sb_positions_last:
  "sb_oldest (b\<lparr>vid_last_pos := p, vid_last_buf := c\<rparr>) = sb_oldest b" "sb_base (b\<lparr>vid_last_pos := p, vid_last_buf := c\<rparr>) = sb_base b"
  "sb_oldest (b\<lparr>aud_last_pos := p, aud_last_buf := c\<rparr>) = sb_oldest b" "sb_base (b\<lparr>aud_last_pos := p, aud_last_buf := c\<rparr>) = sb_base b"
  "sb_oldest (b\<lparr>sub_last_pos := p, sub_last_buf := c\<rparr>) = sb_oldest b" "sb_base (b\<lparr>sub_last_pos := p, sub_last_buf := c\<rparr>) = sb_base b"
  by (simp_all add: sb_oldest_def sb_base_def)

lemma track_ok_last:
  "track_ok (b\<lparr>vid_last_pos := p, vid_last_buf := c\<rparr>) = track_ok b"
  "track_ok (b\<lparr>aud_last_pos := p, aud_last_buf := c\<rparr>) = track_ok b"
  "track_ok (b\<lparr>sub_last_pos := p, sub_last_buf := c\<rparr>) = track_ok b"
  by (simp_all add: fun_eq_iff track_ok_def sb_positions_last)

lemma tracks_ok_after:
  assumes "tracks_ok b" "track_ok b (p, c)"
  shows "tracks_ok (b\<lparr>vid_last_pos := p, vid_last_buf := c\<rparr>)" "tracks_ok (b\<lparr>aud_last_pos := p, aud_last_buf := c\<rparr>)"
    "tracks_ok (b\<lparr>sub_last_pos := p, sub_last_buf := c\<rparr>)"
  using assms unfolding tracks_ok_def track_ok_last by (auto simp: tracks_def split: if_splits)

lemma sb_ok_last:
  "sb_ok (b\<lparr>vid_last_pos := p, vid_last_buf := c\<rparr>) f = sb_ok b f"
  "sb_ok (b\<lparr>aud_last_pos := p, aud_last_buf := c\<rparr>) f = sb_ok b f"
  "sb_ok (b\<lparr>sub_last_pos := p, sub_last_buf := c\<rparr>) f = sb_ok b f"
  by (simp_all add: sb_ok_def sb_shape_def sb_scan_ok_def sb_window_def sb_oldest_def sb_base_def)

section \<open>Properties\<close>

text \<open>
  C2. Writing into the stream buffer, when the buffer holds a window of the stream f and the decoders
  have not released unread bytes. stream_buffer_write of the next bytes of f takes none of them and
  leaves the buffer as it is when they are more than the free bytes. Otherwise it takes all of
  them, and the memory then holds the stream from the scan position to the new write position,
  in the ring and the overlap: no unread byte is overwritten. When at least one byte stays free
  the whole window invariant is kept and the bytes to parse grow by those written; when the bytes
  fill the ring exactly it counts as empty (no byte used) although none was released. The bytes
  must not end exactly at the end of the ring on the first round, see
  stream_buffer_write_misses_wrap.
\<close>

theorem stream_buffer_write_keeps_window:
  assumes "sb_ok b f" "sb_guard b"
    and "\<forall>i<length src. src ! i = f (buf_write_pos b + int i)"
    and "buf_write b + int (length src) = buffer_size b \<longrightarrow> buf_wrap b"
  shows "\<exists>r b'. stream_buffer_write b src (int (length src)) = Some (r, b')
    \<and> (if stream_buffer_get_free b < int (length src) then r = 0 \<and> b' = b
       else r = int (length src) \<and> buf_write_pos b' = buf_write_pos b + int (length src) \<and> buf_scan_pos b' = buf_scan_pos b
         \<and> live (sb_data b') (buffer_size b') (overlap_size b') (sb_base b') f (buf_scan_pos b') (buf_write_pos b')
         \<and> (if int (length src) < stream_buffer_get_free b
            then sb_ok b' f \<and> sb_guard b' \<and> stream_buffer_get_head b' = stream_buffer_get_head b + int (length src)
            else stream_buffer_get_used b' = 0))"
proof (cases "stream_buffer_get_free b < int (length src)")
  case True
  then show ?thesis by (simp add: stream_buffer_write_def)
next
  case False
  let ?n = "int (length src)"
  have le: "?n \<le> stream_buffer_get_free b" using False by simp
  have sh: "sb_shape b" and sc: "sb_scan_ok b" using assms(1) by (auto simp: sb_ok_def)
  obtain d where d: "stream_buffer_write b src ?n = Some (?n, sb_advanced b ?n d)" "length d = length (sb_data b)"
    "live d (buffer_size b) (overlap_size b) (sb_base b) f (oldest_after b ?n) (buf_write_pos b + ?n)"
    using stream_buffer_write_stores [OF assms(1) le] assms(3,4) by blast
  let ?b = "sb_advanced b ?n d"
  have "oldest_after b ?n \<le> buf_scan_pos b"
    using sc le assms(2) sb_free_used [OF sh] by (auto simp: oldest_after_def sb_scan_ok_def sb_guard_def)
  then have "live d (buffer_size b) (overlap_size b) (sb_base b) f (buf_scan_pos b) (buf_write_pos b + ?n)"
    using d(3) by (auto intro: live_subset)
  moreover have "sb_base ?b = sb_base b + (if buf_write b + ?n \<ge> buffer_size b then buffer_size b else 0)"
    by (simp add: sb_base_def)
  ultimately have live: "live (sb_data ?b) (buffer_size ?b) (overlap_size ?b) (sb_base ?b) f (buf_scan_pos ?b) (buf_write_pos ?b)"
    by (simp add: live_shift_base)
  have less: "sb_ok ?b f \<and> sb_guard ?b \<and> stream_buffer_get_head ?b = stream_buffer_get_head b + ?n" if "?n < stream_buffer_get_free b"
    using sb_advanced_ok [OF assms(1,2) _ that d(2,3)] sb_head_ok [of ?b] sb_head_ok [of b] sh sc by (auto simp: sb_ok_def)
  have full: "stream_buffer_get_used ?b = 0" if "\<not> ?n < stream_buffer_get_free b"
    using that le sh by (auto simp: stream_buffer_get_free_def stream_buffer_get_used_def sb_shape_def Let_def split: if_splits)
  show ?thesis using d(1) False live less full by auto
qed

definition sb_empty :: "int \<Rightarrow> int \<Rightarrow> sbuf" where
  "sb_empty n ov = stream_buffer_flush \<lparr>sb_data = replicate (nat (n + ov)) 0, buffer_size = n, overlap_size = ov,
     sb_data_start = 0, data_end = 1000, buf_file_pos = 0, buf_write = 0, buf_write_cls = 0, buf_write_pos = 0,
     buf_read = 0, buf_scan = 0, buf_scan_pos = 0, buf_tail = 0, buf_wrap = False, buf_end = False,
     drive = BUFFER_RDWR, state_changed = False, no_sleep = False, vid_last_pos = 0, vid_last_buf = 0,
     aud_last_pos = 0, aud_last_buf = 0, sub_last_pos = 0, sub_last_buf = 0, b_audio = False,
     b_video = True, b_subtitle = False, is_buffer2 = False, flag_no_sleep = False, flag_no_wrap = False,
     flag_mmap = False, flag_mmap_file = False, paused = 0\<rparr>"

definition strm_start :: strm where
  "strm_start = \<lparr>audio_valid = False, buffer_chunk = 512, parser_mindata_size = 4, atime_parsed = 0, acurrent_rate = 0,
     vtime_parsed = 0, vcurrent_rate = 0, aborted = False, video_error = 0, s_error = False\<rparr>"

lemmas sb_eval = sb_empty_def stream_buffer_flush_def stream_buffer_free_all_data_def free_data_def Let_def
  stream_buffer_get_used_def stream_buffer_get_free_def stream_buffer_get_head_def

lemma sb_empty_ok:
  assumes "0 < n" "0 \<le> ov" "ov \<le> n" "n + ov < 2 ^ 31"
  shows "sb_ok (sb_empty n ov) f" "sb_guard (sb_empty n ov)" "stream_buffer_get_free (sb_empty n ov) = n"
    "buf_write (sb_empty n ov) = 0" "buf_write_pos (sb_empty n ov) = 0" "buffer_size (sb_empty n ov) = n"
    "stream_buffer_get_head (sb_empty n ov) = 0"
  using assms
  by (simp_all add: sb_ok_def sb_shape_def sb_scan_ok_def sb_window_def sb_oldest_def sb_base_def sb_guard_def sb_eval)

theorem stream_buffer_write_keeps_window_witness:
  "(\<exists>b'. stream_buffer_write (sb_empty 4 2) [7, 8, 9] 3 = Some (3, b') \<and> sb_ok b' (\<lambda>p. [7, 8, 9] ! nat p) \<and> sb_guard b'
     \<and> stream_buffer_get_head b' = 3)
   \<and> stream_buffer_write (sb_empty 4 2) [7, 8, 9, 7, 8] 5 = Some (0, sb_empty 4 2)"
proof -
  note e = sb_empty_ok [where n = 4 and ov = 2, simplified]
  have "\<exists>b'. stream_buffer_write (sb_empty 4 2) [7, 8, 9] 3 = Some (3, b') \<and> sb_ok b' (\<lambda>p. [7, 8, 9] ! nat p) \<and> sb_guard b'
     \<and> stream_buffer_get_head b' = 3"
    using stream_buffer_write_keeps_window [of "sb_empty 4 2" "\<lambda>p. [7, 8, 9] ! nat p" "[7, 8, 9]", OF e(1,2)]
    by (auto simp: e(3-))
  moreover have "stream_buffer_write (sb_empty 4 2) [7, 8, 9, 7, 8] 5 = Some (0, sb_empty 4 2)"
    using stream_buffer_write_keeps_window [of "sb_empty 4 2" "\<lambda>p. [7, 8, 9, 7, 8] ! nat p" "[7, 8, 9, 7, 8]", OF e(1,2)]
    by (auto simp: e(3-))
  ultimately show ?thesis ..
qed

text \<open>
  C3. Reading. On a buffer that holds a window of the stream f, stream_buffer_read of up to
  stream_buffer_get_head bytes returns the bytes of f from the scan position on, moves the scan
  position behind them and keeps the window; the same bytes can be read as one block at
  stream_buffer_get_pointer as far as the overlap reaches.
\<close>

theorem stream_buffer_reads_stream:
  assumes "sb_ok b f" "int n \<le> stream_buffer_get_head b"
  shows "(\<exists>b'. stream_buffer_read b n = Some (map (\<lambda>i. f (buf_scan_pos b + int i)) [0..<n], b')
      \<and> sb_ok b' f \<and> stream_buffer_get_pos b' = stream_buffer_get_pos b + int n)
    \<and> (stream_buffer_get_pointer b + int n \<le> buffer_size b + overlap_size b
      \<longrightarrow> rd_blk (sb_data b) (stream_buffer_get_pointer b) (int n) = Some (map (\<lambda>i. f (buf_scan_pos b + int i)) [0..<n]))"
proof -
  have "buf_scan_pos b + int n \<le> buf_write_pos b"
    using assms sb_head_ok [of b] by (simp add: sb_ok_def)
  then obtain b' where b': "stream_buffer_read b n = Some (map (\<lambda>i. f (buf_scan_pos b + int i)) [0..<n], b')" "sb_ok b' f"
    "b' = b\<lparr>buf_scan := buf_scan b', buf_scan_pos := buf_scan_pos b + int n\<rparr>"
    and lin: "buf_scan b + int n \<le> buffer_size b + overlap_size b \<longrightarrow>
      rd_blk (sb_data b) (buf_scan b) (int n) = Some (map (\<lambda>i. f (buf_scan_pos b + int i)) [0..<n])"
    using stream_buffer_read_ok [OF assms(1), of n] sb_linear [OF assms(1), of n] by blast
  moreover have "buf_scan_pos b' = buf_scan_pos b + int n" by (subst b'(3)) simp
  ultimately show ?thesis unfolding stream_buffer_get_pos_def stream_buffer_get_pointer_def by blast
qed

definition sb_three :: sbuf where
  "sb_three = (sb_empty 4 2)\<lparr>sb_data := [7, 8, 9, 0, 7, 8], buf_write := 3, buf_write_pos := 3\<rparr>"

lemma sb_three_fields: "buf_scan_pos sb_three = 0" "buf_scan sb_three = 0" "buf_write_pos sb_three = 3" "buffer_size sb_three = 4"
  "overlap_size sb_three = 2" "stream_buffer_get_head sb_three = 3" "sb_data sb_three = [7, 8, 9, 0, 7, 8]"
  by (simp_all add: sb_three_def sb_eval)

lemma sb_three_ok: "sb_ok sb_three (\<lambda>p. [7, 8, 9] ! nat p)"
proof -
  have "live [7, 8, 9, 0, 7, 8] 4 2 0 (\<lambda>p. [7, 8, 9] ! nat p) 0 3"
    unfolding live_def
  proof (intro allI impI)
    fix p :: int assume "0 \<le> p \<and> p < 3"
    then have "p = 0 \<or> p = 1 \<or> p = 2" by arith
    then show "[7, 8, 9, 0, 7, 8] ! nat ((p - 0) mod 4) = ([7, 8, 9] ! nat p :: u8)
      \<and> ((p - 0) mod 4 < 2 \<longrightarrow> [7, 8, 9, 0, 7, 8] ! nat (4 + (p - 0) mod 4) = ([7, 8, 9] ! nat p :: u8))" by auto
  qed
  then show ?thesis
    by (simp add: sb_ok_def sb_shape_def sb_scan_ok_def sb_window_def sb_oldest_def sb_base_def sb_three_def sb_eval)
qed

theorem stream_buffer_reads_stream_witness:
  "(\<exists>b'. stream_buffer_read sb_three 2 = Some ([7, 8], b') \<and> buf_scan_pos b' = 2) \<and> rd_blk [7, 8, 9, 0, 7, 8] (0 :: int) 3 = Some [7, 8, 9 :: u8]"
  using stream_buffer_reads_stream [OF sb_three_ok, of 2] stream_buffer_reads_stream [OF sb_three_ok, of 3]
  by (auto simp: sb_three_fields stream_buffer_get_pos_def stream_buffer_get_pointer_def numeral_2_eq_2 numeral_3_eq_3)

text \<open>
  C4. Releasing data. When every track has released the stream up to a position that the memory
  holds, then after stream_buffer_free_data of a chunk that the parser has read completely this is
  still so, the used bytes are those behind the position of the track that lags most, and the
  writer cannot reach unread bytes.
\<close>

theorem stream_buffer_free_data_guards:
  assumes "sb_ok b f" "tracks_ok b" "chunk_in b sc" "ck_type sc \<in> {TYPE_AUD, TYPE_VID, TYPE_SUBT}"
  shows "sb_ok (stream_buffer_free_data b sc) f \<and> tracks_ok (stream_buffer_free_data b sc)
    \<and> sb_guard (stream_buffer_free_data b sc)
    \<and> (\<exists>t\<in>set (tracks (stream_buffer_free_data b sc)).
         stream_buffer_get_used (stream_buffer_free_data b sc) = buf_write_pos b - max (fst t) (sb_oldest b)
         \<and> (\<forall>u\<in>set (tracks (stream_buffer_free_data b sc)). fst t \<le> fst u))"
proof -
  define p where "p = ck_pos sc + ck_size sc"
  define c where "c = (let e = uw32 (ck_buf sc + ck_size sc) in if e > buffer_size b then e - buffer_size b else e)"
  have t: "track_ok b (p, c)"
    using chunk_end_track [of b sc] assms(1,3) by (auto simp: p_def c_def Let_def sb_ok_def)
  define b1 where "b1 = (case ck_type sc of TYPE_VID \<Rightarrow> b\<lparr>vid_last_pos := p, vid_last_buf := c\<rparr>
    | TYPE_AUD \<Rightarrow> b\<lparr>aud_last_pos := p, aud_last_buf := c\<rparr> | TYPE_SUBT \<Rightarrow> b\<lparr>sub_last_pos := p, sub_last_buf := c\<rparr>
    | _ \<Rightarrow> b)"
  have eq: "stream_buffer_free_data b sc = free_data b1"
    using assms(4) by (cases "ck_type sc") (simp_all add: stream_buffer_free_data_def b1_def p_def c_def Let_def)
  have b1: "sb_ok b1 f" "tracks_ok b1"
    unfolding b1_def by (cases "ck_type sc"; simp only: chunk_type.case sb_ok_last tracks_ok_after [OF assms(2) t] assms(1,2))+
  have b1': "buf_write_pos b1 = buf_write_pos b" "sb_oldest b1 = sb_oldest b"
    unfolding b1_def sb_oldest_def by (cases "ck_type sc"; simp)+
  have "tracks (free_data b1) = tracks b1" by (subst free_data_fields) (simp add: tracks_def)
  then show ?thesis using free_data_guard [OF b1] unfolding eq b1' by simp
qed

definition video_chunk :: "int \<Rightarrow> int \<Rightarrow> int \<Rightarrow> chunk" where
  "video_chunk p c n = \<lparr>ck_type = TYPE_VID, ck_valid = True, ck_key = False,
     ck_frm_type = 0, ck_pos = p, ck_buf = c, ck_size = n, ck_payload_size = n, ck_frame = 0, ck_time = 0,
     ck_audio_skip = 0, ck_video_skip = 0, ck_buf2 = False, ck_stream = 0, ck_sample_ID = 0\<rparr>"

theorem stream_buffer_free_data_guards_witness:
  "sb_guard (stream_buffer_free_data (sb_three\<lparr>buf_scan := 3, buf_scan_pos := 3\<rparr>) (video_chunk 1 1 2))
    \<and> stream_buffer_get_used (stream_buffer_free_data (sb_three\<lparr>buf_scan := 3, buf_scan_pos := 3\<rparr>) (video_chunk 1 1 2)) = 0"
proof -
  let ?b = "sb_three\<lparr>buf_scan := 3, buf_scan_pos := 3\<rparr>"
  have ok: "sb_ok ?b (\<lambda>p. [7, 8, 9] ! nat p)"
    using sb_move_scan [OF sb_three_ok, of 3] by (simp add: sb_three_def sb_eval sb_oldest_def sb_base_def)
  have tr: "tracks ?b = [(0, 0)]" "sb_oldest ?b = 0"
    by (simp_all add: tracks_def sb_three_def sb_eval sb_oldest_def)
  have t: "tracks_ok ?b" unfolding tracks_ok_def tr by (simp add: track_ok_def tr) (simp add: sb_three_fields sb_base_def sb_three_def sb_eval)
  have c: "chunk_in ?b (video_chunk 1 1 2)"
    by (simp add: chunk_in_def video_chunk_def tr sb_three_fields) (simp add: sb_base_def sb_three_def sb_eval)
  have "tracks (stream_buffer_free_data ?b (video_chunk 1 1 2)) = [(3, 3)]"
    by (simp add: tracks_def stream_buffer_free_data_def video_chunk_def free_data_def Let_def sb_three_def sb_eval uw32_def)
  then show ?thesis
    using stream_buffer_free_data_guards [OF ok t c] by (simp add: tr sb_three_fields) (simp add: video_chunk_def)
qed

lemma sb_empty_4_1: "sb_empty 4 1 = \<lparr>sb_data = replicate 5 0, buffer_size = 4, overlap_size = 1,
     sb_data_start = 0, data_end = 1000, buf_file_pos = 0, buf_write = 0, buf_write_cls = 0, buf_write_pos = 0,
     buf_read = 0, buf_scan = 0, buf_scan_pos = 0, buf_tail = 0, buf_wrap = False, buf_end = False,
     drive = BUFFER_RDWR, state_changed = False, no_sleep = False, vid_last_pos = 0, vid_last_buf = 0,
     aud_last_pos = 0, aud_last_buf = 0, sub_last_pos = 0, sub_last_buf = 0, b_audio = False,
     b_video = True, b_subtitle = False, is_buffer2 = False, flag_no_sleep = False, flag_no_wrap = False,
     flag_mmap = False, flag_mmap_file = False, paused = 0\<rparr>"
  by (simp add: sb_eval)

text \<open>
  A write that ends exactly at the end of the ring on the first round leaves buf_wrap unset, and
  buf_tail then stays at the start while the start is overwritten: here the buffer offers three
  bytes behind the scan position, but the byte of position 0 is already the one of position 4.
\<close>

theorem stream_buffer_write_misses_wrap:
  "(do { (_, b) \<leftarrow> stream_buffer_write (sb_empty 4 1) [1, 2, 3] 3;
         (_, b) \<leftarrow> stream_buffer_read b 3;
         (_, b) \<leftarrow> stream_buffer_write (stream_buffer_free_data b (video_chunk 0 0 2)) [4] 1;
         (_, b) \<leftarrow> stream_buffer_write b [5] 1;
         Some (stream_buffer_get_tail b, buf_scan_pos b, rd (sb_data b) 0) })
   = Some (3, 3, Some 5)"
  by (simp add: sb_empty_4_1 stream_buffer_write_def stream_buffer_get_free_def sb_copy_nowrap_def rd_blk_def wr_blk_def put_at_def tail_follows_def
    stream_buffer_free_data_def free_data_def video_chunk_def uw32_def stream_buffer_read_byte_def rd_def Let_def numeral_3_eq_3 stream_buffer_get_tail_def)

end
