(* ===== verification/Stream_Fill.thy ===== *)
theory Stream_Fill
  imports Stream_Buffer
begin

text \<open>
  How the stream buffer is filled and moved: Source/stream_buffer_raw.c (the blocking and the
  non-blocking variant) and Source/stream_buffer_cooked.c. The input is an io_ops, the methods of a
  STREAM_IO that the buffer calls, over a state 'w of the outside world; io_read returns the return
  value of read (negative for an error) and the bytes it stored, and has no result when it does
  not return. A buffer method has the result 0 when it read something and 1 otherwise. Sleeping, statistics and
  debug output are left out.
\<close>

record 'w io_ops =
  io_can_read :: "'w \<Rightarrow> int \<Rightarrow> int \<Rightarrow> bool \<times> 'w"
  io_seek :: "'w \<Rightarrow> int \<Rightarrow> 'w"
  io_read :: "'w \<Rightarrow> int \<Rightarrow> (int \<times> u8 list \<times> 'w) option"
  io_sleepable :: "'w \<Rightarrow> bool"
  io_size :: "'w \<Rightarrow> int"

definition STREAM_BUFFER_ABORT_FINAL :: int where "STREAM_BUFFER_ABORT_FINAL = 1"
definition MAX_READ_CLUSTER :: int where "MAX_READ_CLUSTER = 4"
definition MIN_FREE_VIDEO :: int where "MIN_FREE_VIDEO = 2"

type_synonym 'w buffer_method = "strm \<Rightarrow> sbuf \<Rightarrow> 'w \<Rightarrow> int \<Rightarrow> (int \<times> strm \<times> sbuf \<times> 'w) option"

section \<open>Steps shared by the variants\<close>

definition note_end :: "sbuf \<Rightarrow> sbuf" where
  "note_end b = (if buf_write_pos b \<ge> data_end b \<and> \<not> buf_end b then b\<lparr>buf_end := True\<rparr> else b)"

definition end_sleep :: "'w io_ops \<Rightarrow> sbuf \<Rightarrow> 'w \<Rightarrow> int \<Rightarrow> sbuf" where
  "end_sleep io b w sleep = (if io_sleepable io w \<and> sleep > 0 \<and> drive b \<noteq> BUFFER_SLEEP
     then stream_buffer_state_set b BUFFER_SLEEP else b)"

text \<open>The switch on the state of the drive: whether to read now, and the new state.\<close>

definition drive_step :: "strm \<Rightarrow> sbuf \<Rightarrow> bool \<Rightarrow> int \<Rightarrow> int \<Rightarrow> int \<Rightarrow> bool \<times> sbuf" where
  "drive_step s b sleepable sleep free mn = (case drive b of
     BUFFER_RDWR \<Rightarrow>
       if free > mn \<or> sleep = 2 then (True, b)
       else if flag_no_sleep b then (False, b)
       else if sleepable \<and> sleep = 1 then (False, stream_buffer_state_set b BUFFER_SLEEP)
       else (False, b)
   | BUFFER_SLEEP \<Rightarrow>
       if free \<le> mn then (False, b)
       else if stream_buffer_drive_needs_to_wake_up s b then (False, stream_buffer_state_set b BUFFER_RDWR)
       else (False, b)
   | BUFFER_NO_SLEEP \<Rightarrow> (False, b))"

text \<open>
  After n bytes were stored at the write position: the overlap copy of count bytes, the new
  position, and what happens at the end of the ring.
\<close>

definition take_over :: "sbuf \<Rightarrow> int \<Rightarrow> int \<Rightarrow> sbuf option" where
  "take_over b n count = do {
     d \<leftarrow> copy_to_overlap b (sb_data b) count;
     let b = b\<lparr>sb_data := d, buf_write_pos := buf_write_pos b + n, buf_write := buf_write b + n\<rparr>;
     b \<leftarrow> (if buf_write b = buffer_size b then
            if flag_no_wrap b then do {
              d \<leftarrow> wr_blk (sb_data b) (buffer_size b) (replicate (nat (overlap_size b)) 0);
              Some (b\<lparr>sb_data := d, buf_end := True\<rparr>) }
            else Some (b\<lparr>buf_wrap := True, buf_write := 0\<rparr>)
          else Some b);
     Some (tail_follows b) }"

section \<open>The blocking variant\<close>

text \<open>The loop that asks for fewer clusters until the input can deliver them.\<close>

fun shrink_read :: "'w io_ops \<Rightarrow> int \<Rightarrow> sbuf \<Rightarrow> 'w \<Rightarrow> nat \<Rightarrow> nat \<times> int \<times> 'w" where
  "shrink_read io C b w 0 = (0, min 0 (data_end b - buf_write_pos b), w)"
| "shrink_read io C b w (Suc k) = (let
     to_read = min (int (Suc k) * C) (data_end b - buf_write_pos b);
     (yes, w) = io_can_read io w (buf_write_pos b) to_read
     in if yes then (Suc k, to_read, w) else shrink_read io C b w k)"

text \<open>
  What to do before the input is read: nothing, or read the given clusters and bytes.
\<close>

definition blocked_plan :: "'w io_ops \<Rightarrow> strm \<Rightarrow> sbuf \<Rightarrow> 'w \<Rightarrow> int \<Rightarrow> (sbuf \<times> 'w \<times> (nat \<times> int) option) option" where
  "blocked_plan io s b w sleep = (let b = note_end b; C = stream_buffer_chunk s in
     if buf_end b then Some (end_sleep io b w sleep, w, None)
     else do {
       fc \<leftarrow> cdiv (stream_buffer_get_free b) C;
       (if fc - 1 \<le> 0 then Some (b, w, None)
        else let (read_now, b) = drive_step s b (io_sleepable io w) sleep (fc - 1) MIN_FREE_VIDEO in
          if \<not> read_now then Some (b, w, None)
          else do {
            pad \<leftarrow> pad_to_buffer_chunk s (data_end b - buf_write_pos b);
            rest_cls \<leftarrow> cdiv pad C;
            room \<leftarrow> cdiv (buffer_size b - buf_write b) C;
            let (num_cls, to_read, w) = shrink_read io C b w (nat (min (min (min (fc - 1) room) rest_cls) MAX_READ_CLUSTER));
            Some (b, w, if num_cls = 0 then None else Some (num_cls, to_read)) }) })"

text \<open>Seek, read and the handling of errors: the result of the method, or what was read.\<close>

definition store_read :: "'w io_ops \<Rightarrow> strm \<Rightarrow> sbuf \<Rightarrow> 'w \<Rightarrow> int \<Rightarrow> ((int \<times> strm \<times> sbuf \<times> 'w) + (int \<times> sbuf \<times> 'w)) option" where
  "store_read io s b w to_read = do {
     (ret, bytes, w) \<leftarrow> io_read io (io_seek io w (buf_write_pos b)) to_read;
     d \<leftarrow> wr_blk (sb_data b) (buf_write b) bytes;
     let b = b\<lparr>sb_data := d\<rparr>;
     (if ret < 0 then
        if - ret = STREAM_BUFFER_ABORT_FINAL
        then Some (Inl (1, stream_set_error s VE_FILE_ERROR, b\<lparr>buf_end := True\<rparr>, w))
        else Some (Inl (1, s, b, w))
      else Some (Inr (ret, b, w))) }"

definition buffer_blocked :: "'w io_ops \<Rightarrow> 'w buffer_method" where
  "buffer_blocked io s b w sleep = do {
     (b, w, plan) \<leftarrow> blocked_plan io s b w sleep;
     (case plan of None \<Rightarrow> Some (1, s, b, w)
      | Some (num_cls, to_read) \<Rightarrow> do {
          rr \<leftarrow> store_read io s b w to_read;
          (case rr of Inl res \<Rightarrow> Some res
           | Inr (ret, b, w) \<Rightarrow> do {
               b \<leftarrow> take_over (if ret \<noteq> to_read then b\<lparr>buf_end := True\<rparr> else b) ret (int num_cls * stream_buffer_chunk s);
               Some (0, s, b\<lparr>buf_write_cls := buf_write_cls b + int num_cls\<rparr>, w) }) }) }"

section \<open>The non-blocking variant\<close>

definition non_blocked_plan :: "'w io_ops \<Rightarrow> strm \<Rightarrow> sbuf \<Rightarrow> 'w \<Rightarrow> int \<Rightarrow> sbuf \<times> 'w \<times> int option" where
  "non_blocked_plan io s b w sleep = (let b = note_end b; C = stream_buffer_chunk s in
     if buf_end b then (end_sleep io b w sleep, w, None)
     else let free = stream_buffer_get_free b - C in
       if free \<le> 0 then (b, w, None)
       else let (read_now, b) = drive_step s b (io_sleepable io w) sleep free C in
         if \<not> read_now then (b, w, None)
         else let
           to_read = min (min (min free C) (buffer_size b - buf_write b)) (data_end b - buf_write_pos b);
           (yes, w) = io_can_read io w (buf_write_pos b) to_read
           in (b, w, if \<not> yes \<or> to_read = 0 then None else Some to_read))"

definition buffer_non_blocked :: "'w io_ops \<Rightarrow> 'w buffer_method" where
  "buffer_non_blocked io s b w sleep =
     (case non_blocked_plan io s b w sleep of
        (b, w, None) \<Rightarrow> Some (1, s, b, w)
      | (b, w, Some to_read) \<Rightarrow> do {
          rr \<leftarrow> store_read io s b w to_read;
          (case rr of Inl res \<Rightarrow> Some res
           | Inr (ret, b, w) \<Rightarrow> do {
               b \<leftarrow> take_over b ret ret;
               Some (0, s, (if buf_write_pos b \<ge> io_size io w then b\<lparr>buf_end := True\<rparr> else b), w) }) })"

section \<open>Moving the position\<close>

text \<open>The loop that reads until there is enough to parse; it may not end.\<close>

partial_function (option) read_some :: "'w buffer_method \<Rightarrow> strm \<Rightarrow> sbuf \<Rightarrow> 'w \<Rightarrow> (strm \<times> sbuf \<times> 'w) option" where
  "read_some buf s b w = (if buf_end b then Some (s, b, w)
     else do {
       (r, s, b, w) \<leftarrow> buf s b w 2;
       (if r \<noteq> 0 \<or> stream_buffer_get_head b > parser_mindata_size s \<or> buf_write b \<ge> overlap_size b
        then Some (s, b, w)
        else read_some buf s b w) })"

text \<open>The buffer starts again at a position.\<close>

definition restart_at :: "sbuf \<Rightarrow> int \<Rightarrow> sbuf" where
  "restart_at b pos = (stream_buffer_free_all_data (b\<lparr>buf_write_pos := pos, buf_file_pos := pos,
     buf_write := 0, buf_scan := 0, buf_scan_pos := pos, buf_wrap := False, buf_tail := 0,
     buf_end := False\<rparr>) 0 0)\<lparr>drive := BUFFER_RDWR, state_changed := True\<rparr>"

text \<open>The cluster number is a UINT.\<close>

definition restart_blocked :: "'w buffer_method \<Rightarrow> strm \<Rightarrow> sbuf \<Rightarrow> 'w \<Rightarrow> int \<Rightarrow> (int \<times> strm \<times> sbuf \<times> 'w) option" where
  "restart_blocked buf s b w pos = do {
     q \<leftarrow> cdiv pos (stream_buffer_chunk s);
     let new_cls = uw32 q;
     let new_pos = new_cls * stream_buffer_chunk s;
     (s, b, w) \<leftarrow> read_some buf s (restart_at (b\<lparr>buf_write_cls := i32 new_cls\<rparr>) new_pos) w;
     Some (new_pos, s, b, w) }"

definition restart_non_blocked :: "'w buffer_method \<Rightarrow> strm \<Rightarrow> sbuf \<Rightarrow> 'w \<Rightarrow> int \<Rightarrow> (int \<times> strm \<times> sbuf \<times> 'w) option" where
  "restart_non_blocked buf s b w pos = do {
     (s, b, w) \<leftarrow> read_some buf s (restart_at b pos) w;
     Some (pos, s, b, w) }"

partial_function (option) rewind_scan :: "int \<Rightarrow> int \<Rightarrow> int option" where
  "rewind_scan scan n = (if scan < 0 then rewind_scan (i32 (scan + n)) n else Some scan)"

definition rewind_buf_pos :: "sbuf \<Rightarrow> int \<Rightarrow> sbuf option" where
  "rewind_buf_pos b offset = do {
     scan \<leftarrow> rewind_scan (buf_scan b - offset) (buffer_size b);
     Some (b\<lparr>buf_scan := scan\<rparr>) }"

text \<open>Moving inside the buffer: whether it has to be loaded again, and the moved buffer.\<close>

definition move_in_buffer :: "sbuf \<Rightarrow> int \<Rightarrow> (bool \<times> sbuf) option" where
  "move_in_buffer b pos = (let offset = pos - stream_buffer_get_pos b in
     if offset = 0 then Some (False, b)
     else if offset > 0 then
       (let used = max 0 (stream_buffer_get_head b - overlap_size b) in
        if offset > used \<and> \<not> buf_end b then Some (True, b)
        else do {
          b \<leftarrow> stream_buffer_skip_buf_pos (stream_buffer_skip_pos b offset) offset;
          Some (False, b) })
     else if - offset > stream_buffer_get_tail b then Some (True, b)
     else do {
       b \<leftarrow> rewind_buf_pos (b\<lparr>buf_scan_pos := buf_scan_pos b + offset\<rparr>) (- offset);
       Some (False, b) })"

text \<open>resize is 0 or the new size, m the memory the allocator returns for it.\<close>

definition set_pos ::
  "('w buffer_method \<Rightarrow> strm \<Rightarrow> sbuf \<Rightarrow> 'w \<Rightarrow> int \<Rightarrow> (int \<times> strm \<times> sbuf \<times> 'w) option) \<Rightarrow> 'w buffer_method
   \<Rightarrow> strm \<Rightarrow> sbuf \<Rightarrow> 'w \<Rightarrow> int \<Rightarrow> bool \<Rightarrow> int \<Rightarrow> u8 list option \<Rightarrow> (int \<times> strm \<times> sbuf \<times> 'w) option" where
  "set_pos restart buf s b w pos force resize m =
     (let (err, b) = (if resize \<noteq> 0 then stream_buffer_resize b resize m else (0, b));
          force = (force \<or> resize \<noteq> 0)
      in if err \<noteq> 0 then Some (1, s, b, w)
      else do {
        (reload, b) \<leftarrow> (if force then Some (False, b) else move_in_buffer b pos);
        let b = stream_buffer_free_all_data b 0 0;
        (if \<not> (reload \<or> force) then Some (0, s, b, w)
         else do {
           (new_pos, s, b, w) \<leftarrow> restart buf s (stream_buffer_free_all_data b 0 0) w pos;
           (_, s, b, w) \<leftarrow> buf s (b\<lparr>buf_scan_pos := new_pos\<rparr>) w 0;
           let s = (if pos < buf_scan_pos b then s\<lparr>s_error := True\<rparr> else s);
           (if (pos - buf_scan_pos b) mod 2 ^ 64 > stream_buffer_get_head b then Some (1, s, b, w)
            else do {
              (_, b) \<leftarrow> stream_buffer_skip b (pos - buf_scan_pos b);
              Some (0, s, b, w) }) }) })"

definition set_pos_blocked :: "'w io_ops \<Rightarrow> strm \<Rightarrow> sbuf \<Rightarrow> 'w \<Rightarrow> int \<Rightarrow> bool \<Rightarrow> int \<Rightarrow> u8 list option \<Rightarrow> (int \<times> strm \<times> sbuf \<times> 'w) option" where
  "set_pos_blocked io = set_pos restart_blocked (buffer_blocked io)"

definition set_pos_non_blocked :: "'w io_ops \<Rightarrow> strm \<Rightarrow> sbuf \<Rightarrow> 'w \<Rightarrow> int \<Rightarrow> bool \<Rightarrow> int \<Rightarrow> u8 list option \<Rightarrow> (int \<times> strm \<times> sbuf \<times> 'w) option" where
  "set_pos_non_blocked io = set_pos restart_non_blocked (buffer_non_blocked io)"

text \<open>The entry points of stream_buffer.c, for a buffer whose set_pos method is sp.\<close>

type_synonym 'w set_pos_method = "strm \<Rightarrow> sbuf \<Rightarrow> 'w \<Rightarrow> int \<Rightarrow> bool \<Rightarrow> int \<Rightarrow> u8 list option \<Rightarrow> (int \<times> strm \<times> sbuf \<times> 'w) option"

definition stream_buffer_set_pos :: "'w set_pos_method \<Rightarrow> strm \<Rightarrow> sbuf \<Rightarrow> 'w \<Rightarrow> int \<Rightarrow> bool \<Rightarrow> (int \<times> strm \<times> sbuf \<times> 'w) option" where
  "stream_buffer_set_pos sp s b w pos force = sp s b w pos force 0 None"

definition stream_buffer_set_pos_seek :: "'w set_pos_method \<Rightarrow> strm \<Rightarrow> sbuf \<Rightarrow> 'w \<Rightarrow> int \<Rightarrow> bool \<Rightarrow> (int \<times> strm \<times> sbuf \<times> 'w) option" where
  "stream_buffer_set_pos_seek sp s b w pos force = do {
     (r, s, b, w) \<leftarrow> sp s b w pos force 0 None;
     (if r \<noteq> 0 then Some (1, s, b, w)
      else Some (0, s, stream_buffer_free_all_data b (buf_scan_pos b) (buf_scan b), w)) }"

definition stream_buffer_resize_and_rebuffer :: "'w set_pos_method \<Rightarrow> strm \<Rightarrow> sbuf \<Rightarrow> 'w \<Rightarrow> int \<Rightarrow> u8 list option \<Rightarrow> (int \<times> strm \<times> sbuf \<times> 'w) option" where
  "stream_buffer_resize_and_rebuffer sp s b w n m = sp s b w (buf_scan_pos b) True n m"

section \<open>One step of filling\<close>

text \<open>Buffers that differ in nothing the window depends on.\<close>

definition sb_core :: "sbuf \<Rightarrow> sbuf" where
  "sb_core b = b\<lparr>buf_end := False, drive := BUFFER_RDWR, state_changed := False, buf_write_cls := 0\<rparr>"

definition sb_same :: "sbuf \<Rightarrow> sbuf \<Rightarrow> bool" where
  "sb_same b b' \<longleftrightarrow> sb_core b' = sb_core b"

lemma sb_same_refl [intro, simp]: "sb_same b b"
  by (simp add: sb_same_def)

lemma sb_same_trans: "sb_same a b \<Longrightarrow> sb_same b c \<Longrightarrow> sb_same a c"
  by (simp add: sb_same_def)

lemma sb_same_upd [simp]:
  "sb_same a (b\<lparr>buf_end := e\<rparr>) = sb_same a b" "sb_same a (b\<lparr>buf_write_cls := k\<rparr>) = sb_same a b"
  "sb_same a (stream_buffer_state_set b d) = sb_same a b"
  by (simp_all add: sb_same_def sb_core_def stream_buffer_state_set_def)

lemma sb_core_fields:
  "sb_data (sb_core b) = sb_data b" "buffer_size (sb_core b) = buffer_size b" "overlap_size (sb_core b) = overlap_size b"
  "buf_write (sb_core b) = buf_write b" "buf_write_pos (sb_core b) = buf_write_pos b" "buf_scan (sb_core b) = buf_scan b"
  "buf_scan_pos (sb_core b) = buf_scan_pos b" "buf_read (sb_core b) = buf_read b" "buf_wrap (sb_core b) = buf_wrap b"
  "buf_tail (sb_core b) = buf_tail b" "data_end (sb_core b) = data_end b" "flag_no_wrap (sb_core b) = flag_no_wrap b"
  by (simp_all add: sb_core_def)

lemma sb_same_fields:
  assumes "sb_same b b'"
  shows "sb_data b' = sb_data b" "buffer_size b' = buffer_size b" "overlap_size b' = overlap_size b"
    "buf_write b' = buf_write b" "buf_write_pos b' = buf_write_pos b" "buf_scan b' = buf_scan b"
    "buf_scan_pos b' = buf_scan_pos b" "buf_read b' = buf_read b" "buf_wrap b' = buf_wrap b" "buf_tail b' = buf_tail b"
    "data_end b' = data_end b" "flag_no_wrap b' = flag_no_wrap b"
  by (metis assms sb_same_def sb_core_fields)+

lemma sb_same_data: "sb_same b b' \<Longrightarrow> sb_same (b\<lparr>sb_data := d\<rparr>) (b'\<lparr>sb_data := d\<rparr>)"
proof -
  have "sb_core (a\<lparr>sb_data := d\<rparr>) = (sb_core a)\<lparr>sb_data := d\<rparr>" for a
    by (rule sbuf.equality) (simp_all add: sb_core_def)
  then show "sb_same b b' \<Longrightarrow> sb_same (b\<lparr>sb_data := d\<rparr>) (b'\<lparr>sb_data := d\<rparr>)" by (simp add: sb_same_def)
qed

lemma sb_same_advanced: "sb_same b b' \<Longrightarrow> sb_same (sb_advanced b n d) (sb_advanced b' n d)"
proof -
  have "sb_core (sb_advanced a n d) = sb_advanced (sb_core a) n d" for a
    by (rule sbuf.equality) (simp_all add: sb_core_def sb_advanced_def tail_follows_def)
  then show "sb_same b b' \<Longrightarrow> sb_same (sb_advanced b n d) (sb_advanced b' n d)" by (simp add: sb_same_def)
qed

lemma sb_same_keeps:
  assumes "sb_same b b'"
  shows "sb_from b' f lo = sb_from b f lo" "sb_ok b' f = sb_ok b f" "sb_guard b' = sb_guard b" "sb_shape b' = sb_shape b"
    "stream_buffer_get_free b' = stream_buffer_get_free b" "stream_buffer_get_head b' = stream_buffer_get_head b"
    "oldest_after b' n = oldest_after b n" "sb_oldest b' = sb_oldest b"
  using sb_same_fields [OF assms]
  by (simp_all add: sb_from_def sb_ok_def sb_shape_def sb_scan_ok_def sb_window_def sb_guard_def sb_oldest_def sb_base_def
      stream_buffer_get_used_def stream_buffer_get_free_def stream_buffer_get_head_def oldest_after_def Let_def)

text \<open>What stays as it was opened.\<close>

definition sb_flags :: "sbuf \<Rightarrow> bool \<times> bool \<times> bool \<times> int \<times> int \<times> int" where
  "sb_flags b = (b_audio b, b_video b, b_subtitle b, data_end b, buffer_size b, overlap_size b)"

lemma sb_same_flags: "sb_same b b' \<Longrightarrow> sb_flags b' = sb_flags b"
proof -
  have "sb_flags (sb_core a) = sb_flags a" for a by (simp add: sb_flags_def sb_core_def)
  then show "sb_same b b' \<Longrightarrow> sb_flags b' = sb_flags b" by (metis sb_same_def)
qed

lemma sb_flags_upd [simp]: "sb_flags (b\<lparr>sb_data := d\<rparr>) = sb_flags b" "sb_flags (sb_advanced b n d) = sb_flags b"
    "sb_flags (b\<lparr>buf_write_cls := i\<rparr>) = sb_flags b"
  by (simp_all add: sb_flags_def sb_advanced_def tail_follows_def)

lemma sb_same_used: "sb_same b b' \<Longrightarrow> stream_buffer_get_used b' = stream_buffer_get_used b"
  using sb_same_fields by (simp add: stream_buffer_get_used_def Let_def)

text \<open>
  The contract of a buffer method that fills from the stream f: it does nothing, or it stored
  bytes behind the write position without taking them over (a failed read), or it takes over
  n more bytes of f.
\<close>

inductive fill_step :: "(int \<Rightarrow> u8) \<Rightarrow> sbuf \<Rightarrow> int \<Rightarrow> sbuf \<Rightarrow> bool" for f b where
  idle: "sb_same b b' \<Longrightarrow> fill_step f b 1 b'"
| failed: "int (length xs) < stream_buffer_get_free b \<Longrightarrow> buf_write b + int (length xs) \<le> buffer_size b \<Longrightarrow>
    wr_blk (sb_data b) (buf_write b) xs = Some d \<Longrightarrow> sb_same (b\<lparr>sb_data := d\<rparr>) b' \<Longrightarrow> fill_step f b 1 b'"
| filled: "0 \<le> n \<Longrightarrow> n < stream_buffer_get_free b \<Longrightarrow> length d = length (sb_data b) \<Longrightarrow>
    (\<And>lo. live (sb_data b) (buffer_size b) (overlap_size b) (sb_base b) f lo (buf_write_pos b) \<Longrightarrow>
      buf_write_pos b + n - lo \<le> buffer_size b \<Longrightarrow>
      live d (buffer_size b) (overlap_size b) (sb_base b) f lo (buf_write_pos b + n)) \<Longrightarrow>
    sb_same (sb_advanced b n d) b' \<Longrightarrow> fill_step f b 0 b'"

inductive_cases fill_idleE: "fill_step f b 1 b'"
inductive_cases fill_readE: "fill_step f b 0 b'"

text \<open>What the parser relies on.\<close>

definition sb_safe :: "sbuf \<Rightarrow> (int \<Rightarrow> u8) \<Rightarrow> bool" where
  "sb_safe b f \<longleftrightarrow> sb_from b f (buf_scan_pos b) \<and> sb_guard b"

lemma sb_ok_safe: "sb_ok b f \<Longrightarrow> sb_guard b \<Longrightarrow> sb_safe b f"
  unfolding sb_safe_def sb_ok_from by (metis sb_from_def sb_from_later order_refl)

lemma fill_step_scan: "fill_step f b r b' \<Longrightarrow> buf_scan_pos b' = buf_scan_pos b \<and> buffer_size b' = buffer_size b
    \<and> overlap_size b' = overlap_size b \<and> buf_write_pos b \<le> buf_write_pos b' \<and> sb_flags b' = sb_flags b"
  by (erule fill_step.cases) (use sb_same_fields sb_same_flags in force)+

lemma sb_same_fill_step:
  assumes "sb_same b0 b" "fill_step f b r b'"
  shows "fill_step f b0 r b'"
  using assms(2)
proof cases
  case idle
  then show ?thesis using sb_same_trans [OF assms(1)] fill_step.idle by blast
next
  case (failed xs d)
  have "sb_same (b0\<lparr>sb_data := d\<rparr>) (b\<lparr>sb_data := d\<rparr>)"
    by (rule sb_same_data [OF assms(1)])
  then show ?thesis
    using failed sb_same_trans sb_same_fields [OF assms(1)] sb_same_keeps(5) [OF assms(1)]
    by (auto intro!: fill_step.failed)
next
  case (filled n d)
  have s: "sb_same (sb_advanced b0 n d) (sb_advanced b n d)"
    by (rule sb_same_advanced [OF assms(1)])
  have base: "sb_base b = sb_base b0" using sb_same_fields [OF assms(1)] by (simp add: sb_base_def)
  show ?thesis unfolding filled(1)
    by (rule fill_step.filled [of n b0 d f b', OF filled(2)])
      (use filled(3-6) s sb_same_trans [OF s] in \<open>auto simp: sb_same_fields [OF assms(1)] sb_same_keeps [OF assms(1)] base\<close>)
qed

text \<open>Every step keeps the stream from a position on that was not released; a step that reads keeps the whole window.\<close>

lemma fill_step_from:
  assumes step: "fill_step f b r b'" and fr: "sb_from b f lo" and g: "buf_write_pos b - lo \<le> stream_buffer_get_used b"
  shows "sb_from b' f lo \<and> buf_write_pos b' - lo \<le> stream_buffer_get_used b'"
proof -
  have sh: "sb_shape b" and sc: "sb_scan_ok b" and lo: "sb_oldest b \<le> lo" "lo \<le> buf_scan_pos b"
    and win: "live (sb_data b) (buffer_size b) (overlap_size b) (sb_base b) f lo (buf_write_pos b)"
    using fr by (auto simp: sb_from_def)
  have sg: "sb_guard b" using g lo by (simp add: sb_guard_def)
  from step show ?thesis
  proof cases
    case idle
    have "stream_buffer_get_used b' = stream_buffer_get_used b" by (rule sb_same_used [OF idle(2)])
    then show ?thesis using fr g sb_same_fields(5) [OF idle(2)] by (simp add: sb_same_keeps [OF idle(2)])
  next
    case (failed xs d)
    have w: "0 \<le> buf_write b" "buf_write b < buffer_size b" "0 < buffer_size b" "0 \<le> overlap_size b" "overlap_size b \<le> buffer_size b"
      "int (length (sb_data b)) = buffer_size b + overlap_size b"
      using sh by (auto simp: sb_shape_def)
    have d: "d = put_at (sb_data b) (nat (buf_write b)) xs"
      using failed(4) by (auto simp: wr_blk_def split: if_splits)
    have room: "buf_write_pos b - lo + int (length xs) < buffer_size b"
      using g failed(2) sb_free_used [OF sh] by simp
    have "live d (buffer_size b) (overlap_size b) (sb_base b) f lo (buf_write_pos b)"
      unfolding live_def
    proof (intro allI impI)
      fix p assume p: "lo \<le> p \<and> p < buf_write_pos b"
      define k where "k = buf_write_pos b - p"
      have k: "0 < k" "k + int (length xs) < buffer_size b" "buf_write_pos b - k = p" using p room by (auto simp: k_def)
      define c where "c = (p - sb_base b) mod buffer_size b"
      have c: "c = (if k \<le> buf_write b then buf_write b - k else buf_write b - k + buffer_size b)"
        using mod_back [OF sb_write_cell [OF sh] w(3) k(1)] k by (simp add: c_def)
      then have cr: "0 \<le> c" "c < buffer_size b" "\<not> (buf_write b \<le> c \<and> c < buf_write b + int (length xs))"
        using k w by (auto split: if_splits)
      have o: "sb_data b ! nat c = f p" "c < overlap_size b \<longrightarrow> sb_data b ! nat (buffer_size b + c) = f p"
        using win p by (auto simp: live_def c_def)
      have l: "nat (buf_write b) + length xs \<le> length (sb_data b)" "nat c < length (sb_data b)"
        using w failed(3) cr by linarith+
      have n1: "d ! nat c = sb_data b ! nat c"
        unfolding d using nth_put_at [OF l] cr(1,3) w(1) by auto
      moreover have "d ! nat (buffer_size b + c) = sb_data b ! nat (buffer_size b + c)" if "c < overlap_size b"
      proof -
        have "nat (buffer_size b + c) < length (sb_data b)" "\<not> nat (buffer_size b + c) < nat (buf_write b) + length xs"
          using that w failed(3) cr by linarith+
        then show ?thesis unfolding d using nth_put_at [OF l(1)] by auto
      qed
      ultimately show "d ! nat ((p - sb_base b) mod buffer_size b) = f p \<and> ((p - sb_base b) mod buffer_size b < overlap_size b
          \<longrightarrow> d ! nat (buffer_size b + (p - sb_base b) mod buffer_size b) = f p)"
        using o by (simp add: c_def [symmetric])
    qed
    moreover have "length d = length (sb_data b)" using failed(4) by (rule wr_blk_length)
    ultimately have "sb_from (b\<lparr>sb_data := d\<rparr>) f lo"
      using fr by (simp add: sb_from_def sb_shape_def sb_scan_ok_def sb_oldest_def sb_base_def split: if_splits)
    moreover have "stream_buffer_get_used b' = stream_buffer_get_used b" using sb_same_used [OF failed(5)] by (simp add: stream_buffer_get_used_def Let_def)
    ultimately show ?thesis using g sb_same_fields(5) [OF failed(5)] by (simp add: sb_same_keeps [OF failed(5)])
  next
    case (filled n d)
    have oa: "oldest_after b n \<le> lo"
      using lo(1) g filled(3) sb_free_used [OF sh] by (auto simp: oldest_after_def)
    then have mx: "max lo (oldest_after b n) = lo" by simp
    have "buf_write_pos b + n - lo \<le> buffer_size b" using g filled(3) sb_free_used [OF sh] by simp
    then have "live d (buffer_size b) (overlap_size b) (sb_base b) f lo (buf_write_pos b + n)"
      by (rule filled(5) [OF win])
    then have "sb_from (sb_advanced b n d) f lo"
      using sb_advanced_from(1) [OF fr sg filled(2,3,4)] by (simp add: mx)
    moreover have "stream_buffer_get_used b' = stream_buffer_get_used b + n"
      using sb_advanced_used [OF sh filled(2,3), of d] sb_same_used [OF filled(6)] by simp
    ultimately show ?thesis using g sb_same_fields(5) [OF filled(6)] by (simp add: sb_same_keeps [OF filled(6)])
  qed
qed

lemma fill_step_safe: "fill_step f b r b' \<Longrightarrow> sb_safe b f \<Longrightarrow> sb_safe b' f"
  using fill_step_from [of f b r b' "buf_scan_pos b"] fill_step_scan [of f b r b']
  by (auto simp: sb_safe_def sb_guard_def)

lemma fill_step_ok:
  assumes step: "fill_step f b 0 b'" and ok: "sb_ok b f" and g: "sb_guard b"
  shows "sb_ok b' f \<and> sb_guard b'"
  using step
proof (rule fill_readE)
  fix n d assume a: "0 \<le> n" "n < stream_buffer_get_free b" "length d = length (sb_data b)" "sb_same (sb_advanced b n d) b'"
    "\<And>lo. live (sb_data b) (buffer_size b) (overlap_size b) (sb_base b) f lo (buf_write_pos b) \<Longrightarrow>
      buf_write_pos b + n - lo \<le> buffer_size b \<Longrightarrow>
      live d (buffer_size b) (overlap_size b) (sb_base b) f lo (buf_write_pos b + n)"
  have "live d (buffer_size b) (overlap_size b) (sb_base b) f (oldest_after b n) (buf_write_pos b + n)"
    using a(5) [OF sb_window_oldest_after [OF ok a(1)]] oldest_after_bounds(2) [of b n] ok a(1) by (simp add: sb_ok_def)
  then show ?thesis using sb_advanced_ok [OF ok g a(1-3)] by (simp add: sb_same_keeps [OF a(4)])
qed

text \<open>Taking over what the input stored.\<close>

lemma take_over_step:
  assumes sh: "sb_shape b" "\<not> flag_no_wrap b"
    and n: "int (length xs) < stream_buffer_get_free b" "buf_write b + int (length xs) \<le> buffer_size b" "int (length xs) \<le> count"
    and d: "wr_blk (sb_data b) (buf_write b) xs = Some d"
    and xs: "\<And>i. i < length xs \<Longrightarrow> xs ! i = f (buf_write_pos b + int i)"
  shows "\<exists>d'. take_over (b\<lparr>sb_data := d\<rparr>) (int (length xs)) count = Some (sb_advanced b (int (length xs)) d')
    \<and> length d' = length (sb_data b)
    \<and> (\<forall>lo. live (sb_data b) (buffer_size b) (overlap_size b) (sb_base b) f lo (buf_write_pos b) \<longrightarrow>
      buf_write_pos b + int (length xs) - lo \<le> buffer_size b \<longrightarrow>
      live d' (buffer_size b) (overlap_size b) (sb_base b) f lo (buf_write_pos b + int (length xs)))"
proof -
  let ?n = "int (length xs)" and ?N = "buffer_size b" and ?ov = "overlap_size b" and ?w = "buf_write b"
  have s: "0 < ?N" "0 \<le> ?ov" "?ov \<le> ?N" "int (length (sb_data b)) = ?N + ?ov" "0 \<le> ?w" "?w < ?N"
    using sh(1) by (auto simp: sb_shape_def)
  have d1: "d = put_at (sb_data b) (nat ?w) xs" "length d = length (sb_data b)"
    using d wr_blk_length [OF d] by (auto simp: wr_blk_def split: if_splits)
  define d' where "d' = (if ?w < ?ov then put_at d (nat (?N + ?w)) (take (nat (min count (?ov - ?w))) (drop (nat ?w) d)) else d)"
  have "copy_to_overlap (b\<lparr>sb_data := d\<rparr>) d count = Some d'"
    using s d1(2) n(3) by (auto simp: copy_to_overlap_def d'_def rd_blk_def wr_blk_def)
  then have "take_over (b\<lparr>sb_data := d\<rparr>) ?n count = Some (sb_advanced b ?n d')"
    using sh(2) n(2) s(6) by (auto simp: take_over_def sb_advanced_def tail_follows_def Let_def)
  moreover have "length d' = length (sb_data b)" using s d1(2) by (auto simp: d'_def)
  moreover have "live d' ?N ?ov (sb_base b) f lo (buf_write_pos b + ?n)"
    if "live (sb_data b) ?N ?ov (sb_base b) f lo (buf_write_pos b)" "buf_write_pos b + ?n - lo \<le> ?N" for lo
    using live_store_mirror [OF s(1-4) sb_write_cell [OF sh(1)] n(2,3) that(2,1) xs] unfolding d'_def d1(1) by simp
  ultimately show ?thesis by blast
qed

lemma note_end_same [simp]: "sb_same b (note_end b)"
  by (simp add: note_end_def)

lemma end_sleep_same [simp]: "sb_same a (end_sleep io b w sl) = sb_same a b"
  by (simp add: end_sleep_def)

lemma drive_step_same: "drive_step s b v sl fr mn = (yes, b') \<Longrightarrow> sb_same b b' \<and> buf_end b' = buf_end b \<and> (yes \<longrightarrow> b' = b)"
  by (auto simp: drive_step_def stream_buffer_state_set_def [symmetric] split: drive_state.splits if_splits)
    (simp_all add: stream_buffer_state_set_def)

section \<open>Moving the position\<close>

lemma rewind_scan_mod:
  assumes "0 < n" "n < 2 ^ 31" "- n \<le> x" "x < n"
  shows "rewind_scan x n = Some (x mod n)"
proof (cases "x < 0")
  case True
  have "i32 (x + n) = x + n" using assms True by (intro i32_id) auto
  moreover have "(x + n) mod n = x + n" using assms True by (intro mod_pos_pos_trivial) auto
  then have "x mod n = x + n" by simp
  ultimately show ?thesis using assms True by (subst rewind_scan.simps) (simp add: rewind_scan.simps)
next
  case False
  then show ?thesis using assms by (subst rewind_scan.simps) simp
qed

lemma sb_free_all_fields:
  "stream_buffer_free_all_data b p c = b\<lparr>vid_last_pos := p, vid_last_buf := c, aud_last_pos := p, aud_last_buf := c,
     sub_last_pos := p, sub_last_buf := c, buf_read := buf_read (stream_buffer_free_all_data b p c)\<rparr>"
  unfolding stream_buffer_free_all_data_def by (subst free_data_fields) simp

lemma sb_free_all_simps [simp]:
  "buf_scan (stream_buffer_free_all_data b p c) = buf_scan b" "buf_scan_pos (stream_buffer_free_all_data b p c) = buf_scan_pos b"
  "buf_write (stream_buffer_free_all_data b p c) = buf_write b" "buf_write_pos (stream_buffer_free_all_data b p c) = buf_write_pos b"
  "buffer_size (stream_buffer_free_all_data b p c) = buffer_size b" "buf_wrap (stream_buffer_free_all_data b p c) = buf_wrap b"
  "b_video (stream_buffer_free_all_data b p c) = b_video b" "b_audio (stream_buffer_free_all_data b p c) = b_audio b"
  "b_subtitle (stream_buffer_free_all_data b p c) = b_subtitle b" "sb_oldest (stream_buffer_free_all_data b p c) = sb_oldest b"
  by (subst sb_free_all_fields, simp add: sb_oldest_def)+

lemma sb_free_all_read:
  "b_video b \<or> b_audio b \<or> b_subtitle b \<Longrightarrow> p < 2 ^ 64 - 1 \<Longrightarrow> buf_read (stream_buffer_free_all_data b p c) = c"
  by (auto simp: stream_buffer_free_all_data_def free_data_def Let_def)

lemma sb_from_free_all:
  assumes "sb_from b f lo" "b_video b \<or> b_audio b \<or> b_subtitle b" "p < 2 ^ 64 - 1" "0 \<le> c" "c \<le> buffer_size b"
  shows "sb_from (stream_buffer_free_all_data b p c) f lo"
  using assms(1,4,5) sb_free_all_read [OF assms(2,3), of c]
  by (subst sb_free_all_fields) (auto simp: sb_from_def sb_shape_def sb_scan_ok_def sb_oldest_def sb_base_def)

text \<open>Inside the buffer: forward up to what was read, back to less than a whole ring.\<close>

lemma move_in_buffer_ok:
  assumes ok: "sb_ok b f"
    and fwd: "pos \<le> buf_write_pos b" "pos \<le> buf_scan_pos b + max 0 (stream_buffer_get_head b - overlap_size b) \<or> buf_end b"
    and bwd: "buf_scan_pos b - stream_buffer_get_tail b \<le> pos" "buf_write_pos b - pos < buffer_size b"
  shows "\<exists>b'. move_in_buffer b pos = Some (False, b') \<and> sb_ok b' f \<and> buf_scan_pos b' = pos
    \<and> b' = b\<lparr>buf_scan := buf_scan b', buf_scan_pos := pos\<rparr>"
proof -
  have sh: "sb_shape b" and sc: "sb_scan_ok b" using ok by (auto simp: sb_ok_def)
  consider "pos = buf_scan_pos b" | "pos > buf_scan_pos b" | "pos < buf_scan_pos b" by linarith
  then show ?thesis
  proof cases
    case 1
    then show ?thesis using ok by (simp add: move_in_buffer_def stream_buffer_get_pos_def)
  next
    case 2
    define k where "k = pos - buf_scan_pos b"
    have k: "0 < k" "pos = buf_scan_pos b + k" using 2 by (simp_all add: k_def)
    obtain b' where b': "stream_buffer_skip b k = Some (buf_scan_pos b + k, b')" "sb_ok b' f"
      "b' = b\<lparr>buf_scan := buf_scan b', buf_scan_pos := buf_scan_pos b + k\<rparr>"
      using stream_buffer_skip_ok [OF ok, of k] k fwd(1) by auto
    obtain n where n: "wrap_scan (buf_scan b + k) (buffer_size b) = Some n" "b' = b\<lparr>buf_scan := n, buf_scan_pos := buf_scan_pos b + k\<rparr>"
      using b'(1) by (auto simp: stream_buffer_skip_def stream_buffer_skip_buf_pos_def stream_buffer_skip_pos_def bind_eq_Some_iff)
    have "move_in_buffer b pos = Some (False, b')"
      using k fwd(2) n by (auto simp: move_in_buffer_def stream_buffer_get_pos_def stream_buffer_skip_buf_pos_def
          stream_buffer_skip_pos_def Let_def)
    moreover have "buf_scan_pos b' = pos" using k by (simp add: n)
    ultimately show ?thesis using b' k by auto
  next
    case 3
    define k where "k = buf_scan_pos b - pos"
    have k: "0 < k" "pos = buf_scan_pos b - k" using 3 by (simp_all add: k_def)
    have N: "0 < buffer_size b" "buffer_size b < 2 ^ 31" using sh by (auto simp: sb_shape_def)
    have scan: "buf_scan b = (buf_scan_pos b - sb_base b) mod buffer_size b" using sc by (simp add: sb_scan_ok_def)
    have r: "0 \<le> buf_scan b" "buf_scan b < buffer_size b" unfolding scan using N by auto
    have kN: "k \<le> buffer_size b" using k bwd sc by (auto simp: sb_scan_ok_def)
    have rw: "rewind_scan (buf_scan b - k) (buffer_size b) = Some ((buf_scan b - k) mod buffer_size b)"
      by (rule rewind_scan_mod) (use N r k kN in auto)
    have m: "(buf_scan b - k) mod buffer_size b = (pos - sb_base b) mod buffer_size b"
    proof -
      have "(buf_scan b - k) mod buffer_size b = (buf_scan_pos b - sb_base b - k) mod buffer_size b"
        unfolding scan by (rule mod_diff_left_eq)
      also have "buf_scan_pos b - sb_base b - k = pos - sb_base b" using k(2) by simp
      finally show ?thesis .
    qed
    have "move_in_buffer b pos = Some (False, b\<lparr>buf_scan_pos := pos, buf_scan := (pos - sb_base b) mod buffer_size b\<rparr>)"
      using k bwd rw by (simp add: move_in_buffer_def stream_buffer_get_pos_def rewind_buf_pos_def Let_def m)
    moreover have "sb_ok (b\<lparr>buf_scan := (pos - sb_base b) mod buffer_size b, buf_scan_pos := pos\<rparr>) f"
      by (rule sb_move_scan [OF ok]) (use sb_tail_ok [OF sh sc] bwd fwd in auto)
    moreover have "b\<lparr>buf_scan_pos := pos, buf_scan := (pos - sb_base b) mod buffer_size b\<rparr>
        = b\<lparr>buf_scan := (pos - sb_base b) mod buffer_size b, buf_scan_pos := pos\<rparr>" by simp
    ultimately show ?thesis by auto
  qed
qed

lemma sb_free_all_flags [simp]: "sb_flags (stream_buffer_free_all_data b p c) = sb_flags b"
  by (subst sb_free_all_fields) (simp add: sb_flags_def)

lemma restart_at_flags: "sb_flags (restart_at b pos) = sb_flags b"
proof -
  have e: "sb_flags (b\<lparr>drive := d, state_changed := c\<rparr>) = sb_flags b" for b d c by (simp add: sb_flags_def)
  show ?thesis unfolding restart_at_def e sb_free_all_flags by (simp add: sb_flags_def)
qed

text \<open>The buffer starts again, empty, at a position.\<close>

definition sb_memory :: "sbuf \<Rightarrow> bool" where
  "sb_memory b \<longleftrightarrow> 0 < buffer_size b \<and> 0 \<le> overlap_size b \<and> overlap_size b \<le> buffer_size b
     \<and> buffer_size b + overlap_size b < 2 ^ 31 \<and> int (length (sb_data b)) = buffer_size b + overlap_size b
     \<and> (b_video b \<or> b_audio b \<or> b_subtitle b) \<and> \<not> flag_no_wrap b \<and> data_end b \<le> 2 ^ 63"

lemma sb_memory_upd [simp]:
  "sb_memory (stream_buffer_free_all_data b p c) = sb_memory b" "sb_memory (b\<lparr>buf_write_cls := i\<rparr>) = sb_memory b"
  by (subst sb_free_all_fields) (simp_all add: sb_memory_def)

lemma restart_at_safe:
  assumes "sb_memory b" "0 \<le> pos" "pos < 2 ^ 63"
  shows "sb_safe (restart_at b pos) f" "buf_scan_pos (restart_at b pos) = pos" "flag_no_wrap (restart_at b pos) = False"
    "sb_memory (restart_at b pos)"
proof -
  define b0 where "b0 = b\<lparr>buf_write_pos := pos, buf_file_pos := pos, buf_write := 0, buf_scan := 0, buf_scan_pos := pos,
     buf_wrap := False, buf_tail := 0, buf_end := False\<rparr>"
  have r: "buf_read (stream_buffer_free_all_data b0 0 0) = 0"
    by (rule sb_free_all_read) (use assms(1) in \<open>auto simp: sb_memory_def b0_def\<close>)
  have e: "restart_at b pos = (b0\<lparr>vid_last_pos := 0, vid_last_buf := 0, aud_last_pos := 0, aud_last_buf := 0,
      sub_last_pos := 0, sub_last_buf := 0, buf_read := 0\<rparr>)\<lparr>drive := BUFFER_RDWR, state_changed := True\<rparr>"
    unfolding restart_at_def b0_def [symmetric] using sb_free_all_fields [of b0 0 0] r by simp
  show "sb_safe (restart_at b pos) f" "buf_scan_pos (restart_at b pos) = pos" "flag_no_wrap (restart_at b pos) = False"
    "sb_memory (restart_at b pos)"
    using assms by (simp_all add: e b0_def sb_memory_def sb_safe_def sb_from_def sb_shape_def sb_scan_ok_def sb_oldest_def
        sb_base_def sb_guard_def stream_buffer_get_used_def)
qed

lemma restart_blocked_iff: "restart_blocked buf s b w pos = Some (np, s', b', w') \<longleftrightarrow>
    (\<exists>q. cdiv pos (stream_buffer_chunk s) = Some q \<and> np = uw32 q * stream_buffer_chunk s \<and>
      read_some buf s (restart_at (b\<lparr>buf_write_cls := i32 (uw32 q)\<rparr>) np) w = Some (s', b', w'))"
proof -
  have "(do { (s, b, w) \<leftarrow> r; Some (p, s, b, w) }) = Some (np, s', b', w') \<longleftrightarrow> np = p \<and> r = Some (s', b', w')" for r and p :: int
    by (cases r) (auto split: prod.splits)
  then show ?thesis
    unfolding restart_blocked_def Let_def by (cases "cdiv pos (stream_buffer_chunk s)") auto
qed

lemma restart_non_blocked_iff: "restart_non_blocked buf s b w pos = Some (np, s', b', w') \<longleftrightarrow>
    np = pos \<and> read_some buf s (restart_at b pos) w = Some (s', b', w')"
  unfolding restart_non_blocked_def by (cases "read_some buf s (restart_at b pos) w") (auto split: prod.splits)

section \<open>A buffer method\<close>

text \<open>
  What moving the position needs of the method that fills the buffer: every call is a fill_step
  of the stream, and leaves the stream's record alone but for the error.
\<close>

locale buffer_method =
  fixes buf :: "'w buffer_method" and good :: "'w \<Rightarrow> (int \<Rightarrow> u8) \<Rightarrow> bool"
  assumes buffer_step: "sb_shape b \<Longrightarrow> \<not> flag_no_wrap b \<Longrightarrow> 0 < stream_buffer_chunk s \<Longrightarrow> good w f \<Longrightarrow>
      buf s b w sleep = Some (r, s', b', w') \<Longrightarrow>
      fill_step f b r b' \<and> good w' f \<and> (s' = s \<or> s' = stream_set_error s VE_FILE_ERROR) \<and> flag_no_wrap b' = flag_no_wrap b"
begin

lemma buffer_safe:
  assumes "sb_safe b f" "\<not> flag_no_wrap b" "0 < stream_buffer_chunk s" "good w f" "buf s b w sleep = Some (r, s', b', w')"
  shows "sb_safe b' f \<and> \<not> flag_no_wrap b' \<and> good w' f \<and> stream_buffer_chunk s' = stream_buffer_chunk s
    \<and> buf_scan_pos b' = buf_scan_pos b \<and> buf_write_pos b \<le> buf_write_pos b' \<and> sb_flags b' = sb_flags b"
proof -
  have st: "fill_step f b r b'" "good w' f" "s' = s \<or> s' = stream_set_error s VE_FILE_ERROR" "flag_no_wrap b' = flag_no_wrap b"
    using buffer_step [OF _ assms(2-5)] assms(1) by (auto simp: sb_safe_def sb_from_def)
  then show ?thesis
    using fill_step_safe [OF st(1) assms(1)] fill_step_scan [OF st(1)] assms(2)
    by (auto simp: stream_set_error_def stream_buffer_chunk_def Let_def)
qed

lemma read_some_safe:
  assumes "read_some buf s b w = Some y" "sb_safe b f" "\<not> flag_no_wrap b" "0 < stream_buffer_chunk s" "good w f"
  shows "case y of (s', b', w') \<Rightarrow> sb_safe b' f \<and> \<not> flag_no_wrap b' \<and> good w' f
    \<and> stream_buffer_chunk s' = stream_buffer_chunk s \<and> buf_scan_pos b' = buf_scan_pos b \<and> sb_flags b' = sb_flags b"
proof -
  have "buf = buf \<longrightarrow> sb_safe b f \<longrightarrow> \<not> flag_no_wrap b \<longrightarrow> 0 < stream_buffer_chunk s \<longrightarrow> good w f \<longrightarrow> ?thesis"
  proof (rule read_some.raw_induct [where P = "\<lambda>bf s b w y. bf = buf \<longrightarrow> sb_safe b f \<longrightarrow> \<not> flag_no_wrap b \<longrightarrow>
      0 < stream_buffer_chunk s \<longrightarrow> good w f \<longrightarrow> (case y of (s', b', w') \<Rightarrow> sb_safe b' f \<and> \<not> flag_no_wrap b' \<and> good w' f
      \<and> stream_buffer_chunk s' = stream_buffer_chunk s \<and> buf_scan_pos b' = buf_scan_pos b \<and> sb_flags b' = sb_flags b)", OF _ assms(1)], intro impI)
    fix rs bf s b w y
    assume ih: "\<And>bf s b w y. rs bf s b w = Some y \<Longrightarrow> bf = buf \<longrightarrow> sb_safe b f \<longrightarrow> \<not> flag_no_wrap b \<longrightarrow>
        0 < stream_buffer_chunk s \<longrightarrow> good w f \<longrightarrow> (case y of (s', b', w') \<Rightarrow> sb_safe b' f \<and> \<not> flag_no_wrap b' \<and> good w' f
        \<and> stream_buffer_chunk s' = stream_buffer_chunk s \<and> buf_scan_pos b' = buf_scan_pos b \<and> sb_flags b' = sb_flags b)"
      and run: "(if buf_end b then Some (s, b, w)
        else do {
          (r, s, b, w) \<leftarrow> bf s b w 2;
          (if r \<noteq> 0 \<or> stream_buffer_get_head b > parser_mindata_size s \<or> buf_write b \<ge> overlap_size b
           then Some (s, b, w)
           else rs bf s b w) }) = Some y"
      and p: "bf = buf" "sb_safe b f" "\<not> flag_no_wrap b" "0 < stream_buffer_chunk s" "good w f"
    show "case y of (s', b', w') \<Rightarrow> sb_safe b' f \<and> \<not> flag_no_wrap b' \<and> good w' f
        \<and> stream_buffer_chunk s' = stream_buffer_chunk s \<and> buf_scan_pos b' = buf_scan_pos b \<and> sb_flags b' = sb_flags b"
    proof (cases "buf_end b")
      case True
      then show ?thesis using run p by auto
    next
      case False
      then obtain r s1 b1 w1 where st: "buf s b w 2 = Some (r, s1, b1, w1)"
        and nx: "y = (s1, b1, w1) \<or> rs buf s1 b1 w1 = Some y"
        using run p(1) by (auto simp: bind_eq_Some_iff split: if_splits)
      have "sb_safe b1 f \<and> \<not> flag_no_wrap b1 \<and> good w1 f \<and> stream_buffer_chunk s1 = stream_buffer_chunk s
          \<and> buf_scan_pos b1 = buf_scan_pos b \<and> buf_write_pos b \<le> buf_write_pos b1 \<and> sb_flags b1 = sb_flags b"
        by (rule buffer_safe [OF p(2-5) st])
      then show ?thesis using nx ih [of buf s1 b1 w1 y] p(4) by auto
    qed
  qed
  then show ?thesis using assms(2-5) by simp
qed

text \<open>Both ways to restart leave a buffer that holds the stream from the new position on.\<close>

lemma restart_blocked_safe:
  assumes "restart_blocked buf s b w pos = Some (np, s', b', w')" "sb_memory b" "0 < stream_buffer_chunk s" "good w f"
    "0 \<le> pos" "pos div stream_buffer_chunk s < 2 ^ 32" "pos < 2 ^ 63"
  shows "np = pos div stream_buffer_chunk s * stream_buffer_chunk s \<and> 0 \<le> np \<and> np \<le> pos \<and> sb_safe b' f \<and> \<not> flag_no_wrap b'
    \<and> good w' f \<and> stream_buffer_chunk s' = stream_buffer_chunk s \<and> buf_scan_pos b' = np \<and> sb_flags b' = sb_flags b"
proof -
  define C where "C = stream_buffer_chunk s"
  define q where "q = pos div C"
  have q: "0 \<le> q" "q < 2 ^ 32" "q * C \<le> pos" "0 \<le> q * C"
  proof -
    have C: "0 < C" using assms(3) by (simp add: C_def)
    then show "0 \<le> q" "0 \<le> q * C" using assms(5) by (simp_all add: q_def pos_imp_zdiv_nonneg_iff)
    show "q < 2 ^ 32" using assms(6) by (simp add: q_def C_def)
    show "q * C \<le> pos" using pos_mod_sign [OF C, of pos] div_mult_mod_eq [of pos C] unfolding q_def by linarith
  qed
  have "uw32 q = q" using q by (simp add: uw32_id)
  then have "cdiv pos (stream_buffer_chunk s) = Some q" "uw32 q * stream_buffer_chunk s = q * C"
    using assms(3,5) by (simp_all add: cdiv_def sdiv_nonneg q_def C_def)
  then have rs: "read_some buf s (restart_at (b\<lparr>buf_write_cls := i32 q\<rparr>) (q * C)) w = Some (s', b', w')" and np: "np = q * C"
    using assms(1) \<open>uw32 q = q\<close> by (auto simp: restart_blocked_iff C_def)
  have m: "sb_memory (b\<lparr>buf_write_cls := i32 q\<rparr>)" using assms(2) by simp
  have small: "q * C < 2 ^ 63" using q(3) assms(7) by simp
  note ra = restart_at_safe(1) [OF m q(4) small, of f] restart_at_safe(2,3) [OF m q(4) small]
  have "\<not> flag_no_wrap (restart_at (b\<lparr>buf_write_cls := i32 q\<rparr>) (q * C))" using ra(3) by simp
  from read_some_safe [OF rs ra(1) this assms(3,4)]
  have "sb_safe b' f \<and> \<not> flag_no_wrap b' \<and> good w' f \<and> stream_buffer_chunk s' = stream_buffer_chunk s \<and> buf_scan_pos b' = q * C \<and> sb_flags b' = sb_flags b"
    by (simp add: ra(2) restart_at_flags)
  then show ?thesis using q(3,4) by (simp add: np q_def C_def)
qed

lemma restart_non_blocked_safe:
  assumes "restart_non_blocked buf s b w pos = Some (np, s', b', w')" "sb_memory b" "0 < stream_buffer_chunk s" "good w f"
    "0 \<le> pos" "pos < 2 ^ 63"
  shows "np = pos \<and> 0 \<le> np \<and> sb_safe b' f \<and> \<not> flag_no_wrap b' \<and> good w' f \<and> stream_buffer_chunk s' = stream_buffer_chunk s
    \<and> buf_scan_pos b' = np \<and> sb_flags b' = sb_flags b"
proof -
  have rs: "read_some buf s (restart_at b pos) w = Some (s', b', w')" and np: "np = pos"
    using assms(1) by (simp_all add: restart_non_blocked_iff)
  note ra = restart_at_safe(1) [OF assms(2,5,6), of f] restart_at_safe(2,3) [OF assms(2,5,6)]
  have "\<not> flag_no_wrap (restart_at b pos)" using ra(3) by simp
  from read_some_safe [OF rs ra(1) this assms(3,4)]
  show ?thesis using assms(5) by (simp add: np ra(2) restart_at_flags)
qed

text \<open>Loading again reaches the position asked for, or reports an error.\<close>

lemma set_pos_reload:
  assumes run: "set_pos restart buf s b w pos True resize m = Some (r, s', b', w')"
    and rst: "\<And>b s1 b1 w1 np. sb_memory b \<Longrightarrow> restart buf s b w pos = Some (np, s1, b1, w1) \<Longrightarrow>
      0 \<le> np \<and> np \<le> pos \<and> sb_safe b1 f \<and> \<not> flag_no_wrap b1 \<and> good w1 f \<and> stream_buffer_chunk s1 = stream_buffer_chunk s
      \<and> buf_scan_pos b1 = np \<and> sb_flags b1 = sb_flags b"
    and mem: "snd (if resize \<noteq> 0 then stream_buffer_resize b resize m else (0, b)) = b0"
      "fst (if resize \<noteq> 0 then stream_buffer_resize b resize m else (0, b)) = 0" "sb_memory b0"
    and C: "0 < stream_buffer_chunk s" and pos: "0 \<le> pos" "pos < 2 ^ 63"
  shows "sb_safe b' f \<and> \<not> flag_no_wrap b' \<and> good w' f \<and> stream_buffer_chunk s' = stream_buffer_chunk s
    \<and> r \<in> {0, 1} \<and> (r = 0 \<longrightarrow> buf_scan_pos b' = pos) \<and> sb_flags b' = sb_flags b0"
proof -
  define b1 where "b1 = stream_buffer_free_all_data (stream_buffer_free_all_data b0 0 0) 0 0"
  have b1: "sb_memory b1" using mem(3) by (simp add: b1_def)
  have e: "(if resize \<noteq> 0 then stream_buffer_resize b resize m else (0, b)) = (0, b0)"
    by (rule prod_eqI) (use mem in simp_all)
  obtain np s2 b2 w2 r3 s3 b3 w3 where rs: "restart buf s b1 w pos = Some (np, s2, b2, w2)"
    and bu: "buf s2 (b2\<lparr>buf_scan_pos := np\<rparr>) w2 0 = Some (r3, s3, b3, w3)"
    and fin: "(let s = (if pos < buf_scan_pos b3 then s3\<lparr>s_error := True\<rparr> else s3) in
        if (pos - buf_scan_pos b3) mod 2 ^ 64 > stream_buffer_get_head b3 then Some (1, s, b3, w3)
        else do {
          (_, b) \<leftarrow> stream_buffer_skip b3 (pos - buf_scan_pos b3);
          Some (0, s, b, w3) }) = Some (r, s', b', w')"
    using run unfolding set_pos_def e Let_def by (auto simp: bind_eq_Some_iff b1_def)
  have r2: "0 \<le> np" "np \<le> pos" "sb_safe b2 f" "\<not> flag_no_wrap b2" "good w2 f" "stream_buffer_chunk s2 = stream_buffer_chunk s" "buf_scan_pos b2 = np" "sb_flags b2 = sb_flags b0"
    using rst [OF b1 rs] by (auto simp: b1_def)
  have same: "b2\<lparr>buf_scan_pos := np\<rparr> = b2" using r2(7) by (intro sbuf.equality) simp_all
  have C2: "0 < stream_buffer_chunk s2" using C r2(6) by simp
  have r3: "sb_safe b3 f" "\<not> flag_no_wrap b3" "good w3 f" "stream_buffer_chunk s3 = stream_buffer_chunk s" "buf_scan_pos b3 = np" "sb_flags b3 = sb_flags b0"
    using buffer_safe [OF r2(3,4) C2 r2(5) bu [unfolded same]] r2(6-8) by auto
  have fr: "sb_from b3 f np" and g: "sb_guard b3" using r3(1,5) by (auto simp: sb_safe_def)
  define k where "k = pos - np"
  show ?thesis
  proof (cases "(pos - np) mod 2 ^ 64 > stream_buffer_get_head b3")
    case True
    then show ?thesis using fin r3 r2(2) by simp
  next
    case False
    have "(pos - np) mod 2 ^ 64 = k" using r2(1,2) pos by (simp add: k_def)
    then have k: "0 \<le> k" "np + k \<le> buf_write_pos b3"
      using False r2(2) fr sb_head_ok [of b3] r3(5) by (auto simp: k_def sb_from_def)
    obtain b4 where b4: "stream_buffer_skip b3 k = Some (np + k, b4)" "sb_from b4 f np"
      "b4 = b3\<lparr>buf_scan := buf_scan b4, buf_scan_pos := np + k\<rparr>"
      using stream_buffer_skip_from [OF fr k(1)] k(2) r3(5) by auto
    have f4: "buf_scan_pos b4 = np + k" "sb_guard b4" "flag_no_wrap b4 = flag_no_wrap b3" "sb_flags b4 = sb_flags b3"
    proof -
      show "buf_scan_pos b4 = np + k" "flag_no_wrap b4 = flag_no_wrap b3" "sb_flags b4 = sb_flags b3"
        by (subst b4(3), simp add: sb_flags_def)+
      have "buf_write_pos b4 = buf_write_pos b3" "stream_buffer_get_used b4 = stream_buffer_get_used b3"
        unfolding stream_buffer_get_used_def Let_def by (simp_all add: arg_cong [OF b4(3), of buf_write_pos]
          arg_cong [OF b4(3), of buf_write] arg_cong [OF b4(3), of buf_read] arg_cong [OF b4(3), of buffer_size])
      then show "sb_guard b4" using g k(1) r3(5) \<open>buf_scan_pos b4 = np + k\<close> by (simp add: sb_guard_def)
    qed
    have "sb_safe b4 f" using sb_from_later [OF b4(2)] f4 k(1) by (simp add: sb_safe_def)
    then show ?thesis using fin False b4(1) r3 r2(2) f4 by (auto simp: k_def)
  qed
qed

end

section \<open>The input\<close>

text \<open>
  What the buffer expects of the methods of its input, good w f saying that the input in the state w
  delivers the stream f: a read returns at most the number of bytes asked for, it
  stores as many bytes as it returns, and they are those of f at the position sought.
\<close>

locale stream_input =
  fixes io :: "'w io_ops" and good :: "'w \<Rightarrow> (int \<Rightarrow> u8) \<Rightarrow> bool"
  assumes good_can_read: "good w f \<Longrightarrow> good (snd (io_can_read io w p n)) f"
    and good_read: "good w f \<Longrightarrow> 0 < n \<Longrightarrow> 0 \<le> p \<Longrightarrow> p < 2 ^ 63 \<Longrightarrow> io_read io (io_seek io w p) n = Some (ret, xs, w') \<Longrightarrow> good w' f"
    and read_count: "good w f \<Longrightarrow> 0 < n \<Longrightarrow> 0 \<le> p \<Longrightarrow> p < 2 ^ 63 \<Longrightarrow> io_read io (io_seek io w p) n = Some (ret, xs, w') \<Longrightarrow>
      int (length xs) \<le> n \<and> (0 \<le> ret \<longrightarrow> int (length xs) = ret)"
    and read_bytes: "good w f \<Longrightarrow> 0 < n \<Longrightarrow> 0 \<le> p \<Longrightarrow> p < 2 ^ 63 \<Longrightarrow> io_read io (io_seek io w p) n = Some (ret, xs, w') \<Longrightarrow> 0 \<le> ret \<Longrightarrow>
      i < length xs \<Longrightarrow> xs ! i = f (p + int i)"
begin

lemma shrink_read_spec:
  "good w f \<Longrightarrow> shrink_read io C b w k = (m, t, w') \<Longrightarrow>
   good w' f \<and> m \<le> k \<and> (0 < m \<longrightarrow> t = min (int m * C) (data_end b - buf_write_pos b))"
proof (induction k arbitrary: w)
  case (Suc k)
  obtain yes w1 where c: "io_can_read io w (buf_write_pos b) (min (int (Suc k) * C) (data_end b - buf_write_pos b)) = (yes, w1)"
    by fastforce
  have "good w1 f" using good_can_read [OF Suc.prems(1), of "buf_write_pos b" "min (int (Suc k) * C) (data_end b - buf_write_pos b)"] c by simp
  then show ?case using Suc.IH [of w1] Suc.prems(2) c by (auto simp: Let_def split: if_splits)
qed simp

text \<open>The part of a read that both variants share.\<close>

lemma store_read_step:
  assumes b: "sb_shape b" "\<not> flag_no_wrap b" and g: "good w f"
    and n: "0 < n" "n < stream_buffer_get_free b" "buf_write b + n \<le> buffer_size b"
    and before: "buf_write_pos b < data_end b"
    and r: "store_read io s b w n = Some rr"
  shows "case rr of
      Inl (r, s', b', w') \<Rightarrow> r = 1 \<and> fill_step f b 1 b' \<and> good w' f \<and> (s' = s \<or> s' = stream_set_error s VE_FILE_ERROR)
        \<and> flag_no_wrap b' = flag_no_wrap b
    | Inr (ret, b1, w') \<Rightarrow> good w' f \<and> 0 \<le> ret \<and> ret \<le> n \<and> (\<forall>count e. ret \<le> count \<longrightarrow>
        (\<exists>d'. take_over (b1\<lparr>buf_end := e\<rparr>) ret count = Some ((sb_advanced b ret d')\<lparr>buf_end := e\<rparr>)
          \<and> (\<forall>b'. sb_same (sb_advanced b ret d') b' \<longrightarrow> fill_step f b 0 b')))
        \<and> buf_end b1 = buf_end b"
proof -
  have s: "0 < buffer_size b" "0 \<le> overlap_size b" "int (length (sb_data b)) = buffer_size b + overlap_size b" "0 \<le> buf_write b"
    and p: "0 \<le> buf_write_pos b" "buf_write_pos b < 2 ^ 63"
    using b(1) before by (auto simp: sb_shape_def)
  obtain ret xs w' where io: "io_read io (io_seek io w (buf_write_pos b)) n = Some (ret, xs, w')"
    using r by (auto simp: store_read_def bind_eq_Some_iff)
  have rc: "int (length xs) \<le> n" "0 \<le> ret \<longrightarrow> int (length xs) = ret" using read_count [OF g n(1) p io] by auto
  obtain d where d: "wr_blk (sb_data b) (buf_write b) xs = Some d"
    using s n(3) rc(1) by (auto simp: wr_blk_def)
  have fits: "int (length xs) < stream_buffer_get_free b" "buf_write b + int (length xs) \<le> buffer_size b"
    using n rc by auto
  have g': "good w' f" by (rule good_read [OF g n(1) p io])
  show ?thesis
  proof (cases "ret < 0")
    case True
    have "fill_step f b 1 (b\<lparr>sb_data := d\<rparr>)" "fill_step f b 1 (b\<lparr>sb_data := d, buf_end := True\<rparr>)"
      by (rule fill_step.failed [OF fits d]; simp)+
    then show ?thesis using r io d g' True by (auto simp: store_read_def Let_def split: if_splits)
  next
    case False
    have rr: "rr = Inr (ret, b\<lparr>sb_data := d\<rparr>, w')" using r io d False by (auto simp: store_read_def)
    have "\<exists>d'. take_over (b\<lparr>sb_data := d, buf_end := e\<rparr>) ret count = Some ((sb_advanced b ret d')\<lparr>buf_end := e\<rparr>)
        \<and> (\<forall>b'. sb_same (sb_advanced b ret d') b' \<longrightarrow> fill_step f b 0 b')" if a: "ret \<le> count" for count e
    proof -
      have len: "int (length xs) = ret" using rc False by simp
      have f: "xs ! i = f (buf_write_pos (b\<lparr>buf_end := e\<rparr>) + int i)" if "i < length xs" for i
        using read_bytes [OF g n(1) p io _ that] False by simp
      have sm: "sb_same b (b\<lparr>buf_end := e\<rparr>)" by simp
      have comm: "b\<lparr>buf_end := e, sb_data := d\<rparr> = b\<lparr>sb_data := d, buf_end := e\<rparr>" by simp
      have base: "sb_base (b\<lparr>buf_end := e\<rparr>) = sb_base b" by (simp add: sb_base_def)
      obtain d' where d': "take_over (b\<lparr>sb_data := d, buf_end := e\<rparr>) ret count = Some (sb_advanced (b\<lparr>buf_end := e\<rparr>) ret d')"
        "length d' = length (sb_data b)"
        "\<forall>lo. live (sb_data b) (buffer_size b) (overlap_size b) (sb_base b) f lo (buf_write_pos b) \<longrightarrow>
          buf_write_pos b + ret - lo \<le> buffer_size b \<longrightarrow>
          live d' (buffer_size b) (overlap_size b) (sb_base b) f lo (buf_write_pos b + ret)"
        using take_over_step [of "b\<lparr>buf_end := e\<rparr>" xs count d f] b fits d a f
        unfolding sb_same_keeps(4,5) [OF sm] base comm len by auto
      have "sb_advanced (b\<lparr>buf_end := e\<rparr>) ret d' = (sb_advanced b ret d')\<lparr>buf_end := e\<rparr>"
        by (rule sbuf.equality) (simp_all add: sb_advanced_def tail_follows_def)
      moreover have "fill_step f b 0 b'" if "sb_same (sb_advanced b ret d') b'" for b'
        by (rule fill_step.filled [OF _ _ d'(2) _ that]) (use False n rc d'(3) in auto)
      ultimately show ?thesis using d'(1) by auto
    qed
    then show ?thesis using g' rc False unfolding rr by simp
  qed
qed

lemma blocked_plan_spec:
  assumes b: "sb_shape b" and C: "0 < stream_buffer_chunk s" and g: "good w f"
    and res: "blocked_plan io s b w sleep = Some (b1, w1, plan)"
  shows "sb_same b b1 \<and> good w1 f \<and> (\<forall>m t. plan = Some (m, t) \<longrightarrow> \<not> buf_end b1 \<and> buf_write_pos b1 < data_end b1 \<and> 0 < t \<and> t < stream_buffer_get_free b
    \<and> buf_write b + t \<le> buffer_size b \<and> t \<le> int m * stream_buffer_chunk s)"
proof -
  let ?b = "note_end b" and ?C = "stream_buffer_chunk s"
  have sm: "sb_same b ?b" by simp
  note k = sb_same_keeps [OF sm] sb_same_fields [OF sm]
  have fr: "0 \<le> stream_buffer_get_free b" using sb_free_used [OF b] sb_used_range [OF b] by simp
  have wN: "buf_write b < buffer_size b" using b by (simp add: sb_shape_def)
  have mult: "int m * ?C \<le> x" if "int m \<le> x sdiv ?C" "0 \<le> x" for m x
  proof -
    have "int m \<le> x div ?C" using that C by (simp add: sdiv_nonneg)
    then have "int m * ?C \<le> x div ?C * ?C" using C by simp
    also have "\<dots> \<le> x" using pos_mod_sign [OF C, of x] div_mult_mod_eq [of x ?C] by linarith
    finally show ?thesis .
  qed
  show ?thesis
  proof (cases "buf_end ?b")
    case True
    then show ?thesis using res g by (auto simp: blocked_plan_def)
  next
    case False
    then have before: "buf_write_pos b < data_end b" by (auto simp: note_end_def split: if_splits)
    define fc where "fc = stream_buffer_get_free b sdiv ?C"
    obtain yes b2 where st: "drive_step s ?b (io_sleepable io w) sleep (fc - 1) MIN_FREE_VIDEO = (yes, b2)" by fastforce
    have b2: "sb_same b b2" "yes \<Longrightarrow> b2 = ?b" using drive_step_same [OF st] sb_same_trans [OF sm] by auto
    define most where "most = min (min (min (fc - 1) ((buffer_size b - buf_write b) sdiv ?C))
      ((data_end b - buf_write_pos b + ?C - 1) sdiv ?C * ?C sdiv ?C)) MAX_READ_CLUSTER"
    obtain m t w2 where sh: "shrink_read io ?C ?b w (nat most) = (m, t, w2)" by (metis prod_cases3)
    have sp: "good w2 f" "m \<le> nat most" "0 < m \<longrightarrow> t = min (int m * ?C) (data_end b - buf_write_pos b)"
      using shrink_read_spec [OF g sh] by (auto simp: k)
    have cases: "b1 = ?b \<and> w1 = w \<and> plan = None \<or> b1 = b2 \<and> w1 = w \<and> plan = None
      \<or> 0 < fc - 1 \<and> b1 = ?b \<and> w1 = w2 \<and> plan = (if m = 0 then None else Some (m, t))"
      using res False C st sh b2(2) unfolding blocked_plan_def
      by (auto simp: cdiv_def k Let_def pad_to_buffer_chunk_def fc_def [symmetric] most_def [symmetric] split: if_splits)
    have "0 < t \<and> t < stream_buffer_get_free b \<and> buf_write b + t \<le> buffer_size b \<and> t \<le> int m * ?C" if m: "0 < m" "0 < fc - 1"
    proof -
      have mm: "int m \<le> most" using sp(2) m by linarith
      have "(int m + 1) * ?C \<le> stream_buffer_get_free b"
        using mult [of "Suc m" "stream_buffer_get_free b"] mm fr by (simp add: most_def fc_def algebra_simps)
      moreover have "int m * ?C \<le> buffer_size b - buf_write b" using mult [of m] mm wN by (simp add: most_def)
      ultimately show ?thesis using sp(3) m(1) before C by (auto simp: algebra_simps)
    qed
    then show ?thesis using cases g sp(1) b2(1) sm False before by (auto simp: k split: if_splits)
  qed
qed

text \<open>Both methods are steps of filling; the blocking one makes progress or notes the end.\<close>

lemma buffer_blocked_step:
  assumes b: "sb_shape b" "\<not> flag_no_wrap b" and C: "0 < stream_buffer_chunk s" and g: "good w f"
    and res: "buffer_blocked io s b w sleep = Some (r, s', b', w')"
  shows "fill_step f b r b' \<and> good w' f \<and> (s' = s \<or> s' = stream_set_error s VE_FILE_ERROR)
    \<and> flag_no_wrap b' = flag_no_wrap b
    \<and> (r = 0 \<longrightarrow> buf_end b' \<or> buf_write_pos b < buf_write_pos b')"
proof -
  obtain b1 w1 plan where pl: "blocked_plan io s b w sleep = Some (b1, w1, plan)"
    using res by (auto simp: buffer_blocked_def bind_eq_Some_iff)
  have sm: "sb_same b b1" and g1: "good w1 f" using blocked_plan_spec [OF b(1) C g pl] by auto
  note k = sb_same_keeps [OF sm] sb_same_fields [OF sm]
  show ?thesis
  proof (cases plan)
    case None
    then show ?thesis using res pl fill_step.idle [OF sm] g1 k by (auto simp: buffer_blocked_def)
  next
    case (Some p)
    obtain m t where p: "p = (m, t)" by fastforce
    have t: "\<not> buf_end b1" "0 < t" "t < stream_buffer_get_free b1" "buf_write b1 + t \<le> buffer_size b1" "t \<le> int m * stream_buffer_chunk s"
      and before: "buf_write_pos b1 < data_end b1"
      using blocked_plan_spec [OF b(1) C g pl] Some p by (auto simp: k)
    obtain rr where rr: "store_read io s b1 w1 t = Some rr"
      using res pl Some p by (auto simp: buffer_blocked_def bind_eq_Some_iff)
    have b1: "sb_shape b1" "\<not> flag_no_wrap b1" using b by (simp_all add: k)
    note sr = store_read_step [OF b1 g1 t(2-4) before rr]
    show ?thesis
    proof (cases rr)
      case (Inl e)
      obtain r2 s2 b2 w2 where e: "e = (r2, s2, b2, w2)" by (metis prod_cases4)
      have "r = r2" "s' = s2" "b' = b2" "w' = w2"
        using res pl Some p rr Inl by (auto simp: buffer_blocked_def e)
      then show ?thesis using sr sb_same_fill_step [OF sm] k(20) by (auto simp: Inl e)
    next
      case (Inr e)
      obtain ret b2 w2 where e: "e = (ret, b2, w2)" by (metis prod_cases3)
      have s2: "good w2 f" "0 \<le> ret" "ret \<le> t" "buf_end b2 = buf_end b1" using sr by (simp_all add: Inr e)
      have any: "\<And>count e. ret \<le> count \<Longrightarrow> \<exists>d'. take_over (b2\<lparr>buf_end := e\<rparr>) ret count = Some ((sb_advanced b1 ret d')\<lparr>buf_end := e\<rparr>)
          \<and> (\<forall>b'. sb_same (sb_advanced b1 ret d') b' \<longrightarrow> fill_step f b1 0 b')"
        using sr by (simp add: Inr e)
      have cnt: "ret \<le> int m * stream_buffer_chunk s" using t(5) s2(3) by linarith
      obtain d' where d': "take_over (b2\<lparr>buf_end := (ret \<noteq> t)\<rparr>) ret (int m * stream_buffer_chunk s)
          = Some ((sb_advanced b1 ret d')\<lparr>buf_end := (ret \<noteq> t)\<rparr>)"
        "\<And>b'. sb_same (sb_advanced b1 ret d') b' \<Longrightarrow> fill_step f b1 0 b'"
        using any [OF cnt, of "ret \<noteq> t"] by blast
      have eq: "(if ret \<noteq> t then b2\<lparr>buf_end := True\<rparr> else b2) = b2\<lparr>buf_end := (ret \<noteq> t)\<rparr>"
        using s2(4) t(1) by (auto intro: sbuf.equality)
      let ?b3 = "(sb_advanced b1 ret d')\<lparr>buf_end := (ret \<noteq> t)\<rparr>"
      have "r = 0" "s' = s" "b' = ?b3\<lparr>buf_write_cls := buf_write_cls ?b3 + int m\<rparr>" "w' = w2"
        using res pl Some p rr Inr e d'(1) by (auto simp: buffer_blocked_def eq simp del: if_split)
      moreover have "fill_step f b 0 (?b3\<lparr>buf_write_cls := buf_write_cls ?b3 + int m\<rparr>)"
        by (rule sb_same_fill_step [OF sm], rule d'(2)) simp
      ultimately show ?thesis using s2 t(2) k by (auto simp: sb_advanced_def tail_follows_def)
    qed
  qed
qed

lemma non_blocked_plan_spec:
  assumes b: "sb_shape b" and C: "0 < stream_buffer_chunk s" and g: "good w f"
    and res: "non_blocked_plan io s b w sleep = (b1, w1, plan)"
  shows "sb_same b b1 \<and> good w1 f \<and> (\<forall>t. plan = Some t \<longrightarrow> \<not> buf_end b1 \<and> buf_write_pos b1 < data_end b1 \<and> 0 < t \<and> t < stream_buffer_get_free b
    \<and> buf_write b + t \<le> buffer_size b)"
proof -
  let ?b = "note_end b" and ?C = "stream_buffer_chunk s"
  have sm: "sb_same b ?b" by simp
  note k = sb_same_keeps [OF sm] sb_same_fields [OF sm]
  have wN: "buf_write b < buffer_size b" using b by (simp add: sb_shape_def)
  show ?thesis
  proof (cases "buf_end ?b")
    case True
    then show ?thesis using res g by (auto simp: non_blocked_plan_def)
  next
    case False
    then have before: "buf_write_pos b < data_end b" by (auto simp: note_end_def split: if_splits)
    define fr where "fr = stream_buffer_get_free b - ?C"
    obtain yes b2 where st: "drive_step s ?b (io_sleepable io w) sleep fr ?C = (yes, b2)" by fastforce
    have b2: "sb_same b b2" "yes \<Longrightarrow> b2 = ?b" using drive_step_same [OF st] sb_same_trans [OF sm] by auto
    define t where "t = min (min (min fr ?C) (buffer_size b - buf_write b)) (data_end b - buf_write_pos b)"
    obtain yes2 w2 where cr: "io_can_read io w (buf_write_pos b) t = (yes2, w2)" by fastforce
    have "good w2 f" using good_can_read [OF g, of "buf_write_pos b" t] cr by simp
    moreover have "b1 = ?b \<and> w1 = w \<and> plan = None \<or> b1 = b2 \<and> w1 = w \<and> plan = None
      \<or> 0 < fr \<and> b1 = ?b \<and> w1 = w2 \<and> plan = (if \<not> yes2 \<or> t = 0 then None else Some t)"
      using res False st cr b2(2) unfolding non_blocked_plan_def
      by (auto simp: k Let_def fr_def [symmetric] t_def [symmetric] split: if_splits)
    moreover have "0 < t \<and> t < stream_buffer_get_free b \<and> buf_write b + t \<le> buffer_size b" if "0 < fr"
      using that before C wN by (auto simp: t_def fr_def)
    ultimately show ?thesis using g b2(1) sm False before by (auto simp: k split: if_splits)
  qed
qed

lemma buffer_non_blocked_step:
  assumes b: "sb_shape b" "\<not> flag_no_wrap b" and C: "0 < stream_buffer_chunk s" and g: "good w f"
    and res: "buffer_non_blocked io s b w sleep = Some (r, s', b', w')"
  shows "fill_step f b r b' \<and> good w' f \<and> (s' = s \<or> s' = stream_set_error s VE_FILE_ERROR)
    \<and> flag_no_wrap b' = flag_no_wrap b"
proof -
  obtain b1 w1 plan where pl: "non_blocked_plan io s b w sleep = (b1, w1, plan)" by (metis prod_cases3)
  have sm: "sb_same b b1" and g1: "good w1 f" using non_blocked_plan_spec [OF b(1) C g pl] by auto
  note k = sb_same_keeps [OF sm] sb_same_fields [OF sm]
  show ?thesis
  proof (cases plan)
    case None
    then show ?thesis using res pl fill_step.idle [OF sm] g1 k by (auto simp: buffer_non_blocked_def)
  next
    case (Some t)
    have t: "0 < t" "t < stream_buffer_get_free b1" "buf_write b1 + t \<le> buffer_size b1"
      and before: "buf_write_pos b1 < data_end b1"
      using non_blocked_plan_spec [OF b(1) C g pl] Some by (auto simp: k)
    obtain rr where rr: "store_read io s b1 w1 t = Some rr"
      using res pl Some by (auto simp: buffer_non_blocked_def bind_eq_Some_iff)
    have b1: "sb_shape b1" "\<not> flag_no_wrap b1" using b by (simp_all add: k)
    note sr = store_read_step [OF b1 g1 t before rr]
    show ?thesis
    proof (cases rr)
      case (Inl e)
      obtain r2 s2 b2 w2 where e: "e = (r2, s2, b2, w2)" by (metis prod_cases4)
      have "r = r2" "s' = s2" "b' = b2" "w' = w2"
        using res pl Some rr Inl by (auto simp: buffer_non_blocked_def e)
      then show ?thesis using sr sb_same_fill_step [OF sm] k(20) by (auto simp: Inl e)
    next
      case (Inr e)
      obtain ret b2 w2 where e: "e = (ret, b2, w2)" by (metis prod_cases3)
      have s2: "good w2 f" using sr by (simp add: Inr e)
      have any: "\<And>count e. ret \<le> count \<Longrightarrow> \<exists>d'. take_over (b2\<lparr>buf_end := e\<rparr>) ret count = Some ((sb_advanced b1 ret d')\<lparr>buf_end := e\<rparr>)
          \<and> (\<forall>b'. sb_same (sb_advanced b1 ret d') b' \<longrightarrow> fill_step f b1 0 b')"
        using sr by (simp add: Inr e)
      have eq: "b2\<lparr>buf_end := buf_end b2\<rparr> = b2" by simp
      obtain d' where d': "take_over b2 ret ret = Some ((sb_advanced b1 ret d')\<lparr>buf_end := buf_end b2\<rparr>)"
        "\<And>b'. sb_same (sb_advanced b1 ret d') b' \<Longrightarrow> fill_step f b1 0 b'"
        using any [OF order_refl, of "buf_end b2"] unfolding eq by blast
      let ?b3 = "(sb_advanced b1 ret d')\<lparr>buf_end := buf_end b2\<rparr>"
      have "r = 0" "s' = s" "b' = (if buf_write_pos ?b3 \<ge> io_size io w2 then ?b3\<lparr>buf_end := True\<rparr> else ?b3)" "w' = w2"
        using res pl Some rr Inr e d'(1) by (auto simp: buffer_non_blocked_def simp del: if_split)
      moreover have "fill_step f b 0 (if buf_write_pos ?b3 \<ge> io_size io w2 then ?b3\<lparr>buf_end := True\<rparr> else ?b3)"
        by (rule sb_same_fill_step [OF sm], rule d'(2)) simp
      ultimately show ?thesis using s2 k by (auto simp: sb_advanced_def tail_follows_def)
    qed
  qed
qed

end

sublocale stream_input \<subseteq> blocked: buffer_method "buffer_blocked io" good
  by unfold_locales (use buffer_blocked_step in blast)

sublocale stream_input \<subseteq> non_blocked: buffer_method "buffer_non_blocked io" good
  by unfold_locales (use buffer_non_blocked_step in blast)

text \<open>An input whose reads return.\<close>

locale stream_input_total = stream_input +
  assumes read_returns: "good w f \<Longrightarrow> 0 < n \<Longrightarrow> 0 \<le> p \<Longrightarrow> p < 2 ^ 63 \<Longrightarrow> \<exists>y. io_read io (io_seek io w p) n = Some y"
begin

lemma store_read_returns:
  assumes "sb_shape b" "good w f" "0 < n" "buf_write b + n \<le> buffer_size b" "buf_write_pos b < data_end b"
  shows "\<exists>rr. store_read io s b w n = Some rr"
proof -
  have p: "0 \<le> buf_write_pos b" "buf_write_pos b < 2 ^ 63" using assms(1,5) by (auto simp: sb_shape_def)
  obtain ret xs w' where io: "io_read io (io_seek io w (buf_write_pos b)) n = Some (ret, xs, w')"
    using read_returns [OF assms(2,3) p] by (metis prod_cases3)
  have "int (length xs) \<le> n" using read_count [OF assms(2,3) p io] by simp
  then obtain d where "wr_blk (sb_data b) (buf_write b) xs = Some d"
    using assms(1,4) by (auto simp: wr_blk_def sb_shape_def)
  then show ?thesis by (simp add: store_read_def io Let_def)
qed

lemma blocked_plan_returns: "0 < stream_buffer_chunk s \<Longrightarrow> \<exists>y. blocked_plan io s b w sleep = Some y"
  by (auto simp: blocked_plan_def cdiv_def pad_to_buffer_chunk_def Let_def split: prod.splits)

lemma buffer_blocked_returns:
  assumes b: "sb_shape b" "\<not> flag_no_wrap b" and C: "0 < stream_buffer_chunk s" and g: "good w f"
  shows "\<exists>y. buffer_blocked io s b w sleep = Some y"
proof -
  obtain b1 w1 plan where pl: "blocked_plan io s b w sleep = Some (b1, w1, plan)"
    using blocked_plan_returns [OF C] by (metis prod_cases3)
  have sm: "sb_same b b1" and g1: "good w1 f" using blocked_plan_spec [OF b(1) C g pl] by auto
  note k = sb_same_keeps [OF sm] sb_same_fields [OF sm]
  show ?thesis
  proof (cases plan)
    case None
    then show ?thesis using pl by (simp add: buffer_blocked_def)
  next
    case (Some p)
    obtain m t where p: "p = (m, t)" by fastforce
    have t: "0 < t" "t < stream_buffer_get_free b1" "buf_write b1 + t \<le> buffer_size b1" "t \<le> int m * stream_buffer_chunk s" "\<not> buf_end b1"
      and before: "buf_write_pos b1 < data_end b1"
      using blocked_plan_spec [OF b(1) C g pl] Some p by (auto simp: k)
    have b1: "sb_shape b1" "\<not> flag_no_wrap b1" using b by (simp_all add: k)
    obtain rr where rr: "store_read io s b1 w1 t = Some rr" using store_read_returns [OF b1(1) g1 t(1,3) before] by blast
    show ?thesis
    proof (cases rr)
      case (Inl e)
      then show ?thesis using pl Some p rr by (cases e) (simp add: buffer_blocked_def)
    next
      case (Inr e)
      obtain ret b2 w2 where e: "e = (ret, b2, w2)" by (metis prod_cases3)
      note st = store_read_step [OF b1 g1 t(1-3) before rr, unfolded Inr e, simplified]
      have sr: "ret \<le> t" "buf_end b2 = buf_end b1" "\<And>count e. ret \<le> count \<Longrightarrow> \<exists>b'. take_over (b2\<lparr>buf_end := e\<rparr>) ret count = Some b'"
        using st by blast+
      have eq: "(if ret \<noteq> t then b2\<lparr>buf_end := True\<rparr> else b2) = b2\<lparr>buf_end := (ret \<noteq> t)\<rparr>"
        using sr(2) t(5) by (auto intro: sbuf.equality)
      have "ret \<le> int m * stream_buffer_chunk s" using sr(1) t(4) by simp
      then obtain b3 where "take_over (b2\<lparr>buf_end := (ret \<noteq> t)\<rparr>) ret (int m * stream_buffer_chunk s) = Some b3"
        using sr(3) by blast
      then show ?thesis using pl Some p rr Inr e by (simp add: buffer_blocked_def eq del: if_split)
    qed
  qed
qed

text \<open>The loop ends: every read that does not note the end makes the unread part longer.\<close>

lemma read_some_returns:
  assumes "sb_safe b f" "\<not> flag_no_wrap b" "0 < stream_buffer_chunk s" "good w f"
  shows "\<exists>y. read_some (buffer_blocked io) s b w = Some y"
  using assms
proof (induction "nat (buffer_size b - (buf_write_pos b - buf_scan_pos b))" arbitrary: s b w rule: less_induct)
  case less
  show ?case
  proof (cases "buf_end b")
    case True
    then show ?thesis by (subst read_some.simps) simp
  next
    case False
    have sh: "sb_shape b" using less.prems(1) by (simp add: sb_safe_def sb_from_def)
    obtain r s1 b1 w1 where st: "buffer_blocked io s b w 2 = Some (r, s1, b1, w1)"
      using buffer_blocked_returns [OF sh less.prems(2-4)] by (metis prod_cases4)
    have n: "sb_safe b1 f" "\<not> flag_no_wrap b1" "good w1 f" "stream_buffer_chunk s1 = stream_buffer_chunk s"
      "buf_scan_pos b1 = buf_scan_pos b"
      using blocked.buffer_safe [OF less.prems st] by auto
    have stp: "fill_step f b r b1" "r = 0 \<longrightarrow> buf_end b1 \<or> buf_write_pos b < buf_write_pos b1"
      using buffer_blocked_step [OF sh less.prems(2-4) st] by auto
    have "\<exists>y. read_some (buffer_blocked io) s1 b1 w1 = Some y" if "r = 0"
    proof (cases "buf_end b1")
      case True
      then show ?thesis by (subst read_some.simps) simp
    next
      case False
      have "buffer_size b1 = buffer_size b" using fill_step_scan [OF stp(1)] by simp
      moreover have "buf_write_pos b1 - buf_scan_pos b1 < buffer_size b1"
        using n(1) by (simp add: sb_safe_def sb_from_def sb_scan_ok_def)
      ultimately have "nat (buffer_size b1 - (buf_write_pos b1 - buf_scan_pos b1)) < nat (buffer_size b - (buf_write_pos b - buf_scan_pos b))"
        using stp(2) that False n(5) by linarith
      then show ?thesis by (rule less.hyps) (use n less.prems(3) in simp_all)
    qed
    then show ?thesis using False st by (subst read_some.simps) auto
  qed
qed

lemma restart_blocked_returns:
  assumes "sb_memory b" "0 < stream_buffer_chunk s" "good w f" "0 \<le> pos" "pos div stream_buffer_chunk s < 2 ^ 32" "pos < 2 ^ 63"
  shows "\<exists>y. restart_blocked (buffer_blocked io) s b w pos = Some y"
proof -
  define C where "C = stream_buffer_chunk s"
  define q where "q = pos div C"
  have C: "0 < C" using assms(2) by (simp add: C_def)
  have q: "0 \<le> q" "0 \<le> q * C" "q < 2 ^ 32" using C assms(4,5) by (simp_all add: q_def pos_imp_zdiv_nonneg_iff C_def)
  have "q * C \<le> pos" using pos_mod_sign [OF C, of pos] div_mult_mod_eq [of pos C] unfolding q_def by linarith
  then have small: "q * C < 2 ^ 63" using assms(6) by simp
  have u: "uw32 q = q" using q by (simp add: uw32_id)
  have cd: "cdiv pos C = Some q" using C assms(4) by (simp add: cdiv_def sdiv_nonneg q_def)
  have m: "sb_memory (b\<lparr>buf_write_cls := i32 q\<rparr>)" using assms(1) by simp
  have "\<not> flag_no_wrap (restart_at (b\<lparr>buf_write_cls := i32 q\<rparr>) (q * C))" using restart_at_safe(3) [OF m q(2) small] by simp
  then obtain y where "read_some (buffer_blocked io) s (restart_at (b\<lparr>buf_write_cls := i32 q\<rparr>) (q * C)) w = Some y"
    using read_some_returns [OF restart_at_safe(1) [OF m q(2) small] _ assms(2,3)] by blast
  then show ?thesis unfolding restart_blocked_def C_def [symmetric] by (cases y) (simp add: cd u)
qed

lemma set_pos_blocked_returns:
  assumes mem: "snd (if resize \<noteq> 0 then stream_buffer_resize b resize m else (0, b)) = b0"
      "fst (if resize \<noteq> 0 then stream_buffer_resize b resize m else (0, b)) = 0" "sb_memory b0"
    and C: "0 < stream_buffer_chunk s" and g: "good w f"
    and pos: "0 \<le> pos" "pos div stream_buffer_chunk s < 2 ^ 32" "pos < 2 ^ 63"
  shows "\<exists>y. set_pos_blocked io s b w pos True resize m = Some y"
proof -
  define b1 where "b1 = stream_buffer_free_all_data (stream_buffer_free_all_data b0 0 0) 0 0"
  have b1: "sb_memory b1" using mem(3) by (simp add: b1_def)
  have e: "(if resize \<noteq> 0 then stream_buffer_resize b resize m else (0, b)) = (0, b0)"
    by (rule prod_eqI) (use mem in simp_all)
  obtain np s2 b2 w2 where rs: "restart_blocked (buffer_blocked io) s b1 w pos = Some (np, s2, b2, w2)"
    using restart_blocked_returns [OF b1 C g pos] by (metis prod_cases4)
  have r2: "0 \<le> np" "np \<le> pos" "sb_safe b2 f" "\<not> flag_no_wrap b2" "good w2 f" "stream_buffer_chunk s2 = stream_buffer_chunk s" "buf_scan_pos b2 = np"
    using blocked.restart_blocked_safe [OF rs b1 C g pos] by auto
  have same: "b2\<lparr>buf_scan_pos := np\<rparr> = b2" using r2(7) by (intro sbuf.equality) simp_all
  have C2: "0 < stream_buffer_chunk s2" using C r2(6) by simp
  have sh2: "sb_shape b2" using r2(3) by (simp add: sb_safe_def sb_from_def)
  obtain r3 s3 b3 w3 where bu: "buffer_blocked io s2 b2 w2 0 = Some (r3, s3, b3, w3)"
    using buffer_blocked_returns [OF sh2 r2(4) C2 r2(5)] by (metis prod_cases4)
  have r3: "sb_safe b3 f" "buf_scan_pos b3 = np"
    using blocked.buffer_safe [OF r2(3,4) C2 r2(5) bu] r2(7) by auto
  have fr: "sb_from b3 f np" using r3 by (auto simp: sb_safe_def)
  have "\<exists>y. stream_buffer_skip b3 (pos - np) = Some y" if "\<not> (pos - np) mod 2 ^ 64 > stream_buffer_get_head b3"
  proof -
    have "(pos - np) mod 2 ^ 64 = pos - np" using r2(1,2) pos by simp
    then have "np + (pos - np) \<le> buf_write_pos b3" using that fr sb_head_ok [of b3] r3(2) by (auto simp: sb_from_def)
    then show ?thesis using stream_buffer_skip_from [OF fr, of "pos - np"] r2(2) r3(2) by auto
  qed
  then show ?thesis
    unfolding set_pos_blocked_def set_pos_def e Let_def
    by (auto simp: b1_def [symmetric] rs same bu r3(2) split: prod.splits)
qed

end

section \<open>Properties of moving\<close>

text \<open>
  C7. Seeking inside the buffer. On a buffer that holds a window of the stream f, a seek to a
  position that lies in it (ahead, with the overlap still in front of the write position unless
  the input has ended; behind, less than a whole ring from the write position) succeeds without
  touching the input: stream_buffer_set_pos_seek moves the scan position there, the window is
  kept, everything from the new position to the write position can be read and none of it may be
  overwritten.
\<close>

theorem stream_buffer_set_pos_seek_in_buffer:
  assumes "sb_ok b f" "b_video b \<or> b_audio b \<or> b_subtitle b" "0 \<le> pos" "pos < 2 ^ 63"
    and "pos \<le> buf_write_pos b" "pos \<le> stream_buffer_get_pos b + max 0 (stream_buffer_get_head b - overlap_size b) \<or> buf_end b"
    and "stream_buffer_get_pos b - stream_buffer_get_tail b \<le> pos" "buf_write_pos b - pos < buffer_size b"
  shows "\<exists>b'. stream_buffer_set_pos_seek (set_pos restart buf) s b w pos False = Some (0, s, b', w)
    \<and> sb_ok b' f \<and> sb_guard b' \<and> stream_buffer_get_pos b' = pos \<and> stream_buffer_get_head b' = buf_write_pos b - pos"
proof -
  obtain b1 where b1: "move_in_buffer b pos = Some (False, b1)" "sb_ok b1 f" "buf_scan_pos b1 = pos"
    "b1 = b\<lparr>buf_scan := buf_scan b1, buf_scan_pos := pos\<rparr>"
    using move_in_buffer_ok [OF assms(1,5)] assms(6-8) by (auto simp: stream_buffer_get_pos_def)
  have keep: "b_video b1 = b_video b" "b_audio b1 = b_audio b" "b_subtitle b1 = b_subtitle b" "buf_write_pos b1 = buf_write_pos b"
    by (subst b1(4), simp)+
  define b2 where "b2 = stream_buffer_free_all_data b1 0 0"
  define b3 where "b3 = stream_buffer_free_all_data b2 (buf_scan_pos b2) (buf_scan b2)"
  have tr: "b_video b1 \<or> b_audio b1 \<or> b_subtitle b1" using assms(2) keep by simp
  have sh: "sb_shape b1" "sb_scan_ok b1" using b1(2) by (auto simp: sb_ok_def)
  have f2: "buf_scan_pos b2 = pos" "buf_scan b2 = buf_scan b1" "buffer_size b2 = buffer_size b1" "b_video b2 = b_video b1"
    "b_audio b2 = b_audio b1" "b_subtitle b2 = b_subtitle b1" "sb_oldest b2 = sb_oldest b1" "buf_write_pos b2 = buf_write_pos b1"
    by (simp_all add: b2_def b1(3))
  have scan: "0 \<le> buf_scan b1" "buf_scan b1 < buffer_size b1" using sh by (auto simp: sb_scan_ok_def sb_shape_def)
  have o2: "sb_from b2 f (sb_oldest b1)"
    unfolding b2_def by (rule sb_from_free_all) (use b1(2) tr sh in \<open>auto simp: sb_ok_from sb_shape_def\<close>)
  then have "sb_from b3 f (sb_oldest b1)"
    unfolding b3_def using f2 scan tr assms(4) by (intro sb_from_free_all) auto
  moreover have f3: "sb_oldest b3 = sb_oldest b1" "buf_scan_pos b3 = pos" "buf_write_pos b3 = buf_write_pos b" "buf_scan b3 = buf_scan b2"
    by (simp_all add: b3_def f2 keep)
  ultimately have ok3: "sb_ok b3 f" by (simp add: sb_ok_from)
  have h3: "stream_buffer_get_head b3 = buf_write_pos b - pos"
    using sb_head_ok [of b3] ok3 f3 by (simp add: sb_ok_def)
  have "buf_read b3 = buf_scan b3"
    unfolding f3(4) unfolding b3_def by (rule sb_free_all_read) (use f2 tr assms(4) in auto)
  then have "stream_buffer_get_used b3 = stream_buffer_get_head b3"
    by (simp add: stream_buffer_get_used_def stream_buffer_get_head_def)
  then have "sb_guard b3" using h3 f3 by (simp add: sb_guard_def)
  moreover have "stream_buffer_set_pos_seek (set_pos restart buf) s b w pos False = Some (0, s, b3, w)"
    by (simp add: stream_buffer_set_pos_seek_def set_pos_def b1(1) b2_def [symmetric] b3_def [symmetric] Let_def)
  ultimately show ?thesis using ok3 h3 f3 by (auto simp: stream_buffer_get_pos_def)
qed

theorem stream_buffer_set_pos_seek_in_buffer_witness:
  "\<exists>b'. stream_buffer_set_pos_seek (set_pos (\<lambda>_ _ _ _ _. None) (\<lambda>_ _ _ _. None)) undefined sb_three () 1 False = Some (0, undefined, b', ())
    \<and> stream_buffer_get_head b' = 2"
proof -
  have "b_video sb_three" "stream_buffer_get_tail sb_three = 0" by (simp_all add: sb_three_def sb_eval stream_buffer_get_tail_def)
  then show ?thesis
    using stream_buffer_set_pos_seek_in_buffer [OF sb_three_ok, of 1 "\<lambda>_ _ _ _ _. None" "\<lambda>_ _ _ _. None" undefined "()"]
    by (auto simp: sb_three_fields stream_buffer_get_pos_def)
qed

text \<open>A full ring: the window is [3, 7), the scan position 6, and the write cell is 3.\<close>

definition sb_full :: sbuf where
  "sb_full = (sb_empty 4 1)\<lparr>sb_data := [4, 5, 6, 3, 4], buf_write := 3, buf_write_pos := 7, buf_wrap := True, buf_tail := 3,
     buf_scan := 2, buf_scan_pos := 6, buf_end := True\<rparr>"

text \<open>
  Going back to the oldest byte of a full ring is taken as a move inside the buffer, but then the
  scan and the write cell are equal and the buffer counts as empty instead of full.
\<close>

theorem move_back_whole_ring_empty:
  "map_option (\<lambda>(reload, b). (reload, buf_scan_pos b, stream_buffer_get_head b)) (move_in_buffer sb_full 3) = Some (False, 3, 0)
   \<and> stream_buffer_get_tail sb_full = 3"
proof -
  have "rewind_scan (-1) 4 = Some 3" by (simp add: rewind_scan.simps i32_def)
  then show ?thesis
    by (simp add: sb_full_def sb_empty_4_1 move_in_buffer_def stream_buffer_get_pos_def stream_buffer_get_tail_def
        rewind_buf_pos_def stream_buffer_get_head_def Let_def)
qed

text \<open>
  When the input has ended, any later position is taken as one inside the buffer: here position
  9, two bytes behind the last one, after which the buffer offers two bytes.
\<close>

theorem move_past_end:
  "map_option (\<lambda>(reload, b). (reload, buf_scan_pos b, buf_write_pos b, stream_buffer_get_head b)) (move_in_buffer sb_full 9)
   = Some (False, 9, 7, 2)"
proof -
  have "wrap_scan 5 4 = Some 1" using wrap_scan_mod [of 4 5] by (simp add: uw32_def)
  then show ?thesis
    by (simp add: sb_full_def sb_empty_4_1 move_in_buffer_def stream_buffer_get_pos_def stream_buffer_skip_pos_def
        stream_buffer_skip_buf_pos_def stream_buffer_get_head_def Let_def)
qed

end
