(* ===== verification/Stream_Io_File.thy ===== *)
theory Stream_Io_File
  imports Stream_Fill
begin

text \<open>
  The input from a file, Source/stream_io_file.c, with the file functions of Source/file.c that
  it calls. The operating system is a parameter: a record 'k os of open, close, lseek, read, write, errno,
  stat and the abort handler over a state 'k; read gives no bytes for the value -1. The record
  'k fio has the fields of the STREAM_IO and of its FILE_PRIV, together with the state of the
  system; a part of a file that comes in several parts is its size and its padded size. Debug
  output, the debug loop that waits while stream_io_hang is set, the drive and the speed limit are left out.
\<close>

record 'k os =
  os_open :: "'k \<Rightarrow> string \<Rightarrow> int \<Rightarrow> int \<times> 'k"
  os_close :: "'k \<Rightarrow> int \<Rightarrow> 'k"
  os_lseek :: "'k \<Rightarrow> int \<Rightarrow> int \<Rightarrow> int \<times> 'k"
  os_read :: "'k \<Rightarrow> int \<Rightarrow> int \<Rightarrow> u8 list option \<times> 'k"
  os_write :: "'k \<Rightarrow> int \<Rightarrow> u8 list \<Rightarrow> int \<times> 'k"
  os_errno :: "'k \<Rightarrow> int"
  os_stat :: "'k \<Rightarrow> string \<Rightarrow> int option"
  os_abort :: "'k \<Rightarrow> int \<times> 'k"

record 'k fio =
  sys :: 'k
  url :: string
  fd :: int
  mode :: int
  o_direct :: bool
  progressive :: bool
  real_size :: int
  is_open :: bool
  io_pos :: int
  file_size :: int
  num_parts :: int
  parts :: "(int \<times> int) list"
  now_part :: int
  now_start :: int
  now_size :: int
  chunk_size :: int
  stream_io_fail :: bool
  file_real_size :: int


section \<open>Opening and closing\<close>







definition io_close :: "'k os \<Rightarrow> 'k fio \<Rightarrow> int \<times> 'k fio" where
  "io_close os io = (if \<not> is_open io then (1, io)
     else (0, io\<lparr>sys := os_close os (sys io) (fd io), o_direct := False, fd := -1, is_open := False\<rparr>))"

section \<open>Seeking\<close>

text \<open>The part a position is in and where it starts.\<close>

fun find_part :: "(int \<times> int) list \<Rightarrow> int \<Rightarrow> int \<Rightarrow> int \<Rightarrow> int \<times> int" where
  "find_part [] part start pos = (part, start)"
| "find_part ((_, pad) # ps) part start pos =
     (if pos < start + pad then (part, start) else find_part ps (part + 1) (start + pad) pos)"

text \<open>name gives the file of a part (get_part_name).\<close>

definition seek_multi :: "'k os \<Rightarrow> (string \<Rightarrow> int \<Rightarrow> string) \<Rightarrow> 'k fio \<Rightarrow> int \<Rightarrow> int \<times> 'k fio" where
  "seek_multi os name io pos = (let (part, start) = find_part (take (nat (num_parts io)) (parts io)) 0 0 pos in
     if part = num_parts io then (io_pos io, io)
     else let
       io = (if part \<noteq> now_part io then
               (let (h, k) = os_open os (os_close os (sys io) (fd io)) (name (url io) part) (mode io)
                in io\<lparr>sys := k, fd := h, now_part := part, now_start := start, now_size := fst (parts io ! nat part)\<rparr>)
             else io);
       (ret, k) = os_lseek os (sys io) (fd io) (pos - start);
       io = io\<lparr>sys := k, io_pos := pos\<rparr>
       in (start + ret, if io_pos io > file_size io then io\<lparr>file_size := io_pos io\<rparr> else io))"


section \<open>Reading\<close>

definition pad_to_chunk :: "'k fio \<Rightarrow> int \<Rightarrow> int" where
  "pad_to_chunk io n = (if chunk_size io = 0 then n else (n + chunk_size io - 1) sdiv chunk_size io * chunk_size io)"

definition align_direct :: "'k fio \<Rightarrow> int \<Rightarrow> int" where
  "align_direct io n = (if o_direct io then (n + 511) div 512 * 512 else n)"

text \<open>
  The parts one after the other, each filled up with zeros to its padded size. The counts are
  UINT32; when read fails or stores more than was asked for, the memset that fills up starts
  behind the buffer or runs over it (None).
\<close>

partial_function (option) read_multi :: "'k os \<Rightarrow> (string \<Rightarrow> int \<Rightarrow> string) \<Rightarrow> 'k fio \<Rightarrow> u8 list \<Rightarrow> int \<Rightarrow> (u8 list \<times> 'k fio) option" where
  "read_multi os name io acc count = (if count > 0 then
     let rest = uw32 (now_start io + now_size io - io_pos io);
         pad_rest = uw32 (now_start io + pad_to_chunk io (now_size io) - io_pos io);
         to_read = min pad_rest count
     in if rest \<le> 0 then Some (acc, io)
        else (case os_read os (sys io) (fd io) (align_direct io to_read) of
            (None, k) \<Rightarrow> None
          | (Some xs, k) \<Rightarrow>
              if int (length xs) > to_read then None
              else let
                acc = acc @ xs @ replicate (nat to_read - length xs) 0;
                io = io\<lparr>sys := k, io_pos := io_pos io + to_read\<rparr>;
                io = (if to_read = pad_rest then snd (seek_multi os name io (io_pos io)) else io)
                in read_multi os name io acc (count - to_read))
     else Some (acc, io))"



definition file_io_write :: "'k os \<Rightarrow> 'k fio \<Rightarrow> u8 list \<Rightarrow> int \<times> 'k fio" where
  "file_io_write os io xs = (let
     (ret, k) = os_write os (sys io) (fd io) xs;
     io = io\<lparr>sys := k, io_pos := (io_pos io + ret) mod 2 ^ 64\<rparr>
     in (ret, if io_pos io > file_size io then io\<lparr>file_size := io_pos io\<rparr> else io))"

section \<open>What the buffer asks\<close>



section \<open>A plain file as the input of the buffer\<close>















section \<open>Properties of the buffer over a file\<close>











text \<open>A failed read of a part sends the memset that fills up with zeros out of the buffer.\<close>

theorem read_multi_error:
  assumes "os_read os (sys io) (fd io) (align_direct io (min (uw32 (now_start io + pad_to_chunk io (now_size io) - io_pos io)) count)) = (None, k)"
    and "0 < count" "0 < uw32 (now_start io + now_size io - io_pos io)"
  shows "read_multi os name io acc count = None"
  using assms by (subst read_multi.simps) (simp add: Let_def)

end
