(* ===== verification/Stream_Chunks.thy ===== *)
theory Stream_Chunks
  imports Stream_Buffer Pts_Reorder Mpeg2
begin

text \<open>
  The chunks between the parser and the decoders, Source/stream_parser.c: three rings of chunk
  descriptions (audio, video, subtitles), each a STREAM_CHUNK_STORE of max cells of which one stays
  unused, the loops that call the parser of the file format (an argument) and store what it finds, and
  the functions by which the decoders take a chunk with its bytes and release them in the stream
  buffer. The record pst has the fields of the STREAM that these functions use; st are those the stream
  buffer shares. Debug output and sleeping are left out.
\<close>

section \<open>Chunk stores\<close>

record scs =
  sc_c :: "chunk list"
  sc_read :: int
  sc_write :: int
  sc_max :: int

definition CHUNK_MAX_AUD :: int where "CHUNK_MAX_AUD = 2048"
definition CHUNK_MAX_VID :: int where "CHUNK_MAX_VID = 4096"
definition CHUNK_MAX_SUB :: int where "CHUNK_MAX_SUB = 4096"

definition chunk_zero :: chunk where
  "chunk_zero = \<lparr>ck_type = TYPE_NONE, ck_valid = False, ck_key = False, ck_frm_type = 0, ck_pos = 0, ck_buf = 0,
     ck_size = 0, ck_payload_size = 0, ck_frame = 0, ck_time = 0, ck_audio_skip = 0, ck_video_skip = 0,
     ck_buf2 = False, ck_stream = 0, ck_sample_ID = 0\<rparr>"

text \<open>m is the memory that the allocator returns.\<close>

definition alloc_chunk_store :: "int \<Rightarrow> chunk list option \<Rightarrow> scs \<Rightarrow> int \<times> scs" where
  "alloc_chunk_store mx m q = (case m of
     None \<Rightarrow> (1, q\<lparr>sc_max := mx, sc_c := []\<rparr>)
   | Some c \<Rightarrow> (0, q\<lparr>sc_max := mx, sc_c := c\<rparr>))"

definition scs_chunk_num :: "scs \<Rightarrow> int" where
  "scs_chunk_num q = (let n = sc_write q - sc_read q in if n < 0 then n + sc_max q else n)"

definition scs_chunk_max :: "scs \<Rightarrow> int" where
  "scs_chunk_max q = sc_max q - 5"

definition scs_can_add :: "scs \<Rightarrow> bool" where
  "scs_can_add q \<longleftrightarrow> scs_chunk_num q < scs_chunk_max q"

definition scs_clear_chunks :: "scs \<Rightarrow> scs" where
  "scs_clear_chunks q = q\<lparr>sc_read := 0, sc_write := 0, sc_c := map (\<lambda>c. c\<lparr>ck_valid := False\<rparr>) (sc_c q)\<rparr>"

definition scs_put_chunk :: "scs \<Rightarrow> chunk option \<Rightarrow> (int \<times> scs) option" where
  "scs_put_chunk q c =
     (if sc_c q = [] then Some (1, q)
      else do {
        cs \<leftarrow> wr (sc_c q) (sc_write q) ((case c of Some c \<Rightarrow> c | None \<Rightarrow> chunk_zero)\<lparr>ck_valid := True\<rparr>);
        let w = sc_write q + 1;
        Some (0, q\<lparr>sc_c := cs, sc_write := (if w = sc_max q then 0 else w)\<rparr>) })"

text \<open>The chunk is None when nothing was stored.\<close>

definition scs_get_chunk :: "scs \<Rightarrow> (int \<times> chunk option \<times> scs) option" where
  "scs_get_chunk q =
     (if sc_c q = [] then Some (1, Some chunk_zero, q)
      else do {
        c \<leftarrow> rd (sc_c q) (sc_read q);
        (if \<not> ck_valid c then Some (1, None, q)
         else do {
           cs \<leftarrow> wr (sc_c q) (sc_read q) (c\<lparr>ck_valid := False\<rparr>);
           let r = sc_read q + 1;
           Some (0, Some c, q\<lparr>sc_c := cs, sc_read := (if r = sc_max q then 0 else r)\<rparr>) }) })"

definition scs_head_chunk :: "scs \<Rightarrow> chunk option" where
  "scs_head_chunk q = (if sc_c q = [] then Some chunk_zero
     else let h = sc_write q - 1 in rd (sc_c q) (if h < 0 then h + sc_max q else h))"

definition scs_peek_chunk :: "scs \<Rightarrow> chunk option" where
  "scs_peek_chunk q = (if sc_c q = [] then Some chunk_zero else rd (sc_c q) (sc_read q))"

definition scs_peek_n :: "scs \<Rightarrow> int \<Rightarrow> chunk option" where
  "scs_peek_n q n = (let r = sc_read q + n in rd (sc_c q) (if r \<ge> sc_max q then r - sc_max q else r))"

section \<open>The queue a store stands for\<close>

definition scs_cell :: "scs \<Rightarrow> int \<Rightarrow> nat" where
  "scs_cell q i = nat ((sc_read q + i) mod sc_max q)"

definition scs_queue :: "scs \<Rightarrow> chunk list" where
  "scs_queue q = map (\<lambda>i. sc_c q ! scs_cell q (int i)) [0..<nat (scs_chunk_num q)]"

definition scs_ok :: "scs \<Rightarrow> bool" where
  "scs_ok q \<longleftrightarrow> 5 < sc_max q \<and> int (length (sc_c q)) = sc_max q
     \<and> 0 \<le> sc_read q \<and> sc_read q < sc_max q \<and> 0 \<le> sc_write q \<and> sc_write q < sc_max q
     \<and> (\<forall>i. 0 \<le> i \<longrightarrow> i < sc_max q \<longrightarrow> ck_valid (sc_c q ! scs_cell q i) = (i < scs_chunk_num q))"

lemma scs_cell_eq:
  assumes "scs_ok q" "0 \<le> i" "i < sc_max q"
  shows "scs_cell q i = nat (if sc_read q + i < sc_max q then sc_read q + i else sc_read q + i - sc_max q)"
proof -
  have "(sc_read q + i) mod sc_max q = (if sc_read q + i < sc_max q then sc_read q + i else sc_read q + i - sc_max q)"
  proof (cases "sc_read q + i < sc_max q")
    case False
    have "(sc_read q + i) mod sc_max q = (sc_read q + i - sc_max q) mod sc_max q" by simp
    also have "\<dots> = sc_read q + i - sc_max q" using assms False by (intro mod_pos_pos_trivial) (auto simp: scs_ok_def)
    finally show ?thesis using False by simp
  qed (use assms in \<open>auto simp: scs_ok_def\<close>)
  then show ?thesis by (simp add: scs_cell_def)
qed

lemma scs_num_range: "scs_ok q \<Longrightarrow> 0 \<le> scs_chunk_num q \<and> scs_chunk_num q < sc_max q"
  by (auto simp: scs_ok_def scs_chunk_num_def Let_def)

lemma scs_cell_write: "scs_ok q \<Longrightarrow> scs_cell q (scs_chunk_num q) = nat (sc_write q)"
  using scs_num_range [of q] by (subst scs_cell_eq) (auto simp: scs_ok_def scs_chunk_num_def Let_def)

lemma scs_cell_lt: "scs_ok q \<Longrightarrow> 0 \<le> i \<Longrightarrow> i < sc_max q \<Longrightarrow> scs_cell q i < length (sc_c q)"
  by (subst scs_cell_eq) (auto simp: scs_ok_def)

lemma scs_cell_inj:
  assumes "scs_ok q" "0 \<le> i" "i < sc_max q" "0 \<le> j" "j < sc_max q" "scs_cell q i = scs_cell q j"
  shows "i = j"
  using assms(6) unfolding scs_cell_eq [OF assms(1-3)] scs_cell_eq [OF assms(1,4,5)]
  using assms(1-5) by (auto simp: scs_ok_def split: if_splits)

lemma scs_queue_length: "length (scs_queue q) = nat (scs_chunk_num q)"
  by (simp add: scs_queue_def)

lemma scs_queue_nth: "i < nat (scs_chunk_num q) \<Longrightarrow> scs_queue q ! i = sc_c q ! scs_cell q (int i)"
  by (simp add: scs_queue_def)

text \<open>Putting appends, as long as one cell stays free.\<close>

lemma scs_put_chunk_queue:
  assumes "scs_ok q" "scs_chunk_num q < sc_max q - 1"
  shows "\<exists>q'. scs_put_chunk q (Some c) = Some (0, q') \<and> scs_ok q' \<and> scs_queue q' = scs_queue q @ [c\<lparr>ck_valid := True\<rparr>]
    \<and> scs_chunk_num q' = scs_chunk_num q + 1 \<and> sc_max q' = sc_max q"
proof -
  let ?w = "sc_write q" and ?N = "sc_max q" and ?n = "scs_chunk_num q" and ?c = "c\<lparr>ck_valid := True\<rparr>"
  have r: "5 < ?N" "int (length (sc_c q)) = ?N" "0 \<le> sc_read q" "sc_read q < ?N" "0 \<le> ?w" "?w < ?N"
    and v: "\<And>i. 0 \<le> i \<Longrightarrow> i < ?N \<Longrightarrow> ck_valid (sc_c q ! scs_cell q i) = (i < ?n)"
    using assms(1) by (auto simp: scs_ok_def)
  have n: "0 \<le> ?n" "?n < ?N - 1" using scs_num_range [OF assms(1)] assms(2) by auto
  define q' where "q' = q\<lparr>sc_c := (sc_c q)[nat ?w := ?c], sc_write := (if ?w + 1 = ?N then 0 else ?w + 1)\<rparr>"
  have put: "scs_put_chunk q (Some c) = Some (0, q')"
    using r by (auto simp: scs_put_chunk_def wr_def q'_def)
  have cell: "scs_cell q' i = scs_cell q i" for i by (simp add: scs_cell_def q'_def)
  have num: "scs_chunk_num q' = ?n + 1" using r n by (auto simp: scs_chunk_num_def q'_def Let_def split: if_splits)
  have at: "sc_c q' ! scs_cell q i = (if i = ?n then ?c else sc_c q ! scs_cell q i)" if "0 \<le> i" "i < ?N" for i
  proof -
    have "scs_cell q i = nat ?w \<longleftrightarrow> i = ?n"
      using scs_cell_inj [OF assms(1) that, of ?n] scs_cell_write [OF assms(1)] n by auto
    then show ?thesis using r scs_cell_lt [OF assms(1) that] by (auto simp: q'_def nth_list_update)
  qed
  have "scs_ok q'"
    unfolding scs_ok_def num cell
  proof (intro conjI allI impI)
    fix i assume i: "0 \<le> i" "i < sc_max q'"
    then have "i < ?N" by (simp add: q'_def)
    then show "ck_valid (sc_c q' ! scs_cell q i) = (i < ?n + 1)" using at [OF i(1)] v [OF i(1)] by auto
  qed (use r in \<open>auto simp: q'_def\<close>)
  moreover have "scs_queue q' = scs_queue q @ [?c]"
  proof -
    have "nat (?n + 1) = Suc (nat ?n)" using n by simp
    moreover have "map (\<lambda>i. sc_c q' ! scs_cell q (int i)) [0..<nat ?n] = map (\<lambda>i. sc_c q ! scs_cell q (int i)) [0..<nat ?n]"
      using at n by (intro map_cong) auto
    moreover have "sc_c q' ! scs_cell q (int (nat ?n)) = ?c" using at [of ?n] n by simp
    ultimately show ?thesis by (simp add: scs_queue_def num cell)
  qed
  moreover have "sc_max q' = ?N" by (simp add: q'_def)
  ultimately show ?thesis using put num by blast
qed

text \<open>Getting takes the oldest chunk.\<close>

lemma scs_get_chunk_empty: "scs_ok q \<Longrightarrow> scs_queue q = [] \<Longrightarrow> scs_get_chunk q = Some (1, None, q)"
proof -
  assume a: "scs_ok q" "scs_queue q = []"
  have "scs_chunk_num q = 0" using a(2) scs_queue_length [of q] scs_num_range [OF a(1)] by simp
  then have "\<not> ck_valid (sc_c q ! scs_cell q 0)" using a(1) by (auto simp: scs_ok_def)
  moreover have "scs_cell q 0 = nat (sc_read q)" using a(1) by (auto simp: scs_cell_def scs_ok_def)
  ultimately show ?thesis using a(1) by (auto simp: scs_get_chunk_def scs_ok_def rd_def)
qed

lemma scs_get_chunk_queue:
  assumes "scs_ok q" "scs_queue q = c # cs"
  shows "\<exists>q'. scs_get_chunk q = Some (0, Some c, q') \<and> scs_ok q' \<and> scs_queue q' = cs \<and> sc_max q' = sc_max q
    \<and> scs_chunk_num q' = scs_chunk_num q - 1 \<and> ck_valid c"
proof -
  let ?r = "sc_read q" and ?N = "sc_max q" and ?n = "scs_chunk_num q"
  have r: "5 < ?N" "int (length (sc_c q)) = ?N" "0 \<le> ?r" "?r < ?N" "0 \<le> sc_write q" "sc_write q < ?N"
    and v: "\<And>i. 0 \<le> i \<Longrightarrow> i < ?N \<Longrightarrow> ck_valid (sc_c q ! scs_cell q i) = (i < ?n)"
    using assms(1) by (auto simp: scs_ok_def)
  have n: "0 < ?n" "?n < ?N" using assms(2) scs_queue_length [of q] scs_num_range [OF assms(1)] by auto
  have c0: "scs_cell q 0 = nat ?r" using r by (auto simp: scs_cell_def)
  have c: "sc_c q ! nat ?r = c" using scs_queue_nth [of 0 q] n assms(2) c0 by simp
  define q' where "q' = q\<lparr>sc_c := (sc_c q)[nat ?r := c\<lparr>ck_valid := False\<rparr>], sc_read := (if ?r + 1 = ?N then 0 else ?r + 1)\<rparr>"
  have cv: "ck_valid c" using v [of 0] n c c0 r by simp
  have get: "scs_get_chunk q = Some (0, Some c, q')"
    using r c cv by (auto simp: scs_get_chunk_def rd_def wr_def q'_def)
  have num: "scs_chunk_num q' = ?n - 1" using r n by (auto simp: scs_chunk_num_def q'_def Let_def split: if_splits)
  have cell: "scs_cell q' i = scs_cell q (i + 1)" for i
  proof -
    have "((if ?r + 1 = ?N then 0 else ?r + 1) + i) mod ?N = (?r + (i + 1)) mod ?N"
    proof (cases "?r + 1 = ?N")
      case True
      then have e: "?r + (i + 1) = i + ?N" by simp
      show ?thesis by (simp only: e True if_True) simp
    qed (simp add: algebra_simps)
    then show ?thesis by (simp add: scs_cell_def q'_def)
  qed
  have wrap: "scs_cell q ?N = nat ?r" using r by (simp add: scs_cell_def)
  have at: "sc_c q' ! scs_cell q i = sc_c q ! scs_cell q i" if "0 < i" "i < ?N" for i
  proof -
    have "scs_cell q i \<noteq> nat ?r" using scs_cell_inj [OF assms(1), of i 0] that c0 by auto
    then show ?thesis by (simp add: q'_def)
  qed
  have "scs_ok q'"
    unfolding scs_ok_def num cell
  proof (intro conjI allI impI)
    fix i assume i: "0 \<le> i" "i < sc_max q'"
    have N: "sc_max q' = ?N" by (simp add: q'_def)
    show "ck_valid (sc_c q' ! scs_cell q (i + 1)) = (i < ?n - 1)"
    proof (cases "i + 1 = ?N")
      case True
      have "\<not> ck_valid (sc_c q' ! nat ?r)" using r by (simp add: q'_def)
      then show ?thesis using True wrap n by simp
    next
      case False
      then show ?thesis using at [of "i + 1"] v [of "i + 1"] i N by auto
    qed
  qed (use r in \<open>auto simp: q'_def\<close>)
  moreover have "scs_queue q' = cs"
  proof (rule nth_equalityI)
    have l: "length (scs_queue q) = nat ?n" by (rule scs_queue_length)
    then show len: "length (scs_queue q') = length cs" using assms(2) num n by (simp add: scs_queue_length)
    fix i assume "i < length (scs_queue q')"
    then have i: "i < nat (?n - 1)" by (simp add: scs_queue_length num)
    have "scs_queue q' ! i = sc_c q' ! scs_cell q (int i + 1)" using i num by (simp add: scs_queue_nth cell)
    also have "\<dots> = scs_queue q ! Suc i" using i n at [of "int i + 1"] by (simp add: scs_queue_nth add.commute)
    finally show "scs_queue q' ! i = cs ! i" using assms(2) by simp
  qed
  moreover have "sc_max q' = ?N" by (simp add: q'_def)
  ultimately show ?thesis using get num cv by blast
qed

lemma scs_clear_ok:
  assumes "5 < sc_max q" "int (length (sc_c q)) = sc_max q"
  shows "scs_ok (scs_clear_chunks q)" "scs_queue (scs_clear_chunks q) = []"
proof -
  have n: "scs_chunk_num (scs_clear_chunks q) = 0" by (simp add: scs_chunk_num_def scs_clear_chunks_def)
  then show "scs_queue (scs_clear_chunks q) = []" by (simp add: scs_queue_def)
  show "scs_ok (scs_clear_chunks q)"
    unfolding scs_ok_def n
    using assms by (auto simp: scs_clear_chunks_def scs_cell_def)
qed

lemma scs_peek_n_queue:
  assumes "scs_ok q" "i < length (scs_queue q)"
  shows "scs_peek_n q (int i) = Some (scs_queue q ! i)"
proof -
  have i: "int i < sc_max q" "i < nat (scs_chunk_num q)"
    using assms scs_num_range [OF assms(1)] by (auto simp: scs_queue_length)
  have "scs_cell q (int i) = nat (if sc_read q + int i < sc_max q then sc_read q + int i else sc_read q + int i - sc_max q)"
    using scs_cell_eq [OF assms(1), of "int i"] i by simp
  then show ?thesis using assms(1) i scs_queue_nth [OF i(2)] by (auto simp: scs_peek_n_def rd_def scs_ok_def Let_def)
qed

lemma scs_peek_chunk_queue: "scs_ok q \<Longrightarrow> scs_queue q = c # cs \<Longrightarrow> scs_peek_chunk q = Some c"
  using scs_peek_n_queue [of q 0] by (auto simp: scs_peek_chunk_def scs_peek_n_def scs_ok_def split: if_splits)

section \<open>The state of the parser\<close>

record pst =
  st :: strm
  pbuf :: sbuf
  pbuf2 :: sbuf
  aud :: scs
  vid :: scs
  subs :: scs
  ro_ctx :: "pts_ro option"
  video_valid :: bool
  subtitle_valid :: bool
  sub_stream :: int
  video_time :: int
  video_pos :: int
  audio_time :: int
  audio_pos :: int
  vid_last :: int
  aud_last :: int
  time_parsed :: int
  current_rate :: int
  parser_live :: bool
  parser_halt :: bool
  parser_video_discon :: bool
  parser_audio_discon :: bool
  video_parse_end :: bool
  audio_parse_end :: bool
  ignore_chunks :: bool

definition stream_parser_clear_rate :: "pst \<Rightarrow> pst" where
  "stream_parser_clear_rate s = s\<lparr>st := (st s)\<lparr>vtime_parsed := 0, acurrent_rate := 0, vcurrent_rate := 0\<rparr>\<rparr>"

definition stream_parser_clear_video_chunks :: "pst \<Rightarrow> pst" where
  "stream_parser_clear_video_chunks s = s\<lparr>ro_ctx := map_option pts_ro_init (ro_ctx s), vid := scs_clear_chunks (vid s)\<rparr>"

definition stream_parser_clear_chunks :: "pst \<Rightarrow> pst" where
  "stream_parser_clear_chunks s = stream_parser_clear_rate
     ((stream_parser_clear_video_chunks (s\<lparr>aud := scs_clear_chunks (aud s)\<rparr>))\<lparr>subs := scs_clear_chunks (subs s)\<rparr>)"

definition stream_parser_can_add_chunks :: "pst \<Rightarrow> bool" where
  "stream_parser_can_add_chunks s \<longleftrightarrow> scs_can_add (aud s) \<and> scs_can_add (vid s) \<and> scs_can_add (subs s)"

definition stream_parser_put_audio_chunk :: "pst \<Rightarrow> chunk \<Rightarrow> pst option" where
  "stream_parser_put_audio_chunk s c = do { (_, q) \<leftarrow> scs_put_chunk (aud s) (Some c); Some (s\<lparr>aud := q\<rparr>) }"

definition stream_parser_put_video_chunk :: "pst \<Rightarrow> chunk \<Rightarrow> pst option" where
  "stream_parser_put_video_chunk s c = do {
     r \<leftarrow> (case ro_ctx s of None \<Rightarrow> Some None | Some r \<Rightarrow> map_option Some (pts_ro_put r (ck_time c)));
     (_, q) \<leftarrow> scs_put_chunk (vid s) (Some c);
     Some (s\<lparr>ro_ctx := r, vid := q\<rparr>) }"

definition stream_parser_put_subtitle_chunk :: "pst \<Rightarrow> chunk \<Rightarrow> pst option" where
  "stream_parser_put_subtitle_chunk s c = do { (_, q) \<leftarrow> scs_put_chunk (subs s) (Some c); Some (s\<lparr>subs := q\<rparr>) }"

definition stream_parser_get_audio_chunk :: "pst \<Rightarrow> (int \<times> chunk option \<times> pst) option" where
  "stream_parser_get_audio_chunk s = do { (r, c, q) \<leftarrow> scs_get_chunk (aud s); Some (r, c, s\<lparr>aud := q\<rparr>) }"

definition stream_parser_get_subtitle_chunk :: "pst \<Rightarrow> (int \<times> chunk option \<times> pst) option" where
  "stream_parser_get_subtitle_chunk s = do { (r, c, q) \<leftarrow> scs_get_chunk (subs s); Some (r, c, s\<lparr>subs := q\<rparr>) }"

text \<open>A video chunk leaves with the smallest time stamp that is waiting.\<close>

definition stream_parser_get_video_chunk :: "pst \<Rightarrow> (int \<times> chunk option \<times> pst) option" where
  "stream_parser_get_video_chunk s = do {
     (ret, c, q) \<leftarrow> scs_get_chunk (vid s);
     let s = s\<lparr>vid := q\<rparr>;
     (case ro_ctx s of
        Some r \<Rightarrow>
          if ret = 0 then do {
            (t, r) \<leftarrow> pts_ro_get r;
            Some (ret, if t \<noteq> -1 then map_option (\<lambda>c. c\<lparr>ck_time := t\<rparr>) c else c, s\<lparr>ro_ctx := Some r\<rparr>) }
          else Some (ret, c, s)
      | None \<Rightarrow> Some (ret, c, s)) }"

section \<open>Parsing\<close>

definition stream_parser_add_chunk :: "pst \<Rightarrow> chunk \<Rightarrow> (int \<times> pst) option" where
  "stream_parser_add_chunk s c =
     (if ck_type c \<noteq> NO_CHUNK \<and> \<not> ignore_chunks s then do {
        s \<leftarrow> (if ck_type c = TYPE_VID \<and> video_valid s then stream_parser_put_video_chunk s c
             else if ck_type c = TYPE_AUD \<and> audio_valid (st s) then stream_parser_put_audio_chunk s c
             else if ck_type c = TYPE_SUBT \<and> subtitle_valid s then stream_parser_put_subtitle_chunk s c
             else Some s);
        Some (0, s) }
      else Some (1, s))"

definition stream_parser_can_parse :: "strm \<Rightarrow> sbuf \<Rightarrow> bool \<times> bool" where
  "stream_parser_can_parse s b =
     (if stream_buffer_get_head b < parser_mindata_size s then
        if \<not> buf_end b then (False, False) else (True, flag_no_wrap b)
      else (True, False))"

type_synonym parse_chunk = "pst \<Rightarrow> int \<times> chunk \<times> pst"

definition stream_parser_max :: nat where "stream_parser_max = 5"

text \<open>The loop of stream_parser_parse, n rounds; whether it ended with an error.\<close>

fun parse_rounds :: "parse_chunk \<Rightarrow> nat \<Rightarrow> pst \<Rightarrow> (bool \<times> pst) option" where
  "parse_rounds parse 0 s = Some (False, s)"
| "parse_rounds parse (Suc n) s =
     (if \<not> stream_parser_can_add_chunks s \<or> video_parse_end s then Some (False, s)
      else case stream_parser_can_parse (st s) (pbuf s) of
        (True, True) \<Rightarrow> Some (True, s)
      | (True, False) \<Rightarrow> (case parse s of (err, c, s) \<Rightarrow> do {
          (_, s) \<leftarrow> stream_parser_add_chunk s c;
          (if err \<noteq> 0 then Some (True, s) else parse_rounds parse n s) })
      | (False, e) \<Rightarrow> Some (e, s))"

definition stream_parser_parse :: "parse_chunk \<Rightarrow> pst \<Rightarrow> pst option" where
  "stream_parser_parse parse s = do {
     (err, s) \<leftarrow> parse_rounds parse stream_parser_max s;
     Some (if err then s\<lparr>video_parse_end := True, audio_parse_end := True\<rparr> else s) }"

text \<open>Files that are not interleaved: video from the first buffer, audio from the second.\<close>

fun video_rounds :: "parse_chunk \<Rightarrow> nat \<Rightarrow> pst \<Rightarrow> (bool \<times> pst) option" where
  "video_rounds parse 0 s = Some (False, s)"
| "video_rounds parse (Suc n) s =
     (if \<not> scs_can_add (vid s) \<or> video_parse_end s then Some (False, s)
      else case stream_parser_can_parse (st s) (pbuf s) of
        (True, _) \<Rightarrow> (case parse s of (err, c, s) \<Rightarrow> do {
          (_, s) \<leftarrow> stream_parser_add_chunk s c;
          (if err \<noteq> 0 then Some (True, s) else video_rounds parse n s) })
      | (False, e) \<Rightarrow> Some (e, s))"

fun audio_rounds :: "parse_chunk \<Rightarrow> nat \<Rightarrow> pst \<Rightarrow> pst option" where
  "audio_rounds parse 0 s = Some s"
| "audio_rounds parse (Suc n) s =
     (if \<not> scs_can_add (aud s) \<or> audio_parse_end s then Some s
      else if stream_buffer_get_head (pbuf2 s) \<ge> 128 * 1024 \<or> buf_end (pbuf2 s) then
        (case parse s of (err, c, s) \<Rightarrow> do {
          (_, s) \<leftarrow> stream_parser_add_chunk s c;
          (if err \<noteq> 0 then Some (s\<lparr>audio_parse_end := True\<rparr>) else audio_rounds parse n s) })
      else Some s)"

definition stream_parser_parse_not_interleaved :: "parse_chunk \<Rightarrow> parse_chunk \<Rightarrow> pst \<Rightarrow> pst option" where
  "stream_parser_parse_not_interleaved parse_video parse_audio s = do {
     (err, s) \<leftarrow> video_rounds parse_video 5 s;
     let s = (if err then s\<lparr>video_parse_end := True\<rparr> else s);
     (if audio_valid (st s) then audio_rounds parse_audio 5 s else Some s) }"

section \<open>How much is parsed\<close>

text \<open>
  The search for the first chunk behind the reading position that has a time (only when the
  track has none yet), and for the last one, whose time was not seen in the call before. The
  second starts one behind the last chunk.
\<close>

function find_tail :: "scs \<Rightarrow> int \<Rightarrow> int \<Rightarrow> int \<Rightarrow> int \<Rightarrow> (int \<times> int \<times> int) option" where
  "find_tail q head_num n t p =
     (if n < head_num then do {
        c \<leftarrow> scs_peek_n q n;
        (if ck_valid c \<and> ck_time c \<noteq> -1 then Some (n, ck_time c, ck_pos c) else find_tail q head_num (n + 1) t p) }
      else Some (n, t, p))"
  by pat_completeness auto
termination by (relation "measure (\<lambda>(q, h, n, t, p). nat (h - n))") auto

function find_head :: "scs \<Rightarrow> int \<Rightarrow> int \<Rightarrow> int \<Rightarrow> chunk option option" where
  "find_head q tail_num seen n =
     (if n > tail_num then do {
        c \<leftarrow> scs_peek_n q n;
        (if ck_valid c \<and> ck_time c \<noteq> -1 \<and> ck_time c \<noteq> seen then Some (Some c)
         else find_head q tail_num seen (n - 1)) }
      else Some None)"
  by pat_completeness auto
termination by (relation "measure (\<lambda>(q, t, l, n). nat (n - t))") auto

declare find_tail.simps [simp del] find_head.simps [simp del]

text \<open>The time parsed, the rate in bytes per second and the last time of a track, from its old values.\<close>

definition calc_rate_track :: "scs \<Rightarrow> bool \<Rightarrow> int \<Rightarrow> int \<Rightarrow> int \<times> int \<times> int \<Rightarrow> (int \<times> int \<times> int) option" where
  "calc_rate_track q valid t p old = (case old of (tp, rt, seen) \<Rightarrow>
     let n = scs_chunk_num q in
     if \<not> valid \<or> n = 0 then Some (0, 0, seen)
     else do {
       (tail_num, tail_time, tail_pos) \<leftarrow> (if t = -1 then find_tail q n 1 t p else Some (1, t, p));
       h \<leftarrow> find_head q tail_num seen n;
       Some (case h of None \<Rightarrow> (tp, rt, seen)
         | Some c \<Rightarrow>
             (let diff = ck_pos c - tail_pos;
                  tp = (if ck_time c > tail_time then i32 (ck_time c - tail_time) else 0)
              in (tp, if tp \<noteq> 0 \<and> diff > 0 then i32 (diff * 1000 div (tp mod 2 ^ 64)) else 0, ck_time c))) })"

definition stream_parser_calc_rate :: "pst \<Rightarrow> pst option" where
  "stream_parser_calc_rate s = do {
     (vt, vr, vl) \<leftarrow> calc_rate_track (vid s) (video_valid s) (video_time s) (video_pos s)
       (vtime_parsed (st s), vcurrent_rate (st s), vid_last s);
     (at, ar, al) \<leftarrow> calc_rate_track (aud s) (audio_valid (st s)) (audio_time s) (audio_pos s)
       (atime_parsed (st s), acurrent_rate (st s), aud_last s);
     let s = s\<lparr>st := (st s)\<lparr>vtime_parsed := vt, vcurrent_rate := vr, atime_parsed := at, acurrent_rate := ar\<rparr>,
       vid_last := vl, aud_last := al\<rparr>;
     Some (if audio_valid (st s) \<and> video_valid s then s\<lparr>time_parsed := min vt at, current_rate := max vr ar\<rparr>
           else if audio_valid (st s) then s\<lparr>time_parsed := at, current_rate := ar\<rparr>
           else s\<lparr>time_parsed := vt, current_rate := vr\<rparr>) }"

text \<open>A live stream is halted while less than 200 ms are parsed and goes on at 500 ms or full stores.\<close>

definition stream_parser_can_output :: "pst \<Rightarrow> bool \<times> pst" where
  "stream_parser_can_output s =
     (if \<not> parser_live s then (True, s)
      else if \<not> video_valid s \<or> \<not> audio_valid (st s) then (True, s)
      else let s =
        (if time_parsed s < 200 then
           if \<not> parser_halt s then s\<lparr>parser_halt := True\<rparr> else s
         else if \<not> stream_parser_can_add_chunks s \<or> time_parsed s > 500 then
           if parser_halt s then s\<lparr>parser_halt := False, parser_video_discon := True, parser_audio_discon := True\<rparr> else s
         else s)
        in (\<not> parser_halt s, s))"

definition INT_MAX :: int where "INT_MAX = 2 ^ 31 - 1"

text \<open>
  The duration of a frame in ms from the time stamps of the first chunks. The loop runs until 21 video chunks
  were seen or nothing more can be parsed; abort says whether the user aborted.
\<close>

partial_function (option) guess_loop :: "parse_chunk \<Rightarrow> (pst \<Rightarrow> bool) \<Rightarrow> pst \<Rightarrow> int \<Rightarrow> int \<Rightarrow> int \<Rightarrow> int \<Rightarrow> (pst \<times> int \<times> int) option" where
  "guess_loop parse abort s prev seen mn g =
     (if abort s \<or> \<not> stream_parser_can_add_chunks s \<or> \<not> fst (stream_parser_can_parse (st s) (pbuf s)) then Some (s, mn, g)
      else case parse s of (err, c, s) \<Rightarrow>
        if err \<noteq> 0 \<or> video_parse_end s \<or> audio_parse_end s then Some (s, mn, g)
        else do {
          (_, s) \<leftarrow> stream_parser_add_chunk s c;
          (if ck_type c = TYPE_VID then
             (let diff = \<bar>i32 (ck_time c - prev)\<bar>;
                  (mn, g) = (if prev \<noteq> -1 \<and> seen > 2 \<and> diff \<noteq> 0 then (min diff mn, av_gcd g diff) else (mn, g))
              in if seen = 20 then Some (s, mn, g) else guess_loop parse abort s (ck_time c) (seen + 1) mn g)
           else guess_loop parse abort s prev seen mn g) })"

definition stream_parser_guess_msPerFrame :: "parse_chunk \<Rightarrow> (pst \<Rightarrow> bool) \<Rightarrow> pst \<Rightarrow> (int \<times> pst) option" where
  "stream_parser_guess_msPerFrame parse abort s = do {
     (s, mn, g) \<leftarrow> guess_loop parse abort s (-1) 0 INT_MAX 0;
     Some (if g > 1 then g else if mn \<noteq> INT_MAX then mn else 40, s) }"

section \<open>What the decoders get\<close>

text \<open>The fields of STREAM_CDATA that are set here.\<close>

record cdata =
  cd_valid :: bool
  cd_type :: chunk_type
  cd_size :: int
  cd_time :: int
  cd_key :: bool
  cd_frm_type :: int
  cd_frame :: int
  cd_pos :: int

definition stream_CDATA_from_SC :: "chunk \<Rightarrow> cdata" where
  "stream_CDATA_from_SC c = \<lparr>cd_valid = False, cd_type = ck_type c, cd_size = ck_size c, cd_time = ck_time c,
     cd_key = ck_key c, cd_frm_type = ck_frm_type c, cd_frame = ck_frame c, cd_pos = ck_pos c\<rparr>"

text \<open>A CLEVER_BUFFER is its data; it grows by doubling. m says whether the allocator returns memory.\<close>

function grow_size :: "int \<Rightarrow> int \<Rightarrow> int" where
  "grow_size n mn = (if 0 < n \<and> n < mn then grow_size (n * 2) mn else n)"
  by pat_completeness auto
termination by (relation "measure (\<lambda>(n, mn). nat (mn - n))") auto

declare grow_size.simps [simp del]

definition realloc_clever_buffer :: "u8 list \<Rightarrow> int \<Rightarrow> bool \<Rightarrow> u8 list option" where
  "realloc_clever_buffer d mn m =
     (let n = grow_size (if d \<noteq> [] then int (length d) else 1) mn
      in if m then Some (d @ replicate (nat n - length d) 0) else None)"

text \<open>The copy of MSAUDIO2, in blocks of al bytes.\<close>

function copy_blocks :: "u8 list \<Rightarrow> u8 list \<Rightarrow> int \<Rightarrow> int \<Rightarrow> int \<Rightarrow> int \<Rightarrow> u8 list option" where
  "copy_blocks dst src d p n al =
     (if n > 0 \<and> al > 0 then do {
        xs \<leftarrow> rd_blk src p (min n al);
        dst \<leftarrow> wr_blk dst d xs;
        copy_blocks dst src (d + min n al) (p + min n al) (n - min n al) al }
      else if n > 0 then None else Some dst)"
  by pat_completeness auto
termination by (relation "measure (\<lambda>(dst, src, d, p, n, al). nat n)") auto

declare copy_blocks.simps [simp del]

definition set_chunk_buffer :: "pst \<Rightarrow> chunk \<Rightarrow> sbuf \<Rightarrow> pst" where
  "set_chunk_buffer s c b = (if ck_buf2 c then s\<lparr>pbuf2 := b\<rparr> else s\<lparr>pbuf := b\<rparr>)"

definition chunk_buffer :: "pst \<Rightarrow> chunk \<Rightarrow> sbuf" where
  "chunk_buffer s c = (if ck_buf2 c then pbuf2 s else pbuf s)"

text \<open>
  The next audio chunk with its bytes, into the buffer d of the decoder; blocks is the block size of
  MSAUDIO2 and None for the other formats, m what the allocator says.
\<close>

definition stream_parser_get_audio_cdata :: "pst \<Rightarrow> u8 list \<Rightarrow> cdata \<Rightarrow> int option \<Rightarrow> bool \<Rightarrow> (int \<times> u8 list \<times> cdata \<times> pst) option" where
  "stream_parser_get_audio_cdata s d cd blocks m =
     (if cd_valid cd then Some (0, d, cd, s)
      else do {
        (r, c, s) \<leftarrow> stream_parser_get_audio_chunk s;
        (case (if r = 0 then c else None) of
          Some c \<Rightarrow>
            (case (if int (length d) < ck_size c + 128 then realloc_clever_buffer d (ck_size c + 128) m else Some d) of
               None \<Rightarrow> Some (1, d, cd, s)
             | Some d \<Rightarrow> (let cd = stream_CDATA_from_SC c; b = chunk_buffer s c in do {
                 d \<leftarrow> (case blocks of
                    Some al \<Rightarrow> copy_blocks d (sb_data b) 0 (ck_buf c) (ck_size c) al
                  | None \<Rightarrow> do { xs \<leftarrow> rd_blk (sb_data b) (ck_buf c) (cd_size cd); wr_blk d 0 xs });
                 Some (0, d, cd\<lparr>cd_valid := True\<rparr>, set_chunk_buffer s c (stream_buffer_free_data b c)) }))
        | None \<Rightarrow> Some (1, d, cd, s)) })"

definition stream_parser_get_subtitle_cdata :: "pst \<Rightarrow> u8 list \<Rightarrow> cdata \<Rightarrow> bool \<Rightarrow> (int \<times> u8 list \<times> cdata \<times> pst) option" where
  "stream_parser_get_subtitle_cdata s d cd m =
     (if cd_valid cd then Some (0, d, cd, s)
      else do {
        (r, c, s) \<leftarrow> stream_parser_get_subtitle_chunk s;
        (case (if r = 0 then c else None) of
          Some c \<Rightarrow>
            (let b = chunk_buffer s c in
             if ck_stream c \<noteq> sub_stream s
             then Some (0, d, cd, set_chunk_buffer s c (stream_buffer_free_data b c))
             else
              (case (if int (length d) < ck_size c then realloc_clever_buffer d (ck_size c) m else Some d) of
                 None \<Rightarrow> Some (1, d, cd, s)
               | Some d \<Rightarrow> (let cd = stream_CDATA_from_SC c in do {
                   xs \<leftarrow> rd_blk (sb_data b) (ck_buf c) (cd_size cd);
                   d \<leftarrow> wr_blk d 0 xs;
                   Some (0, d, cd\<lparr>cd_valid := True\<rparr>, set_chunk_buffer s c (stream_buffer_free_data b c)) })))
        | None \<Rightarrow> Some (1, d, cd, s)) })"

section \<open>Catching up\<close>

text \<open>The last key frame up to a time: its number in the queue and its time, the number 0 when there is none.\<close>

function key_frame_loop :: "scs \<Rightarrow> int \<Rightarrow> int \<Rightarrow> int \<Rightarrow> int \<times> int \<Rightarrow> (int \<times> int) option" where
  "key_frame_loop q mx n i best =
     (if i < n then do {
        c \<leftarrow> scs_peek_n q i;
        (if ck_time c > mx then Some best
         else key_frame_loop q mx n (i + 1) (if ck_key c then (i, ck_time c) else best)) }
      else Some best)"
  by pat_completeness auto
termination by (relation "measure (\<lambda>(q, m, n, i, b). nat (n - i))") auto

declare key_frame_loop.simps [simp del]

definition stream_parser_find_key_frame :: "pst \<Rightarrow> int \<Rightarrow> (int \<times> int option) option" where
  "stream_parser_find_key_frame s mx = do {
     (i, t) \<leftarrow> key_frame_loop (vid s) mx (scs_chunk_num (vid s)) 1 (0, 0);
     Some (if t \<noteq> 0 then (i, Some t) else (0, None)) }"

partial_function (option) stream_parser_drop_video :: "pst \<Rightarrow> int \<Rightarrow> int \<Rightarrow> (int \<times> pst) option" where
  "stream_parser_drop_video s t dropped = do {
     c \<leftarrow> scs_peek_chunk (vid s);
     (if \<not> ck_valid c then Some (dropped, s)
      else if ck_time c < t then do {
        (_, c', s) \<leftarrow> stream_parser_get_video_chunk s;
        stream_parser_drop_video (s\<lparr>pbuf := stream_buffer_free_data (pbuf s) (case c' of None \<Rightarrow> c | Some c' \<Rightarrow> c')\<rparr>) t (dropped + 1) }
      else Some (dropped, s)) }"

section \<open>Properties\<close>

text \<open>
  C8. A chunk store is a queue. Under the invariant of a store (the valid cells are those
  between read and write), putting a chunk appends it as long as two cells are free, getting from an
  empty store reports an error and changes nothing, getting otherwise returns the oldest chunk
  and removes it, and the n-th chunk can be looked at; clearing empties the store. Every operation keeps the invariant.
\<close>

theorem chunk_store_is_queue:
  assumes "scs_ok q"
  shows "(scs_chunk_num q < sc_max q - 1 \<longrightarrow>
      (\<exists>q'. scs_put_chunk q (Some c) = Some (0, q') \<and> scs_ok q' \<and> scs_queue q' = scs_queue q @ [c\<lparr>ck_valid := True\<rparr>]))
    \<and> (case scs_queue q of
        [] \<Rightarrow> scs_get_chunk q = Some (1, None, q)
      | h # t \<Rightarrow> (\<exists>q'. scs_get_chunk q = Some (0, Some h, q') \<and> scs_ok q' \<and> scs_queue q' = t))
    \<and> (\<forall>n<length (scs_queue q). scs_peek_n q (int n) = Some (scs_queue q ! n))
    \<and> scs_ok (scs_clear_chunks q) \<and> scs_queue (scs_clear_chunks q) = []"
proof (intro conjI allI impI)
  show "scs_ok (scs_clear_chunks q)" "scs_queue (scs_clear_chunks q) = []"
    using scs_clear_ok [of q] assms by (simp_all add: scs_ok_def)
  show "case scs_queue q of [] \<Rightarrow> scs_get_chunk q = Some (1, None, q)
      | h # t \<Rightarrow> (\<exists>q'. scs_get_chunk q = Some (0, Some h, q') \<and> scs_ok q' \<and> scs_queue q' = t)"
    using scs_get_chunk_empty [OF assms] scs_get_chunk_queue [OF assms] by (auto split: list.split)
qed (use scs_put_chunk_queue [OF assms, of c] scs_peek_n_queue [OF assms] in blast)+

definition scs_new :: "nat \<Rightarrow> scs" where
  "scs_new n = scs_clear_chunks \<lparr>sc_c = replicate n chunk_zero, sc_read = 0, sc_write = 0, sc_max = int n\<rparr>"

lemma scs_new_ok: "5 < n \<Longrightarrow> scs_ok (scs_new n) \<and> scs_queue (scs_new n) = [] \<and> scs_chunk_num (scs_new n) = 0 \<and> sc_max (scs_new n) = int n"
  unfolding scs_new_def
  using scs_clear_ok [of "\<lparr>sc_c = replicate n chunk_zero, sc_read = 0, sc_write = 0, sc_max = int n\<rparr>"]
  by (simp add: scs_chunk_num_def scs_clear_chunks_def)

theorem chunk_store_is_queue_witness:
  "\<exists>q'. scs_put_chunk (scs_new 8) (Some chunk_zero) = Some (0, q') \<and> scs_queue q' = [chunk_zero\<lparr>ck_valid := True\<rparr>]"
  using chunk_store_is_queue [of "scs_new 8" chunk_zero] scs_new_ok [of 8] by auto

text \<open>The stores of a stream, and a reordering buffer that can take a stamp per video chunk.\<close>

definition stores_ok :: "pst \<Rightarrow> bool" where
  "stores_ok s \<longleftrightarrow> scs_ok (aud s) \<and> scs_ok (vid s) \<and> scs_ok (subs s)
     \<and> (case ro_ctx s of None \<Rightarrow> True
        | Some r \<Rightarrow> run r \<longrightarrow> pts_ok r \<and> num r \<le> scs_chunk_num (vid s) \<and> sc_max (vid s) \<le> int (length (ts r)))"

text \<open>A parser of a file format leaves the stores to the code here.\<close>

definition leaves_stores :: "parse_chunk \<Rightarrow> bool" where
  "leaves_stores parse \<longleftrightarrow> (\<forall>s. case parse s of (_, _, s') \<Rightarrow>
     aud s' = aud s \<and> vid s' = vid s \<and> subs s' = subs s \<and> ro_ctx s' = ro_ctx s)"

lemma scs_can_add_room: "scs_can_add q \<Longrightarrow> scs_chunk_num q < sc_max q - 1"
  by (simp add: scs_can_add_def scs_chunk_max_def)

lemma put_video_chunk_ok:
  assumes "stores_ok s" "scs_can_add (vid s)"
  shows "\<exists>s'. stream_parser_put_video_chunk s c = Some s' \<and> stores_ok s' \<and> scs_queue (vid s') = scs_queue (vid s) @ [c\<lparr>ck_valid := True\<rparr>]
    \<and> aud s' = aud s \<and> subs s' = subs s \<and> pbuf s' = pbuf s \<and> pbuf2 s' = pbuf2 s \<and> st s' = st s"
proof -
  have v: "scs_ok (vid s)" using assms(1) by (simp add: stores_ok_def)
  obtain q where q: "scs_put_chunk (vid s) (Some c) = Some (0, q)" "scs_ok q" "scs_queue q = scs_queue (vid s) @ [c\<lparr>ck_valid := True\<rparr>]"
    "scs_chunk_num q = scs_chunk_num (vid s) + 1" "sc_max q = sc_max (vid s)"
    using scs_put_chunk_queue [OF v scs_can_add_room [OF assms(2)]] by blast
  show ?thesis
  proof (cases "ro_ctx s")
    case None
    then show ?thesis using q assms(1) by (auto simp: stream_parser_put_video_chunk_def stores_ok_def)
  next
    case (Some r)
    have "\<exists>r'. pts_ro_put r (ck_time c) = Some r' \<and> (run r' \<longrightarrow> pts_ok r' \<and> num r' \<le> scs_chunk_num q \<and> sc_max q \<le> int (length (ts r')))"
    proof (cases "run r")
      case True
      have "num r < int (length (ts r))" "pts_ok r"
        using assms(1) Some True scs_num_range [OF v] by (auto simp: stores_ok_def)
      moreover from this have n: "0 \<le> num r" by (simp add: pts_ok_def)
      ultimately show ?thesis using pts_ro_put_spec [of r "nat (num r)" "ck_time c"] assms(1) Some True q(4,5)
        by (auto simp: stores_ok_def nat_less_iff)
    qed (simp add: pts_ro_put_def)
    then obtain r' where "pts_ro_put r (ck_time c) = Some r'" "run r' \<longrightarrow> pts_ok r' \<and> num r' \<le> scs_chunk_num q \<and> sc_max q \<le> int (length (ts r'))"
      by blast
    then show ?thesis using q Some assms(1) by (auto simp: stream_parser_put_video_chunk_def stores_ok_def)
  qed
qed

lemma add_chunk_ok:
  assumes "stores_ok s" "stream_parser_can_add_chunks s"
  shows "\<exists>r s'. stream_parser_add_chunk s c = Some (r, s') \<and> stores_ok s'"
proof -
  have v: "scs_can_add (vid s)" and a: "scs_ok (aud s)" "scs_chunk_num (aud s) < sc_max (aud s) - 1"
    and u: "scs_ok (subs s)" "scs_chunk_num (subs s) < sc_max (subs s) - 1"
    using assms scs_can_add_room by (auto simp: stream_parser_can_add_chunks_def stores_ok_def)
  have "\<exists>s'. stream_parser_put_video_chunk s c = Some s' \<and> stores_ok s'" using put_video_chunk_ok [OF assms(1) v] by blast
  moreover have "\<exists>s'. stream_parser_put_audio_chunk s c = Some s' \<and> stores_ok s'"
    using scs_put_chunk_queue [OF a, of c] assms(1) by (auto simp: stream_parser_put_audio_chunk_def stores_ok_def split: option.splits)
  moreover have "\<exists>s'. stream_parser_put_subtitle_chunk s c = Some s' \<and> stores_ok s'"
    using scs_put_chunk_queue [OF u, of c] assms(1) by (auto simp: stream_parser_put_subtitle_chunk_def stores_ok_def split: option.splits)
  ultimately show ?thesis using assms(1) by (auto simp: stream_parser_add_chunk_def)
qed

text \<open>
  C9. Parsing never overfills. Whatever a format parser finds in its up to five rounds,
  stream_parser_parse writes no chunk and no time stamp outside of its array and keeps the
  stores well-formed; an error of the parser ends both tracks.
\<close>

theorem stream_parser_parse_keeps_stores:
  assumes "leaves_stores parse" "stores_ok s"
  shows "\<exists>s'. stream_parser_parse parse s = Some s' \<and> stores_ok s'"
proof -
  have "\<exists>e s'. parse_rounds parse n s = Some (e, s') \<and> stores_ok s'" for n
    using assms(2)
  proof (induction n arbitrary: s)
    case (Suc n)
    obtain err c s1 where p: "parse s = (err, c, s1)" by (metis prod_cases3)
    then have same: "aud s1 = aud s" "vid s1 = vid s" "subs s1 = subs s" "ro_ctx s1 = ro_ctx s"
      using assms(1) [unfolded leaves_stores_def, THEN spec, of s] by simp_all
    show ?case
    proof (cases "stream_parser_can_add_chunks s \<and> \<not> video_parse_end s \<and> stream_parser_can_parse (st s) (pbuf s) = (True, False)")
      case True
      have "stores_ok s1" "stream_parser_can_add_chunks s1"
        using Suc.prems True same by (auto simp: stores_ok_def stream_parser_can_add_chunks_def split: option.splits)
      then obtain r s2 where s2: "stream_parser_add_chunk s1 c = Some (r, s2)" "stores_ok s2" using add_chunk_ok by blast
      then show ?thesis using True p Suc.IH [OF s2(2)] by (cases "err = 0") auto
    next
      case False
      then show ?thesis using Suc.prems by (auto split: prod.splits bool.splits)
    qed
  qed (auto intro: exI [of _ False])
  then obtain e s' where "parse_rounds parse stream_parser_max s = Some (e, s')" "stores_ok s'" by blast
  then show ?thesis by (auto simp: stream_parser_parse_def stores_ok_def split: option.splits)
qed

text \<open>A stream before its first chunk, with stores of n cells and the buffer b.\<close>

definition pst_start :: "nat \<Rightarrow> sbuf \<Rightarrow> pst" where
  "pst_start n b = \<lparr>st = strm_start\<lparr>audio_valid := True\<rparr>, pbuf = b, pbuf2 = b, aud = scs_new n, vid = scs_new n, subs = scs_new n,
     ro_ctx = None, video_valid = True, subtitle_valid = False, sub_stream = 0, video_time = -1, video_pos = 0,
     audio_time = -1, audio_pos = 0, vid_last = 0, aud_last = 0, time_parsed = 0, current_rate = 0, parser_live = False,
     parser_halt = False, parser_video_discon = False, parser_audio_discon = False, video_parse_end = False,
     audio_parse_end = False, ignore_chunks = False\<rparr>"

theorem stream_parser_parse_keeps_stores_witness:
  "\<exists>s'. stream_parser_parse (\<lambda>s. (0, chunk_zero\<lparr>ck_type := TYPE_AUD\<rparr>, s)) (pst_start 8 (sb_empty 4096 512)) = Some s' \<and> stores_ok s'"
proof -
  have "leaves_stores (\<lambda>s. (0, chunk_zero\<lparr>ck_type := TYPE_AUD\<rparr>, s))" by (simp add: leaves_stores_def)
  moreover have "stores_ok (pst_start 8 (sb_empty 4096 512))" using scs_new_ok [of 8] by (simp add: stores_ok_def pst_start_def)
  ultimately show ?thesis by (rule stream_parser_parse_keeps_stores)
qed

end
