(* ===== verification/Stream_Playback.thy ===== *)
theory Stream_Playback
  imports Stream_Io_File Stream_Chunks
begin

text \<open>
  The components together: a file fills the stream buffer, a parser finds chunks of audio and video in
  it, the decoders take them in order and release them, and a seek starts again. A step relation
  over the state of the parser and of the input (play) has one rule per action, in any order. Its
  invariant (playing) gives that every chunk that is taken carries the bytes of the file at its position.
\<close>

section \<open>Released data\<close>



















section \<open>Queued chunks\<close>







section \<open>Finding a chunk and seeking\<close>



section \<open>The player\<close>









section \<open>The invariant\<close>















end
