(* ===== verification/Stream_Sync.thy ===== *)
theory Stream_Sync
  imports Stream_Chunks
begin

text \<open>
  Keeping audio and video together (Source/stream_sync.c). Two gates hold back the first audio and the
  first video data until both are in step (stream_sync_audio, stream_sync_video); then a control loop
  (stream_sync) averages the distance of the two clocks and tells the player to show a frame longer, to
  drop one, or to drop everything up to a key frame. The delays that decoders and sinks report are fields
  of the state; the division of a time by the audio speed, in floating point, is the argument to_ts.
\<close>

section \<open>State\<close>

text \<open>A video sink: whether it has put_time, the delay when it reports one, and the times it was given.\<close>

record vsink =
  sk_put_time :: bool
  sk_delay :: "int option"
  sk_times :: "int list"

text \<open>The part of the stream the code uses; par is the part that the parser uses too.\<close>

record syn =
  par :: pst
  samples_mode :: bool
  slideshow :: bool
  audio_ref_time :: int
  sdelay :: int
  delay_valid :: bool
  delay_fb :: int
  sdrop :: int
  drop_P :: bool
  drop_B :: bool
  sync_audio :: bool
  sync_video :: bool
  sync_v_time :: int
  sync_a_time :: int
  audio_end :: bool
  video_end :: bool
  speed :: int
  play_n_video_frames :: bool
  play_n_audio_frames :: bool
  av_delay :: int
  vtime_post_sink :: bool
  audio_dec :: "int option"
  audio_sink :: "int option"
  video_sink :: "vsink option"
  msPerFrame :: int

record sglob =
  stream_no_sync :: bool
  stream_video_paused :: bool
  stream_audio_paused :: bool
  stream_max_delay :: int
  stream_bdrop_threshold :: int
  stream_pdrop_threshold :: int
  stream_dbg_delay :: int
  to_ts :: "int \<Rightarrow> int"

definition audio_is_valid :: "syn \<Rightarrow> bool" where "audio_is_valid s = audio_valid (st (par s))"
definition video_is_valid :: "syn \<Rightarrow> bool" where "video_is_valid s = video_valid (par s)"

section \<open>Operations\<close>

definition stream_sync_restart :: "syn \<Rightarrow> syn" where
  "stream_sync_restart s = s\<lparr>sdelay := 0, delay_valid := False, sdrop := 0, drop_P := False, drop_B := False\<rparr>"

definition stream_sync_init :: "syn \<Rightarrow> int \<Rightarrow> syn" where
  "stream_sync_init s t = (let
     p = (par s)\<lparr>video_time := -1, audio_time := -1\<rparr>;
     p = (if video_is_valid s then p\<lparr>video_time := t\<rparr>
          else if \<not> samples_mode s then p\<lparr>audio_time := t\<rparr> else p);
     s = s\<lparr>par := p, audio_ref_time := -1\<rparr>;
     s = (if video_is_valid s \<and> audio_is_valid s \<and> \<not> slideshow s
          then s\<lparr>sync_audio := True, sync_video := True, sync_v_time := -1, sync_a_time := -1\<rparr> else s)
     in stream_sync_restart s)"

definition stream_sync_av_delay :: "sglob \<Rightarrow> syn \<Rightarrow> int" where
  "stream_sync_av_delay g s =
     (if \<not> audio_is_valid s \<or> \<not> video_is_valid s then 0
      else let
        codec_delay = (case audio_dec s of Some d \<Rightarrow> d | None \<Rightarrow> 0);
        sink_delay = (case audio_sink s of Some d \<Rightarrow> d | None \<Rightarrow> 0);
        video_delay = (if vtime_post_sink s then 0
          else case video_sink s of Some k \<Rightarrow> (case sk_delay k of Some d \<Rightarrow> d | None \<Rightarrow> 0) | None \<Rightarrow> 0)
        in if samples_mode s then sink_delay - video_delay
           else to_ts g codec_delay + sink_delay - video_delay)"

definition stream_av_diff :: "sglob \<Rightarrow> syn \<Rightarrow> int \<Rightarrow> int \<Rightarrow> int" where
  "stream_av_diff g s v a = i32 (v - a + stream_sync_av_delay g s + to_ts g (av_delay s + stream_dbg_delay g))"

definition stream_sync_audio :: "sglob \<Rightarrow> syn \<Rightarrow> int \<Rightarrow> int \<times> syn" where
  "stream_sync_audio g s a = (let
     s = (case video_sink s of
            Some k \<Rightarrow>
              if sk_put_time k \<and> a \<noteq> -1 \<and> (\<not> stream_no_sync g \<or> sync_a_time s = -1)
              then s\<lparr>video_sink := Some (k\<lparr>sk_times := sk_times k @
                [a - (stream_sync_av_delay g s + to_ts g (av_delay s + stream_dbg_delay g))]\<rparr>)\<rparr>
              else s
          | None \<Rightarrow> s);
     s = s\<lparr>sync_a_time := a\<rparr>
     in if \<not> sync_audio s \<or> play_n_audio_frames s \<or> stream_no_sync g then (0, s)
        else if a = -1 then (0, s)
        else if video_end s then (0, s)
        else if stream_video_paused g then (0, s)
        else if sync_v_time s = -1 \<or> sync_a_time s = -1 then (1, s)
        else if stream_av_diff g s (sync_v_time s) (sync_a_time s) < 0 then (1, s\<lparr>sync_video := False\<rparr>)
        else (0, s\<lparr>sync_audio := False\<rparr>))"

definition stream_sync_video :: "sglob \<Rightarrow> syn \<Rightarrow> int \<Rightarrow> int \<times> syn" where
  "stream_sync_video g s v = (let
     s = s\<lparr>sync_v_time := v\<rparr>
     in if \<not> sync_video s \<or> speed s \<noteq> 0 \<or> play_n_video_frames s \<or> stream_no_sync g then (0, s)
        else if v = -1 then (0, s)
        else if audio_end s then (0, s)
        else if stream_audio_paused g then (0, s)
        else if sync_v_time s = -1 \<or> sync_a_time s = -1 then (1, s)
        else if stream_av_diff g s (sync_v_time s) (sync_a_time s) > (if vtime_post_sink s then 500 else 0)
             then (1, s\<lparr>sync_audio := False\<rparr>)
        else (0, s\<lparr>sync_video := False\<rparr>))"

text \<open>The averaged delay, before it is acted on.\<close>

definition average_delay :: "syn \<Rightarrow> int \<Rightarrow> int" where
  "average_delay s diff =
     (if \<not> delay_valid s then diff else (sdelay s * delay_fb s + diff * (1000 - delay_fb s)) sdiv 1000)"

definition sync_off :: "sglob \<Rightarrow> syn \<Rightarrow> bool" where
  "sync_off g s \<longleftrightarrow> \<not> audio_is_valid s \<or> \<not> video_is_valid s \<or> speed s \<noteq> 0 \<or> slideshow s
     \<or> ((sync_audio s \<or> sync_video s) \<and> \<not> stream_no_sync g)
     \<or> audio_time (par s) \<le> 0 \<or> video_time (par s) \<le> 0 \<or> audio_end s"

text \<open>Acting on it: a longer frame, a shorter one, or everything up to a key frame.\<close>

definition sync_hurry :: "sglob \<Rightarrow> int \<Rightarrow> syn \<Rightarrow> syn" where
  "sync_hurry g delay_s s = (let
     s = (if stream_bdrop_threshold g \<noteq> 0 \<and> sdelay s < - (stream_bdrop_threshold g * msPerFrame s)
          then s\<lparr>drop_B := True\<rparr> else s)
     in s\<lparr>sdrop := 1, sdelay := sdelay s + delay_s\<rparr>)"

definition sync_correct :: "sglob \<Rightarrow> int \<Rightarrow> syn \<Rightarrow> syn option" where
  "sync_correct g rdiff s = (let delay_s = stream_max_delay g * msPerFrame s
     in if sdelay s > delay_s then Some (s\<lparr>sdrop := -1, sdelay := sdelay s - delay_s\<rparr>)
     else if sdelay s < - delay_s then do {
       (num, key_time) \<leftarrow> (if stream_pdrop_threshold g \<noteq> 0 \<and> rdiff < - stream_pdrop_threshold g
         then stream_parser_find_key_frame (par s) (video_time (par s) - rdiff + 500) else Some (0, None));
       (if num \<noteq> 0 then do {
          t \<leftarrow> key_time;
          (_, p) \<leftarrow> stream_parser_drop_video (par s) t 0;
          Some (s\<lparr>par := p, drop_P := True\<rparr>) }
        else Some (sync_hurry g delay_s s)) }
     else Some s)"

definition stream_sync :: "sglob \<Rightarrow> syn \<Rightarrow> syn option" where
  "stream_sync g s =
     (if sync_off g s then Some s
      else let
        rdiff = stream_av_diff g s (video_time (par s)) (audio_time (par s));
        diff = max (min rdiff 250) (-250);
        s = s\<lparr>sdelay := average_delay s diff, delay_valid := True\<rparr>
        in if stream_no_sync g then Some s
        else do {
          k \<leftarrow> video_sink s;
          (if sk_put_time k then Some s else sync_correct g rdiff (s\<lparr>drop_B := False\<rparr>)) })"

section \<open>The gates\<close>

text \<open>Waiting audio with both times known has opened the gate of the video, and the other way round.\<close>

lemma audio_waits:
  "stream_sync_audio g s a = (1, s') \<Longrightarrow> a \<noteq> -1 \<and> sync_a_time s' = a \<and> (sync_v_time s' = -1 \<or> \<not> sync_video s')"
  by (auto simp: stream_sync_audio_def Let_def split: if_splits option.splits)

lemma video_waits:
  "stream_sync_video g s v = (1, s') \<Longrightarrow> v \<noteq> -1 \<and> (sync_a_time s = -1 \<or> \<not> sync_audio s')"
  by (auto simp: stream_sync_video_def Let_def split: if_splits)

lemma audio_open: "\<not> sync_audio s \<Longrightarrow> fst (stream_sync_audio g s a) = 0"
  by (auto simp: stream_sync_audio_def Let_def split: option.splits)

lemma audio_result: "fst (stream_sync_audio g s a) \<in> {0, 1}" and video_result: "fst (stream_sync_video g s v) \<in> {0, 1}"
  by (auto simp: stream_sync_audio_def stream_sync_video_def Let_def split: option.splits)

text \<open>
  C10. The gates cannot block each other. Whatever the state, the times and the delays, of three calls (audio,
  video, audio again) at least one lets its data pass: the two never wait for each other.
\<close>

theorem sync_gates_no_deadlock:
  "case stream_sync_audio g s a of (ra, s1) \<Rightarrow> case stream_sync_video g s1 v of (rv, s2) \<Rightarrow>
     ra = 0 \<or> rv = 0 \<or> fst (stream_sync_audio g s2 a') = 0"
proof -
  obtain ra s1 where a: "stream_sync_audio g s a = (ra, s1)" by (cases "stream_sync_audio g s a")
  obtain rv s2 where v: "stream_sync_video g s1 v = (rv, s2)" by (cases "stream_sync_video g s1 v")
  have "\<not> sync_audio s2" if "ra \<noteq> 0" "rv \<noteq> 0"
  proof -
    have "ra = 1" "rv = 1" using that audio_result [of g s a] video_result [of g s1 v] a v by auto
    then show ?thesis using audio_waits [of g s a s1] video_waits [of g s1 v s2] a v by auto
  qed
  then show ?thesis using a v audio_open by auto
qed

section \<open>Dropping late video\<close>

text \<open>The number of stamps of a running reordering buffer, and whether they are one for each queued chunk.\<close>

definition ro_num :: "pst \<Rightarrow> int option" where
  "ro_num s = (case ro_ctx s of None \<Rightarrow> None | Some r \<Rightarrow> if run r then Some (num r) else None)"

definition stamps_even :: "pst \<Rightarrow> bool" where
  "stamps_even s \<longleftrightarrow> (case ro_ctx s of None \<Rightarrow> True | Some r \<Rightarrow> run r \<longrightarrow> num r = scs_chunk_num (vid s))"

text \<open>Enough stamps to take d chunks.\<close>

definition stamps_for :: "pst \<Rightarrow> nat \<Rightarrow> bool" where
  "stamps_for s d \<longleftrightarrow> (case ro_num s of None \<Rightarrow> True | Some n \<Rightarrow> int d \<le> n)"

lemma stamps_even_ro_num: "stamps_even s \<longleftrightarrow> (case ro_num s of None \<Rightarrow> True | Some n \<Rightarrow> n = scs_chunk_num (vid s))"
  by (auto simp: stamps_even_def ro_num_def split: option.splits)

lemma ro_num_pbuf [simp]: "ro_num (s\<lparr>pbuf := b\<rparr>) = ro_num s" "stores_ok (s\<lparr>pbuf := b\<rparr>) = stores_ok s"
  by (simp_all add: ro_num_def stores_ok_def split: option.splits)

lemma pts_ro_get_fields:
  "pts_ro_get r = Some (t, r') \<Longrightarrow> run r' = run r \<and> length (ts r') = length (ts r) \<and> num r' = (if run r then num r - 1 else num r)"
  by (auto simp: pts_ro_get_def bind_eq_Some_iff wr_blk_def put_at_def rd_blk_def split: if_splits)

lemma pts_ro_get_some:
  assumes "pts_ok r" "run r" "0 < num r"
  shows "\<exists>t r'. pts_ro_get r = Some (t, r') \<and> pts_ok r'"
proof -
  obtain n where n: "num r = int n" using assms(1) by (auto simp: pts_ok_def dest: nonneg_int_cases)
  have "stamps r \<noteq> []" using n assms by (auto simp: stamps_def pts_ok_def)
  then show ?thesis using pts_ro_get_spec [OF assms(1,2) n] by (cases "stamps r") auto
qed

lemma get_video_chunk_exact:
  assumes "stores_ok s" "scs_queue (vid s) = c # cs"
  shows "if stamps_for s 1 then \<exists>t s'. stream_parser_get_video_chunk s = Some (0, Some (c\<lparr>ck_time := t\<rparr>), s') \<and> stores_ok s'
      \<and> scs_queue (vid s') = cs \<and> ro_num s' = map_option (\<lambda>n. n - 1) (ro_num s)
    else stream_parser_get_video_chunk s = None"
proof -
  have ok: "scs_ok (vid s)" using assms(1) by (simp add: stores_ok_def)
  obtain q where q: "scs_get_chunk (vid s) = Some (0, Some c, q)" "scs_ok q" "scs_queue q = cs" "sc_max q = sc_max (vid s)"
    "scs_chunk_num q = scs_chunk_num (vid s) - 1"
    using scs_get_chunk_queue [OF ok assms(2)] by blast
  have n: "0 < scs_chunk_num (vid s)" using scs_queue_length [of "vid s"] assms(2) by auto
  show ?thesis
  proof (cases "ro_ctx s")
    case None
    then have "stream_parser_get_video_chunk s = Some (0, Some (c\<lparr>ck_time := ck_time c\<rparr>), s\<lparr>vid := q\<rparr>)"
      using q by (simp add: stream_parser_get_video_chunk_def)
    moreover have "stores_ok (s\<lparr>vid := q\<rparr>)" "ro_num (s\<lparr>vid := q\<rparr>) = None" "stamps_for s 1" "ro_num s = None"
      using q assms(1) None by (simp_all add: stores_ok_def ro_num_def stamps_for_def)
    moreover have "\<exists>t. c = c\<lparr>ck_time := t\<rparr>" by (rule exI [of _ "ck_time c"]) simp
    ultimately show ?thesis using q(3) by auto
  next
    case (Some r)
    have get: "stream_parser_get_video_chunk s = (case pts_ro_get r of None \<Rightarrow> None
      | Some (t, r') \<Rightarrow> Some (0, Some (c\<lparr>ck_time := if t \<noteq> -1 then t else ck_time c\<rparr>), s\<lparr>vid := q, ro_ctx := Some r'\<rparr>))"
      using q(1) Some by (auto simp: stream_parser_get_video_chunk_def split: option.splits)
    show ?thesis
    proof (cases "run r \<and> num r = 0")
      case True
      then have "pts_ro_get r = None" by (simp add: pts_ro_get_def rd_blk_def)
      then show ?thesis using get Some True by (simp add: stamps_for_def ro_num_def)
    next
      case False
      have "\<exists>t r'. pts_ro_get r = Some (t, r') \<and> (run r' \<longrightarrow> pts_ok r')"
      proof (cases "run r")
        case True
        then have "pts_ok r" "0 < num r" using assms(1) Some False by (auto simp: stores_ok_def pts_ok_def)
        then show ?thesis using pts_ro_get_some [of r] True by blast
      qed (simp add: pts_ro_get_def)
      then obtain t r' where r': "pts_ro_get r = Some (t, r')" "run r' \<longrightarrow> pts_ok r'" by blast
      let ?s = "s\<lparr>vid := q, ro_ctx := Some r'\<rparr>"
      have "stores_ok ?s" "ro_num ?s = map_option (\<lambda>n. n - 1) (ro_num s)"
        using assms(1) q Some r' pts_ro_get_fields [OF r'(1)] n by (auto simp: stores_ok_def ro_num_def)
      moreover have "stamps_for s 1" using False assms(1) Some by (auto simp: stamps_for_def ro_num_def stores_ok_def pts_ok_def)
      moreover have "stream_parser_get_video_chunk s = Some (0, Some (c\<lparr>ck_time := if t \<noteq> -1 then t else ck_time c\<rparr>), ?s)"
        using get r'(1) by simp
      moreover have "\<exists>u. c\<lparr>ck_time := if t \<noteq> -1 then t else ck_time c\<rparr> = c\<lparr>ck_time := u\<rparr>" by blast
      ultimately show ?thesis using q(3) by (simp only: if_True) auto
    qed
  qed
qed

lemma scs_queue_valid: "scs_ok q \<Longrightarrow> c \<in> set (scs_queue q) \<Longrightarrow> ck_valid c"
  using scs_num_range [of q] by (auto simp: scs_queue_def scs_ok_def)

lemma scs_peek_empty: "scs_ok q \<Longrightarrow> scs_queue q = [] \<Longrightarrow> \<exists>c. scs_peek_chunk q = Some c \<and> \<not> ck_valid c"
  using scs_queue_length [of q] scs_num_range [of q] scs_cell_eq [of q 0]
  by (auto simp: scs_peek_chunk_def scs_ok_def rd_def)

text \<open>Dropping takes the longest prefix of chunks that are earlier than the time, if there are stamps for it.\<close>

lemma drop_video_exact:
  assumes "stores_ok s"
  shows "let n = length (takeWhile (\<lambda>c. ck_time c < t) (scs_queue (vid s))) in
    if stamps_for s n then \<exists>s'. stream_parser_drop_video s t d = Some (d + int n, s') \<and> stores_ok s'
      \<and> scs_queue (vid s') = drop n (scs_queue (vid s)) \<and> ro_num s' = map_option (\<lambda>k. k - int n) (ro_num s)
    else stream_parser_drop_video s t d = None"
  using assms
proof (induction "scs_queue (vid s)" arbitrary: s d)
  case Nil
  have "scs_ok (vid s)" using Nil(2) by (simp add: stores_ok_def)
  then obtain c where "scs_peek_chunk (vid s) = Some c" "\<not> ck_valid c" using scs_peek_empty Nil(1) by metis
  moreover have "stamps_for s 0"
    using Nil(2) by (auto simp: stamps_for_def ro_num_def stores_ok_def pts_ok_def split: option.splits)
  moreover have "map_option (\<lambda>k. k - int 0) (ro_num s) = ro_num s" by (cases "ro_num s") auto
  ultimately show ?case using Nil(1) [symmetric] Nil(2)
    by (subst (1 2) stream_parser_drop_video.simps) (simp add: Let_def)
next
  case (Cons c cs)
  have v: "scs_ok (vid s)" using Cons(3) by (simp add: stores_ok_def)
  have c: "scs_peek_chunk (vid s) = Some c" "ck_valid c"
    using scs_peek_chunk_queue [OF v] scs_queue_valid [OF v] Cons(2) by (metis, metis list.set_intros(1))
  let ?P = "\<lambda>c. ck_time c < t"
  show ?case
  proof (cases "?P c")
    case False
    then have "stream_parser_drop_video s t d = Some (d, s)" using c by (subst stream_parser_drop_video.simps) simp
    moreover have "stamps_for s 0"
      using Cons(3) by (auto simp: stamps_for_def ro_num_def stores_ok_def pts_ok_def split: option.splits)
    moreover have "map_option (\<lambda>k. k - int 0) (ro_num s) = ro_num s" by (cases "ro_num s") auto
    ultimately show ?thesis using False Cons(2) [symmetric] Cons(3) by (simp add: Let_def)
  next
    case True
    let ?n = "length (takeWhile ?P cs)"
    have q: "takeWhile ?P (scs_queue (vid s)) = c # takeWhile ?P cs" using True Cons(2) [symmetric] by simp
    note g = get_video_chunk_exact [OF Cons(3) Cons(2) [symmetric]]
    show ?thesis
    proof (cases "stamps_for s 1")
      case False
      then have "stream_parser_drop_video s t d = None"
        using c True g by (subst stream_parser_drop_video.simps) simp
      moreover have "\<not> stamps_for s (Suc ?n)" using False by (auto simp: stamps_for_def split: option.splits)
      ultimately show ?thesis by (simp add: q Let_def)
    next
      case s1: True
      then obtain x s1 where g: "stream_parser_get_video_chunk s = Some (0, Some (c\<lparr>ck_time := x\<rparr>), s1)" "stores_ok s1"
        "scs_queue (vid s1) = cs" "ro_num s1 = map_option (\<lambda>n. n - 1) (ro_num s)"
        using g by auto
      define z where "z = s1\<lparr>pbuf := stream_buffer_free_data (pbuf s1) (c\<lparr>ck_time := x\<rparr>)\<rparr>"
      have e: "stream_parser_drop_video s t d = stream_parser_drop_video z t (d + 1)"
        using c True g(1) z_def by (subst stream_parser_drop_video.simps) simp
      have f: "stamps_for z ?n = stamps_for s (Suc ?n)"
        using g(4) z_def by (cases "ro_num s") (auto simp: stamps_for_def)
      have r: "map_option (\<lambda>k. k - int ?n) (ro_num z) = map_option (\<lambda>k. k - int (Suc ?n)) (ro_num s)"
        using g(4) z_def by (cases "ro_num s") auto
      have "cs = scs_queue (vid z)" "stores_ok z" using g by (simp_all add: z_def)
      from Cons(1) [OF this, of "d + 1"] show ?thesis
        unfolding e q using Cons(2) [symmetric] g(3) f r \<open>cs = scs_queue (vid z)\<close> by (auto simp: Let_def add.assoc split: if_splits)
    qed
  qed
qed

lemma drop_video_prefix:
  assumes "stores_ok s" "stamps_even s"
  shows "\<exists>s'. stream_parser_drop_video s t d = Some (d + int (length (takeWhile (\<lambda>c. ck_time c < t) (scs_queue (vid s)))), s')
    \<and> stores_ok s' \<and> stamps_even s' \<and> scs_queue (vid s') = dropWhile (\<lambda>c. ck_time c < t) (scs_queue (vid s))"
proof -
  let ?q = "scs_queue (vid s)"
  let ?n = "length (takeWhile (\<lambda>c. ck_time c < t) ?q)"
  have len: "scs_chunk_num (vid z) = int (length (scs_queue (vid z)))" if "stores_ok z" for z
    using that scs_num_range [of "vid z"] by (simp add: scs_queue_length stores_ok_def)
  have n: "?n \<le> length ?q" by (rule length_takeWhile_le)
  then have "stamps_for s ?n" using assms len [OF assms(1)]
    by (auto simp: stamps_for_def stamps_even_ro_num split: option.splits)
  then obtain s' where s': "stream_parser_drop_video s t d = Some (d + int ?n, s')" "stores_ok s'"
    "scs_queue (vid s') = drop ?n ?q" "ro_num s' = map_option (\<lambda>k. k - int ?n) (ro_num s)"
    using drop_video_exact [OF assms(1), of t d] by (auto simp: Let_def)
  moreover have "stamps_even s'" using s' assms len [OF assms(1)] len [OF s'(2)] n
    by (auto simp: stamps_even_ro_num of_nat_diff split: option.splits)
  ultimately show ?thesis by (simp add: dropWhile_eq_drop)
qed

text \<open>The key frame that the search reports is in the queue, not later than the limit.\<close>

lemma key_frame_loop_found:
  assumes "scs_ok q" "n = length (scs_queue q)" "1 \<le> i" "i \<le> n"
    and "b = (0, 0) \<or> (\<exists>j<i. 1 \<le> j \<and> b = (int j, ck_time (scs_queue q ! j)) \<and> ck_key (scs_queue q ! j) \<and> ck_time (scs_queue q ! j) \<le> mx)"
  shows "\<exists>r. key_frame_loop q mx (int n) (int i) b = Some r \<and>
    (r = (0, 0) \<or> (\<exists>j<n. 1 \<le> j \<and> r = (int j, ck_time (scs_queue q ! j)) \<and> ck_key (scs_queue q ! j) \<and> ck_time (scs_queue q ! j) \<le> mx))"
  using assms(3-)
proof (induction "n - i" arbitrary: i b)
  case 0
  then show ?case using assms(2) by (subst key_frame_loop.simps) (auto intro: less_trans)
next
  case (Suc k)
  let ?c = "scs_queue q ! i"
  have p: "scs_peek_n q (int i) = Some ?c" using scs_peek_n_queue [OF assms(1), of i] Suc assms(2) by simp
  show ?case
  proof (cases "ck_time ?c > mx")
    case True
    then show ?thesis using p Suc.prems by (subst key_frame_loop.simps) (auto intro: less_le_trans)
  next
    case False
    have "\<exists>r. key_frame_loop q mx (int n) (int (Suc i)) (if ck_key ?c then (int i, ck_time ?c) else b) = Some r \<and>
      (r = (0, 0) \<or> (\<exists>j<n. 1 \<le> j \<and> r = (int j, ck_time (scs_queue q ! j)) \<and> ck_key (scs_queue q ! j) \<and> ck_time (scs_queue q ! j) \<le> mx))"
      by (rule Suc.hyps(1)) (use Suc False in \<open>auto simp: less_Suc_eq\<close>)
    then show ?thesis using p False Suc.hyps(2) by (subst key_frame_loop.simps) (auto simp: add.commute)
  qed
qed

lemma find_key_frame_found:
  assumes "scs_ok (vid s)"
  shows "\<exists>n k. stream_parser_find_key_frame s mx = Some (n, k) \<and> (n = 0 \<and> k = None \<or>
    (\<exists>j<length (scs_queue (vid s)). n = int j \<and> 1 \<le> j \<and> k = Some (ck_time (scs_queue (vid s) ! j)) \<and> ck_key (scs_queue (vid s) ! j)
      \<and> ck_time (scs_queue (vid s) ! j) \<le> mx))"
proof -
  let ?q = "scs_queue (vid s)"
  have n: "scs_chunk_num (vid s) = int (length ?q)" using scs_num_range [OF assms] by (simp add: scs_queue_length)
  show ?thesis
  proof (cases "length ?q = 0")
    case True
    then show ?thesis using n by (simp add: stream_parser_find_key_frame_def key_frame_loop.simps)
  next
    case False
    then have "1 \<le> length ?q" by (simp add: Suc_le_eq)
    then obtain i x where r: "key_frame_loop (vid s) mx (int (length ?q)) 1 (0, 0) = Some (i, x)"
      "(i, x) = (0, 0) \<or> (\<exists>j<length ?q. 1 \<le> j \<and> (i, x) = (int j, ck_time (?q ! j)) \<and> ck_key (?q ! j) \<and> ck_time (?q ! j) \<le> mx)"
      using key_frame_loop_found [OF assms refl, of 1 "(0, 0)" mx] by auto
    then have "stream_parser_find_key_frame s mx = Some (if x \<noteq> 0 then (i, Some x) else (0, None))"
      using n by (simp add: stream_parser_find_key_frame_def)
    then show ?thesis using r(2) by auto
  qed
qed

text \<open>
  The places a search for a key frame up to a time looks at: behind the head, up to the first chunk that is later.
  The last key frame among them is the result.
\<close>

definition key_places :: "chunk list \<Rightarrow> int \<Rightarrow> nat list" where
  "key_places q mx = filter (\<lambda>j. ck_key (q ! j)) [1..<Suc (length (takeWhile (\<lambda>c. ck_time c \<le> mx) (tl q)))]"

lemma key_frame_loop_exact:
  fixes mx :: int
  assumes "scs_ok q" "i \<le> length (scs_queue q)"
  defines "m \<equiv> i + length (takeWhile (\<lambda>c. ck_time c \<le> mx) (drop i (scs_queue q)))"
  shows "key_frame_loop q mx (int (length (scs_queue q))) (int i) b
    = Some (case filter (\<lambda>j. ck_key (scs_queue q ! j)) [i..<m] of [] \<Rightarrow> b
        | js \<Rightarrow> (int (last js), ck_time (scs_queue q ! last js)))"
  using assms(2) unfolding m_def
proof (induction "length (scs_queue q) - i" arbitrary: i b)
  case 0
  then show ?case by (subst key_frame_loop.simps) simp
next
  case (Suc k)
  let ?q = "scs_queue q" and ?W = "\<lambda>i. length (takeWhile (\<lambda>c. ck_time c \<le> mx) (drop i (scs_queue q)))"
  have i: "i < length ?q" using Suc.hyps(2) by simp
  have p: "scs_peek_n q (int i) = Some (?q ! i)" using scs_peek_n_queue [OF assms(1) i] .
  have d: "drop i ?q = ?q ! i # drop (Suc i) ?q" using i by (rule Cons_nth_drop_Suc [symmetric])
  show ?case
  proof (cases "mx < ck_time (?q ! i)")
    case True
    then show ?thesis using p i by (subst key_frame_loop.simps) (simp add: d)
  next
    case False
    let ?b = "if ck_key (?q ! i) then (int i, ck_time (?q ! i)) else b"
    have "?W i = Suc (?W (Suc i))" using False by (simp add: d)
    then have w: "[i..<i + ?W i] = i # [Suc i..<Suc i + ?W (Suc i)]" using upt_conv_Cons [of i "i + ?W i"] by simp
    have "key_frame_loop q mx (int (length ?q)) (int i) b = key_frame_loop q mx (int (length ?q)) (int (Suc i)) ?b"
      using p False i by (subst key_frame_loop.simps) (simp add: add.commute)
    also have "\<dots> = Some (case filter (\<lambda>j. ck_key (?q ! j)) [Suc i..<Suc i + ?W (Suc i)] of [] \<Rightarrow> ?b
        | js \<Rightarrow> (int (last js), ck_time (?q ! last js)))"
      by (rule Suc.hyps(1)) (use Suc.hyps(2) i in auto)
    finally show ?thesis unfolding w by (auto split: list.splits)
  qed
qed

lemma find_key_frame_exact:
  fixes mx :: int
  assumes "scs_ok (vid s)"
  defines "q \<equiv> scs_queue (vid s)" and "js \<equiv> key_places (scs_queue (vid s)) mx"
  shows "stream_parser_find_key_frame s mx = Some (if js = [] \<or> ck_time (q ! last js) = 0 then (0, None)
    else (int (last js), Some (ck_time (q ! last js))))"
proof -
  have n: "scs_chunk_num (vid s) = int (length q)" using scs_num_range [OF assms(1)] by (simp add: q_def scs_queue_length)
  have "key_frame_loop (vid s) mx (int (length q)) 1 (0, 0) = Some (if js = [] then (0, 0) else (int (last js), ck_time (q ! last js)))"
  proof (cases "q = []")
    case True
    then show ?thesis by (simp add: key_frame_loop.simps js_def key_places_def flip: q_def)
  next
    case False
    have js: "js = filter (\<lambda>j. ck_key (q ! j)) [1..<1 + length (takeWhile (\<lambda>c. ck_time c \<le> mx) (drop 1 q))]"
      by (simp add: js_def key_places_def q_def drop_Suc)
    have "1 \<le> length q" using False by (simp add: Suc_le_eq)
    from key_frame_loop_exact [OF assms(1), folded q_def, OF this, of mx "(0, 0)", folded js] show ?thesis
      by (cases js) auto
  qed
  then show ?thesis by (simp add: stream_parser_find_key_frame_def n)
qed

lemma key_places_in:
  assumes "j \<in> set (key_places q mx)"
  shows "1 \<le> j" "j < length q" "ck_key (q ! j)" "ck_time (q ! j) \<le> mx"
proof -
  let ?w = "takeWhile (\<lambda>c. ck_time c \<le> mx) (tl q)"
  have j: "1 \<le> j" "j < Suc (length ?w)" "ck_key (q ! j)" using assms by (auto simp: key_places_def)
  have "length ?w \<le> length (tl q)" by (rule length_takeWhile_le)
  then show "1 \<le> j" "j < length q" "ck_key (q ! j)" using j by auto
  have "?w ! (j - 1) \<in> set ?w" using j by (intro nth_mem) simp
  then have "ck_time (?w ! (j - 1)) \<le> mx" by (auto dest: set_takeWhileD)
  moreover have "?w ! (j - 1) = q ! j" using j \<open>j < length q\<close> by (cases q) (auto simp: takeWhile_nth)
  ultimately show "ck_time (q ! j) \<le> mx" by simp
qed

lemma takeWhile_stops: "j < length q \<Longrightarrow> \<not> P (q ! j) \<Longrightarrow> length (takeWhile P q) \<le> j"
  by (metis linorder_not_le nth_mem set_takeWhileD takeWhile_nth)

text \<open>
  C12. Catching up, for any well-formed stores. The search for a key frame up to a time looks at the chunks behind the
  head up to the first later one and reports the last key frame among them (nothing when there is none, or when its time is 0).
  Dropping up to its time takes the chunks at the head that are earlier and never reaches the key frame; when all
  before it are earlier, playing goes on with it. That needs a time stamp in a running reorder buffer for
  each chunk dropped: with fewer stamps, dropping is undefined.
\<close>

theorem find_then_drop_keeps_key_frame:
  fixes mx :: int
  assumes "stores_ok s"
  defines "q \<equiv> scs_queue (vid s)" and "js \<equiv> key_places (scs_queue (vid s)) mx"
  defines "j \<equiv> last js" and "t \<equiv> ck_time (q ! last js)"
  defines "d \<equiv> length (takeWhile (\<lambda>c. ck_time c < t) q)"
  shows "if js = [] \<or> t = 0 then stream_parser_find_key_frame s mx = Some (0, None)
    else stream_parser_find_key_frame s mx = Some (int j, Some t) \<and> ck_key (q ! j) \<and> t \<le> mx
      \<and> d \<le> j \<and> j < length q \<and> ((\<forall>i<j. ck_time (q ! i) < t) \<longrightarrow> d = j)
      \<and> (if stamps_for s d
         then \<exists>s'. stream_parser_drop_video s t 0 = Some (int d, s') \<and> scs_queue (vid s') = drop d q \<and> stores_ok s'
         else stream_parser_drop_video s t 0 = None)"
proof -
  have v: "scs_ok (vid s)" using assms(1) by (simp add: stores_ok_def)
  note f = find_key_frame_exact [OF v, of mx, folded q_def js_def, folded t_def j_def]
  show ?thesis
  proof (cases "js = [] \<or> t = 0")
    case False
    then have "j \<in> set js" by (simp add: j_def)
    then have j: "1 \<le> j" "j < length q" "ck_key (q ! j)" "t \<le> mx"
      using key_places_in [of j q mx] by (auto simp: q_def js_def t_def j_def)
    have d: "d \<le> j" unfolding d_def by (rule takeWhile_stops) (use j(2) in \<open>simp_all add: t_def j_def\<close>)
    moreover have "(\<forall>i<j. ck_time (q ! i) < t) \<longrightarrow> d = j"
    proof
      assume "\<forall>i<j. ck_time (q ! i) < t"
      then have "j \<le> d" using j(2) unfolding d_def by (intro length_takeWhile_less_P_nth) auto
      then show "d = j" using d by simp
    qed
    moreover have "if stamps_for s d
         then \<exists>s'. stream_parser_drop_video s t 0 = Some (int d, s') \<and> scs_queue (vid s') = drop d q \<and> stores_ok s'
         else stream_parser_drop_video s t 0 = None"
      using drop_video_exact [OF assms(1), of t 0, folded q_def] by (auto simp: Let_def d_def)
    ultimately show ?thesis using False f j by simp
  qed (use f in auto)
qed

section \<open>The control loop\<close>

text \<open>Averaging stays between the old delay and the new distance.\<close>

lemma sdiv_between:
  assumes "lo * 1000 \<le> x" "x \<le> hi * (1000 :: int)"
  shows "lo \<le> x sdiv 1000 \<and> x sdiv 1000 \<le> hi"
proof (cases "0 \<le> x")
  case True
  then have "x sdiv 1000 = x div 1000" by (simp add: sdiv_nonneg)
  then show ?thesis using zdiv_mono1 [OF assms(1), of 1000] zdiv_mono1 [OF assms(2), of 1000] by simp
next
  case False
  then have "x sdiv 1000 = - ((- x) div 1000)" by (simp add: signed_divide_int_def sgn_if)
  moreover have "- hi * 1000 \<le> - x" "- x \<le> - lo * 1000" using assms by simp_all
  moreover have "- hi * 1000 div 1000 = - hi" "- lo * 1000 div 1000 = - lo" by (rule nonzero_mult_div_cancel_right; simp)+
  ultimately show ?thesis
    using zdiv_mono1 [of "- hi * 1000" "- x" 1000] zdiv_mono1 [of "- x" "- lo * 1000" 1000] by linarith
qed

lemma average_delay_between:
  assumes "0 \<le> delay_fb s" "delay_fb s \<le> 1000" "delay_valid s"
  shows "min (sdelay s) diff \<le> average_delay s diff \<and> average_delay s diff \<le> max (sdelay s) diff"
proof -
  let ?m = "min (sdelay s) diff" and ?M = "max (sdelay s) diff" and ?f = "delay_fb s"
  have "?m * ?f + ?m * (1000 - ?f) \<le> sdelay s * ?f + diff * (1000 - ?f)"
    "sdelay s * ?f + diff * (1000 - ?f) \<le> ?M * ?f + ?M * (1000 - ?f)"
    using assms by (auto intro!: add_mono mult_right_mono)
  then show ?thesis using sdiv_between [of ?m "sdelay s * ?f + diff * (1000 - ?f)" ?M] assms(3)
    by (simp add: average_delay_def algebra_simps)
qed

definition sync_ok :: "syn \<Rightarrow> bool" where
  "sync_ok s \<longleftrightarrow> stores_ok (par s) \<and> stamps_even (par s) \<and> video_sink s \<noteq> None \<and> 0 \<le> delay_fb s \<and> delay_fb s \<le> 1000
     \<and> \<bar>sdelay s\<bar> \<le> 250"

lemma sync_correct_spec:
  assumes ok: "sync_ok s" and T: "0 \<le> stream_max_delay g * msPerFrame s"
    and D_def: "D = sdelay s" and T_def: "T = stream_max_delay g * msPerFrame s"
  shows "\<exists>s'. sync_correct g r s = Some s' \<and> sync_ok s' \<and>
    (s' = s \<and> - T \<le> D \<and> D \<le> T \<or> sdrop s' = -1 \<and> T < D \<and> 0 < sdelay s' \<and> sdelay s' = D - T
     \<or> sdrop s' = 1 \<and> D < -T \<and> sdelay s' < 0 \<and> sdelay s' = D + T
     \<or> drop_P s' \<and> D < -T \<and> (\<exists>d. scs_queue (vid (par s')) = drop d (scs_queue (vid (par s)))))"
proof -
  have D: "\<bar>D\<bar> \<le> 250" and T: "0 \<le> T" using assms by (auto simp: sync_ok_def D_def T_def)
  have p: "stores_ok (par s)" "stamps_even (par s)" "scs_ok (vid (par s))" using ok by (auto simp: sync_ok_def stores_ok_def)
  consider (ahead) "T < D" | (late) "D < - T" | (even) "\<not> T < D" "\<not> D < - T" by blast
  then show ?thesis
  proof cases
    case ahead
    have "sync_correct g r s = Some (s\<lparr>sdrop := -1, sdelay := D - T\<rparr>)"
      using ahead by (simp add: sync_correct_def D_def [symmetric] T_def [symmetric])
    moreover have "sync_ok (s\<lparr>sdrop := -1, sdelay := D - T\<rparr>)" using ok ahead D T by (simp add: sync_ok_def)
    ultimately show ?thesis using ahead by auto
  next
    case even
    then show ?thesis using ok by (simp add: sync_correct_def D_def [symmetric] T_def [symmetric])
  next
    case late
    let ?f = "if stream_pdrop_threshold g \<noteq> 0 \<and> r < - stream_pdrop_threshold g
      then stream_parser_find_key_frame (par s) (video_time (par s) - r + 500) else Some (0, None)"
    obtain n kt where f: "?f = Some (n, kt)" "n = 0 \<or> (\<exists>t. kt = Some t)"
      using find_key_frame_found [OF p(3), of "video_time (par s) - r + 500"]
      by (cases "stream_pdrop_threshold g \<noteq> 0 \<and> r < - stream_pdrop_threshold g") auto
    have e: "sync_correct g r s = (if n \<noteq> 0 then do { t \<leftarrow> kt; (_, q) \<leftarrow> stream_parser_drop_video (par s) t 0;
        Some (s\<lparr>par := q, drop_P := True\<rparr>) } else Some (sync_hurry g T s))"
      using late T unfolding sync_correct_def D_def [symmetric] T_def [symmetric] f(1) Let_def by auto
    show ?thesis
    proof (cases "n = 0")
      case True
      have "sync_ok (sync_hurry g T s) \<and> sdrop (sync_hurry g T s) = 1 \<and> sdelay (sync_hurry g T s) = D + T"
        using ok late D T by (simp add: sync_hurry_def sync_ok_def D_def Let_def)
      then show ?thesis using e True late by auto
    next
      case False
      then obtain t where t: "kt = Some t" using f(2) by blast
      obtain q d where q: "stream_parser_drop_video (par s) t 0 = Some (d, q)" "stores_ok q" "stamps_even q"
        "scs_queue (vid q) = dropWhile (\<lambda>c. ck_time c < t) (scs_queue (vid (par s)))"
        using drop_video_prefix [OF p(1,2), of t 0] by blast
      have "sync_correct g r s = Some (s\<lparr>par := q, drop_P := True\<rparr>)" using e False t q(1) by simp
      moreover have "sync_ok (s\<lparr>par := q, drop_P := True\<rparr>)" using ok q(2,3) by (simp add: sync_ok_def)
      ultimately show ?thesis using q(4) late by (auto simp: dropWhile_eq_drop)
    qed
  qed
qed

text \<open>
  C11. The control loop. A round of stream_sync always returns, keeps the stores of the parser well-formed and the
  averaged delay within a quarter of a second; it asks for a longer frame exactly when the video is ahead by more than
  the threshold, and drops exactly when it is behind by more (unless corrections are switched off or left to the video
  sink), and each correction takes the threshold off the delay without passing zero. The stores include
  a running reorder buffer with one stamp for each queued chunk.
\<close>

theorem stream_sync_controls:
  assumes "sync_ok s" "0 \<le> stream_max_delay g * msPerFrame s"
  defines "T \<equiv> stream_max_delay g * msPerFrame s"
    and "D \<equiv> average_delay s (max (min (stream_av_diff g s (video_time (par s)) (audio_time (par s))) 250) (-250))"
  shows "\<exists>s'. stream_sync g s = Some s' \<and> sync_ok s' \<and>
    (sync_off g s \<and> s' = s
     \<or> par s' = par s \<and> sdrop s' = sdrop s \<and> sdelay s' = D
        \<and> (- T \<le> D \<and> D \<le> T \<or> stream_no_sync g \<or> (\<exists>k. video_sink s = Some k \<and> sk_put_time k))
     \<or> sdrop s' = -1 \<and> T < D \<and> 0 < sdelay s' \<and> sdelay s' = D - T
     \<or> sdrop s' = 1 \<and> D < -T \<and> sdelay s' < 0 \<and> sdelay s' = D + T
     \<or> drop_P s' \<and> D < -T \<and> (\<exists>d. scs_queue (vid (par s')) = drop d (scs_queue (vid (par s)))))"
proof -
  let ?r = "stream_av_diff g s (video_time (par s)) (audio_time (par s))"
  have ok: "stores_ok (par s)" "stamps_even (par s)" "0 \<le> delay_fb s" "delay_fb s \<le> 1000" "\<bar>sdelay s\<bar> \<le> 250"
    using assms(1) by (auto simp: sync_ok_def)
  obtain k where k: "video_sink s = Some k" using assms(1) by (auto simp: sync_ok_def)
  obtain m where m: "D = average_delay s m" "\<bar>m\<bar> \<le> 250" using D_def by auto
  have D: "\<bar>D\<bar> \<le> 250"
  proof (cases "delay_valid s")
    case True
    then show ?thesis using average_delay_between [OF ok(3,4) True, of m] m ok(5) by linarith
  qed (use m in \<open>simp add: average_delay_def\<close>)
  let ?s = "s\<lparr>sdelay := D, delay_valid := True\<rparr>"
  show ?thesis
  proof (cases "sync_off g s \<or> stream_no_sync g \<or> sk_put_time k")
    case True
    then have "stream_sync g s = Some (if sync_off g s then s else ?s)"
      using k by (auto simp: stream_sync_def D_def [symmetric] Let_def)
    moreover have "sync_ok ?s" using assms(1) D by (simp add: sync_ok_def)
    ultimately show ?thesis using assms(1) True k by (cases "sync_off g s") auto
  next
    case False
    let ?b = "?s\<lparr>drop_B := False\<rparr>"
    have "stream_sync g s = sync_correct g ?r ?b" using False k by (simp add: stream_sync_def D_def [symmetric] Let_def)
    moreover have "sync_ok ?b" using assms(1) D by (simp add: sync_ok_def)
    ultimately show ?thesis using sync_correct_spec [of ?b g D T ?r] assms(2) by (auto simp: T_def)
  qed
qed

text \<open>A video that is 200 ms late: two queued chunks, the second a key frame.\<close>

definition late_chunk :: "int \<Rightarrow> bool \<Rightarrow> chunk" where
  "late_chunk t k = chunk_zero\<lparr>ck_type := TYPE_VID, ck_time := t, ck_key := k, ck_valid := True\<rparr>"

lemma late_queue: "\<exists>q. scs_ok q \<and> scs_queue q = [late_chunk 110 False, late_chunk 150 True] \<and> scs_chunk_num q = 2 \<and> sc_max q = 8"
proof -
  obtain q where q: "scs_ok q" "scs_queue q = [late_chunk 110 False]" "scs_chunk_num q = 1" "sc_max q = 8"
    using scs_put_chunk_queue [of "scs_new 8" "late_chunk 110 False"] scs_new_ok [of 8] by (auto simp: late_chunk_def)
  then show ?thesis using scs_put_chunk_queue [of q "late_chunk 150 True"] by (auto simp: late_chunk_def)
qed

text \<open>The reorder buffer runs and holds the stamps of both chunks.\<close>

definition ro_late :: "int list \<Rightarrow> pts_ro" where
  "ro_late l = \<lparr>ts = l @ replicate (8 - length l) 0, num = int (length l), run = True\<rparr>"

definition pst_late :: "scs \<Rightarrow> int list \<Rightarrow> pst" where
  "pst_late v l = (pst_start 8 (sb_empty 4096 512))\<lparr>vid := v, ro_ctx := Some (ro_late l)\<rparr>"

lemma pst_late_ok:
  assumes "scs_ok v" "scs_chunk_num v = 2" "sc_max v = 8" "l = [] \<or> l = [110, 150]"
  shows "stores_ok (pst_late v l)" "vid (pst_late v l) = v" "ro_num (pst_late v l) = Some (int (length l))"
  using assms scs_new_ok [of 8]
  by (auto simp: stores_ok_def pst_late_def pst_start_def ro_late_def pts_ok_def stamps_def ro_num_def)

theorem find_then_drop_keeps_key_frame_witness:
  "\<exists>v s'. scs_queue v = [late_chunk 110 False, late_chunk 150 True]
    \<and> stream_parser_find_key_frame (pst_late v [110, 150]) 500 = Some (1, Some 150)
    \<and> stream_parser_drop_video (pst_late v [110, 150]) 150 0 = Some (1, s') \<and> scs_queue (vid s') = [late_chunk 150 True]"
proof -
  obtain v where v: "scs_ok v" "scs_queue v = [late_chunk 110 False, late_chunk 150 True]" "scs_chunk_num v = 2" "sc_max v = 8"
    using late_queue by blast
  let ?s = "pst_late v [110, 150]"
  have ok: "stores_ok ?s" "vid ?s = v" "ro_num ?s = Some 2" using pst_late_ok [OF v(1,3,4), of "[110, 150]"] by simp_all
  have k: "key_places (scs_queue (vid ?s)) 500 = [1]" by (simp add: ok(2) v(2) key_places_def late_chunk_def chunk_zero_def)
  have d: "length (takeWhile (\<lambda>c. ck_time c < 150) (scs_queue (vid ?s))) = 1" by (simp add: ok(2) v(2) late_chunk_def)
  have t: "ck_time (scs_queue (vid ?s) ! last [1]) = 150" by (simp add: ok(2) v(2) late_chunk_def)
  have "stamps_for ?s 1" by (simp add: stamps_for_def ok(3))
  with find_then_drop_keeps_key_frame [OF ok(1), of 500, unfolded k t d] show ?thesis
    by (intro exI [of _ v]) (auto simp: ok(2) v(2))
qed

text \<open>
  Chunks that were queued before the reorder buffer started have no stamp in it: catching up then takes
  the first stamp of an empty buffer and moves a block of negative size.
\<close>

lemma late_start_of_reordering:
  "\<exists>v. scs_queue v = [late_chunk 110 False, late_chunk 150 True] \<and> stores_ok (pst_late v [])
    \<and> stream_parser_drop_video (pst_late v []) 150 0 = None"
proof -
  obtain v where v: "scs_ok v" "scs_queue v = [late_chunk 110 False, late_chunk 150 True]" "scs_chunk_num v = 2" "sc_max v = 8"
    using late_queue by blast
  let ?s = "pst_late v []"
  have ok: "stores_ok ?s" "vid ?s = v" "ro_num ?s = Some 0" using pst_late_ok [OF v(1,3,4), of "[]"] by simp_all
  have "\<not> stamps_for ?s 1" by (simp add: stamps_for_def ok(3))
  moreover have "length (takeWhile (\<lambda>c. ck_time c < 150) (scs_queue (vid ?s))) = 1" by (simp add: ok(2) v(2) late_chunk_def)
  ultimately have "stream_parser_drop_video ?s 150 0 = None" using drop_video_exact [OF ok(1), of 150 0] by (simp add: Let_def)
  then show ?thesis using v(2) ok(1) by blast
qed

definition syn_late :: "pst \<Rightarrow> syn" where
  "syn_late p = \<lparr>par = p\<lparr>video_time := 100, audio_time := 300\<rparr>, samples_mode = False, slideshow = False, audio_ref_time = 0,
     sdelay = 0, delay_valid = True, delay_fb = 900, sdrop = 0, drop_P = False, drop_B = False, sync_audio = False,
     sync_video = False, sync_v_time = 100, sync_a_time = 300, audio_end = False, video_end = False, speed = 0,
     play_n_video_frames = False, play_n_audio_frames = False, av_delay = 0, vtime_post_sink = False,
     audio_dec = Some 0, audio_sink = Some 0, video_sink = Some \<lparr>sk_put_time = False, sk_delay = None, sk_times = []\<rparr>,
     msPerFrame = 40\<rparr>"

definition sglob_default :: sglob where
  "sglob_default = \<lparr>stream_no_sync = False, stream_video_paused = False, stream_audio_paused = False, stream_max_delay = 1,
     stream_bdrop_threshold = 0, stream_pdrop_threshold = 1000, stream_dbg_delay = 0, to_ts = id\<rparr>"

text \<open>200 ms late with a threshold of 40 ms and no averaging yet: a frame is dropped and 40 ms are paid back.\<close>

theorem stream_sync_controls_witness:
  "\<exists>s'. stream_sync sglob_default ((syn_late (pst_start 8 (sb_empty 4096 512)))\<lparr>delay_valid := False\<rparr>) = Some s' \<and> sync_ok s'
    \<and> (sdrop s' = 1 \<and> sdelay s' = -160 \<or> drop_P s')"
proof -
  let ?s = "(syn_late (pst_start 8 (sb_empty 4096 512)))\<lparr>delay_valid := False\<rparr>"
  have "sync_ok ?s"
    using scs_new_ok [of 8] by (simp add: sync_ok_def syn_late_def stores_ok_def stamps_even_def pst_start_def)
  moreover have "0 \<le> stream_max_delay sglob_default * msPerFrame ?s"
    by (simp add: sglob_default_def syn_late_def)
  moreover have "stream_av_diff sglob_default ?s (video_time (par ?s)) (audio_time (par ?s)) = -200"
    by (simp add: stream_av_diff_def stream_sync_av_delay_def sglob_default_def syn_late_def i32_def Let_def)
  moreover have "average_delay ?s (-200) = -200" "\<not> sync_off sglob_default ?s"
    by (simp_all add: average_delay_def sync_off_def syn_late_def audio_is_valid_def video_is_valid_def pst_start_def sglob_default_def)
  ultimately show ?thesis using stream_sync_controls [of ?s sglob_default]
    by (auto simp: sglob_default_def syn_late_def)
qed

end
