(* ===== verification/Downmix.thy ===== *)
theory Downmix
  imports Byte_Access
begin

text \<open>
  Mixing up to eight channels of audio down to stereo of 16 bits (Source/downmix.c). The samples of a frame
  go to a slot per speaker, given by a map; left and right are sums of slots, scaled and clamped. The four
  functions differ in where the samples are (interleaved or a plane per channel) and in their type;
  the rounding of floating-point samples (lrintf) is an argument. A null pointer for the output or the input
  makes them return at once, like no_downmix.
\<close>

section \<open>Samples\<close>

definition clamp :: "int \<Rightarrow> int" where
  "clamp v = (if v > 32767 then 32767 else if v < -32768 then -32768 else v)"

text \<open>The value of a sample, nothing for another number of bits, and the step of the pointer.\<close>

definition pcm_value :: "int \<Rightarrow> u8 list \<Rightarrow> int \<Rightarrow> int option option" where
  "pcm_value bits src p =
     (if bits = 16 then map_option Some (getS16LE src p)
      else if bits = 24 then map_option Some (getS24LE src p)
      else if bits = 32 then map_option Some (getS32LE src p)
      else Some None)"

definition pcm_step :: "int \<Rightarrow> int" where
  "pcm_step bits = (if bits = 16 then 2 else if bits = 24 then 3 else if bits = 32 then 4 else 0)"

definition float_value :: "(u8 list \<Rightarrow> int) \<Rightarrow> int \<Rightarrow> u8 list \<Rightarrow> int \<Rightarrow> int option option" where
  "float_value rint bits src p =
     (if bits = 32 then map_option (\<lambda>xs. Some (clamp (rint xs))) (rd_blk src p 4)
      else if bits = 64 then map_option (\<lambda>xs. Some (clamp (rint xs))) (rd_blk src p 8)
      else Some None)"

definition float_step :: "int \<Rightarrow> int" where
  "float_step bits = (if bits = 32 then 4 else if bits = 64 then 8 else 0)"

definition shift_of :: "int \<Rightarrow> nat" where
  "shift_of bits = (if bits = 32 then 16 else if bits = 24 then 8 else 0)"

section \<open>One frame\<close>

definition CH_FL :: nat where "CH_FL = 1"
definition CH_FR :: nat where "CH_FR = 2"
definition CH_CTR :: nat where "CH_CTR = 3"
definition CH_SUB :: nat where "CH_SUB = 4"
definition CH_BL :: nat where "CH_BL = 5"
definition CH_BR :: nat where "CH_BR = 6"
definition CH_SL :: nat where "CH_SL = 7"
definition CH_SR :: nat where "CH_SR = 8"

lemmas ch_defs = CH_FL_def CH_FR_def CH_CTR_def CH_SUB_def CH_BL_def CH_BR_def CH_SL_def CH_SR_def

definition set_slot :: "int list \<Rightarrow> int \<Rightarrow> int list \<Rightarrow> int option \<Rightarrow> int list option" where
  "set_slot mp c ch v = (case v of None \<Rightarrow> Some ch | Some x \<Rightarrow> do { k \<leftarrow> rd mp c; wr ch k x })"

text \<open>The loop over the channels of an interleaved frame; the pointer moves on.\<close>

function load_frame :: "(u8 list \<Rightarrow> int \<Rightarrow> int option option) \<Rightarrow> int \<Rightarrow> u8 list \<Rightarrow> int list \<Rightarrow> int \<Rightarrow> int \<Rightarrow> int list \<Rightarrow> int
    \<Rightarrow> (int list \<times> int) option" where
  "load_frame val step src mp n c ch p =
     (if c < n then do {
        v \<leftarrow> val src p;
        ch \<leftarrow> set_slot mp c ch v;
        load_frame val step src mp n (c + 1) ch (p + step) }
      else Some (ch, p))"
  by pat_completeness auto
termination by (relation "measure (\<lambda>(v, s, src, mp, n, c, ch, p). nat (n - c))") auto

declare load_frame.simps [simp del]

text \<open>The same over planes, with a pointer each.\<close>

function load_planes :: "(u8 list \<Rightarrow> int \<Rightarrow> int option option) \<Rightarrow> int \<Rightarrow> u8 list list \<Rightarrow> int list \<Rightarrow> int \<Rightarrow> int \<Rightarrow> int list \<Rightarrow> int list
    \<Rightarrow> (int list \<times> int list) option" where
  "load_planes val step srcs mp n c ch ps =
     (if c < n then do {
        src \<leftarrow> rd srcs c;
        p \<leftarrow> rd ps c;
        v \<leftarrow> val src p;
        ch \<leftarrow> set_slot mp c ch v;
        ps \<leftarrow> wr ps c (p + step);
        load_planes val step srcs mp n (c + 1) ch ps }
      else Some (ch, ps))"
  by pat_completeness auto
termination by (relation "measure (\<lambda>(v, s, src, mp, n, c, ch, p). nat (n - c))") auto

declare load_planes.simps [simp del]

text \<open>Left and right, in 32 bits; a single channel is copied to both.\<close>

definition mix_left :: "nat \<Rightarrow> int \<Rightarrow> int list \<Rightarrow> int" where
  "mix_left sh n ch = clamp (drop_bit sh
     (if n = 1 then ch ! CH_FL else i32 (ch ! CH_FL + ch ! CH_CTR + ch ! CH_SUB + ch ! CH_BL + ch ! CH_SL)))"

definition mix_right :: "nat \<Rightarrow> int \<Rightarrow> int list \<Rightarrow> int" where
  "mix_right sh n ch = clamp (drop_bit sh
     (if n = 1 then ch ! CH_FL else i32 (ch ! CH_FR + ch ! CH_CTR + ch ! CH_SUB + ch ! CH_BR + ch ! CH_SR)))"

definition put_frame :: "nat \<Rightarrow> int \<Rightarrow> int list \<Rightarrow> u16 list \<Rightarrow> int \<Rightarrow> u16 list option" where
  "put_frame sh n ch pcm j = do {
     pcm \<leftarrow> wr pcm j (word_of_int (mix_left sh n ch));
     wr pcm (j + 1) (word_of_int (mix_right sh n ch)) }"

section \<open>The four functions\<close>

primrec mix_frames :: "(u8 list \<Rightarrow> int \<Rightarrow> int option option) \<Rightarrow> int \<Rightarrow> nat \<Rightarrow> u8 list \<Rightarrow> int list \<Rightarrow> int \<Rightarrow> nat \<Rightarrow> int \<Rightarrow> u16 list \<Rightarrow> int
    \<Rightarrow> u16 list option" where
  "mix_frames val step sh src mp n 0 p pcm j = Some pcm"
| "mix_frames val step sh src mp n (Suc i) p pcm j = do {
     (ch, p) \<leftarrow> load_frame val step src mp n 0 (replicate 9 0) p;
     pcm \<leftarrow> put_frame sh n ch pcm j;
     mix_frames val step sh src mp n i p pcm (j + 2) }"

primrec mix_planes :: "(u8 list \<Rightarrow> int \<Rightarrow> int option option) \<Rightarrow> int \<Rightarrow> nat \<Rightarrow> u8 list list \<Rightarrow> int list \<Rightarrow> int \<Rightarrow> nat \<Rightarrow> int list \<Rightarrow> u16 list \<Rightarrow> int
    \<Rightarrow> u16 list option" where
  "mix_planes val step sh srcs mp n 0 ps pcm j = Some pcm"
| "mix_planes val step sh srcs mp n (Suc i) ps pcm j = do {
     (ch, ps) \<leftarrow> load_planes val step srcs mp n 0 (replicate 9 0) ps;
     pcm \<leftarrow> put_frame sh n ch pcm j;
     mix_planes val step sh srcs mp n i ps pcm (j + 2) }"

definition downmix :: "bool \<Rightarrow> u16 list \<Rightarrow> u8 list \<Rightarrow> int \<Rightarrow> int \<Rightarrow> int \<Rightarrow> int list \<Rightarrow> u16 list option" where
  "downmix no_downmix pcm src samples channels bits mp =
     (if no_downmix \<or> channels > 8 then Some pcm
      else mix_frames (pcm_value bits) (pcm_step bits) (shift_of bits) src mp channels (nat samples) 0 pcm 0)"

definition downmix_planar :: "bool \<Rightarrow> u16 list \<Rightarrow> u8 list list \<Rightarrow> int \<Rightarrow> int \<Rightarrow> int \<Rightarrow> int list \<Rightarrow> u16 list option" where
  "downmix_planar no_downmix pcm srcs samples channels bits mp =
     (if no_downmix \<or> channels > 8 then Some pcm
      else do {
        srcs \<leftarrow> rd_blk srcs 0 (max channels 0);
        mix_planes (pcm_value bits) (pcm_step bits) (shift_of bits) srcs mp channels (nat samples)
          (replicate (nat channels) 0) pcm 0 })"

definition downmix_float :: "(u8 list \<Rightarrow> int) \<Rightarrow> bool \<Rightarrow> u16 list \<Rightarrow> u8 list \<Rightarrow> int \<Rightarrow> int \<Rightarrow> int \<Rightarrow> int list \<Rightarrow> u16 list option" where
  "downmix_float rint no_downmix pcm src samples channels bits mp =
     (if no_downmix \<or> channels > 8 then Some pcm
      else mix_frames (float_value rint bits) (float_step bits) 0 src mp channels (nat samples) 0 pcm 0)"

definition downmix_float_planar ::
    "(u8 list \<Rightarrow> int) \<Rightarrow> bool \<Rightarrow> u16 list \<Rightarrow> u8 list list \<Rightarrow> int \<Rightarrow> int \<Rightarrow> int \<Rightarrow> int list \<Rightarrow> u16 list option" where
  "downmix_float_planar rint no_downmix pcm srcs samples channels bits mp =
     (if no_downmix \<or> channels > 8 then Some pcm
      else do {
        srcs \<leftarrow> rd_blk srcs 0 (max channels 0);
        mix_planes (float_value rint bits) (float_step bits) 0 srcs mp channels (nat samples)
          (replicate (nat channels) 0) pcm 0 })"

section \<open>Planes and interleaved samples\<close>

text \<open>The planes hold the samples of the interleaved data, from frame i on.\<close>

definition same_samples :: "(u8 list \<Rightarrow> int \<Rightarrow> int option option) \<Rightarrow> int \<Rightarrow> u8 list \<Rightarrow> u8 list list \<Rightarrow> nat \<Rightarrow> nat \<Rightarrow> bool" where
  "same_samples val step src srcs n m \<longleftrightarrow> length srcs = n \<and>
     (\<forall>i<m. \<forall>c<n. val (srcs ! c) (int i * step) = val src (int (i * n + c) * step))"

lemma load_planes_frame:
  assumes "same_samples val step src srcs n m" "i < m" "c \<le> n" "length ps = n"
    and "\<forall>d<n. ps ! d = int (if d < c then Suc i else i) * step"
  shows "load_planes val step srcs mp (int n) (int c) ch ps =
    map_option (\<lambda>(ch, p). (ch, map (\<lambda>_. int (Suc i) * step) [0..<n]))
      (load_frame val step src mp (int n) (int c) ch (int (i * n + c) * step))"
  using assms(3-)
proof (induction "n - c" arbitrary: c ch ps)
  case 0
  then have "ps = map (\<lambda>_. int (Suc i) * step) [0..<n]" by (intro nth_equalityI) auto
  then show ?case using 0 by (subst load_planes.simps, subst load_frame.simps) simp
next
  case (Suc k)
  then have c: "c < n" "k = n - Suc c" by auto
  have r: "rd srcs (int c) = Some (srcs ! c)" "rd ps (int c) = Some (int i * step)"
    "val (srcs ! c) (int i * step) = val src (int (i * n + c) * step)"
    "wr ps (int c) (int i * step + step) = Some (ps[c := int (Suc i) * step])"
    using assms(1,2) c Suc.prems by (auto simp: same_samples_def mem algebra_simps)
  have ih: "load_planes val step srcs mp (int n) (int (Suc c)) ch' (ps[c := int (Suc i) * step]) =
      map_option (\<lambda>(ch, p). (ch, map (\<lambda>_. int (Suc i) * step) [0..<n]))
        (load_frame val step src mp (int n) (int (Suc c)) ch' (int (i * n + Suc c) * step))" for ch'
    by (rule Suc.hyps(1)) (use c Suc.prems in \<open>auto simp: nth_list_update less_Suc_eq\<close>)
  define q q' where "q = int (i * n + c) * step" and "q' = int (i * n + Suc c) * step"
  have e: "q + step = q'" "int c + 1 = int (Suc c)" by (simp_all add: q_def q'_def algebra_simps)
  have "load_frame val step src mp (int n) (int c) ch q = do { v \<leftarrow> val src q; ch \<leftarrow> set_slot mp (int c) ch v;
      load_frame val step src mp (int n) (int (Suc c)) ch q' }"
    using c(1) by (subst load_frame.simps) (simp only: e of_nat_less_iff if_True)
  moreover have "load_planes val step srcs mp (int n) (int c) ch ps = do { v \<leftarrow> val src q; ch \<leftarrow> set_slot mp (int c) ch v;
      load_planes val step srcs mp (int n) (int (Suc c)) ch (ps[c := int (Suc i) * step]) }"
    using c(1) by (subst load_planes.simps) (simp only: r [folded q_def] e of_nat_less_iff if_True bind.bind_lunit)
  ultimately show ?case unfolding q_def [symmetric] ih [folded q'_def]
    by (auto split: Option.bind_splits)
qed

lemma mix_planes_frames:
  assumes same: "same_samples val step src srcs n m" and "k \<le> m"
  shows "mix_planes val step sh srcs mp (int n) k (map (\<lambda>_. int (m - k) * step) [0..<n]) pcm j =
    mix_frames val step sh src mp (int n) k (int ((m - k) * n) * step) pcm j"
  using assms(2)
proof (induction k arbitrary: pcm j)
  case (Suc k)
  define i where "i = m - Suc k"
  have i: "i < m" "Suc i = m - k" "Suc i * n = i * n + n" using Suc.prems by (auto simp: i_def)
  have frame: "load_frame val step src mp (int n) 0 ch (int (i * n) * step) = Some (ch', p) \<Longrightarrow> p = int (Suc i * n) * step" for ch ch' p
  proof -
    have "load_frame val step src mp (int n) (int c) ch x = Some (ch', p) \<Longrightarrow> c \<le> n \<Longrightarrow> p = x + int (n - c) * step" for c ch x
    proof (induction "n - c" arbitrary: c ch x)
      case 0
      then show ?case by (subst (asm) load_frame.simps) simp
    next
      case (Suc d)
      then obtain ch1 where "load_frame val step src mp (int n) (int (Suc c)) ch1 (x + step) = Some (ch', p)"
        by (subst (asm) load_frame.simps) (auto simp: bind_eq_Some_iff add.commute split: if_splits)
      from Suc.hyps(1) [OF _ this] Suc.hyps(2) have "p = x + step + int (n - Suc c) * step" by simp
      moreover have "int (n - c) = int (n - Suc c) + 1" using Suc.hyps(2) by simp
      ultimately show ?case by (simp add: algebra_simps)
    qed
    from this [of 0 ch "int (i * n) * step"] show "load_frame val step src mp (int n) 0 ch (int (i * n) * step) = Some (ch', p) \<Longrightarrow> ?thesis"
      by (simp add: algebra_simps)
  qed
  have l: "load_planes val step srcs mp (int n) 0 (replicate 9 0) (map (\<lambda>_. int i * step) [0..<n]) =
    map_option (\<lambda>(ch, p). (ch, map (\<lambda>_. int (Suc i) * step) [0..<n])) (load_frame val step src mp (int n) 0 (replicate 9 0) (int (i * n) * step))"
    using load_planes_frame [OF same i(1), of 0 "map (\<lambda>_. int i * step) [0..<n]" mp "replicate 9 0"] by simp
  show ?case
    unfolding i_def [symmetric] mix_planes.simps mix_frames.simps l
    using Suc.IH Suc.prems i(2) frame
    by (auto split: Option.bind_splits)
qed simp

text \<open>
  C34. Planes and interleaved samples mix alike. When the planes hold the samples of the interleaved data, one
  value per frame and channel, the planar and the interleaved functions leave the same output, for every width,
  number of channels and map, and fail on the same inputs.
\<close>

theorem downmix_planar_interleaved:
  assumes "same_samples (pcm_value bits) (pcm_step bits) src srcs n m"
  shows "downmix_planar off pcm srcs (int m) (int n) bits mp = downmix off pcm src (int m) (int n) bits mp"
  using mix_planes_frames [OF assms order_refl, of "shift_of bits" mp pcm 0] assms
  by (simp add: downmix_planar_def downmix_def rd_blk_def same_samples_def map_replicate_const)

lemma downmix_float_planar_interleaved:
  assumes "same_samples (float_value rint bits) (float_step bits) src srcs n m"
  shows "downmix_float_planar rint off pcm srcs (int m) (int n) bits mp = downmix_float rint off pcm src (int m) (int n) bits mp"
  using mix_planes_frames [OF assms order_refl, of 0 mp pcm 0] assms
  by (simp add: downmix_float_planar_def downmix_float_def rd_blk_def same_samples_def map_replicate_const)

section \<open>What is mixed\<close>

text \<open>A map sends each of the n channels to a slot of its own.\<close>

definition map_ok :: "int list \<Rightarrow> nat \<Rightarrow> bool" where
  "map_ok mp n \<longleftrightarrow> n \<le> length mp \<and> n \<le> 8 \<and> distinct (take n mp) \<and> (\<forall>c<n. 0 \<le> mp ! c \<and> mp ! c \<le> 8)"

text \<open>The sum of the channels of a frame that go to one of the speakers.\<close>

definition speakers :: "int list \<Rightarrow> nat \<Rightarrow> (nat \<Rightarrow> int) \<Rightarrow> int set \<Rightarrow> int" where
  "speakers mp n v S = (\<Sum>c<n. if mp ! c \<in> S then v c else 0)"

definition left_speakers :: "int set" where "left_speakers = {1, 3, 4, 5, 7}"
definition right_speakers :: "int set" where "right_speakers = {2, 3, 4, 6, 8}"

definition slots :: "int list \<Rightarrow> nat \<Rightarrow> (nat \<Rightarrow> int) \<Rightarrow> int list" where
  "slots mp c v = map (\<lambda>k. speakers mp c v {int k}) [0..<9]"

lemma slots_Suc:
  assumes "map_ok mp n" "c < n"
  shows "(slots mp c v)[nat (mp ! c) := v c] = slots mp (Suc c) v"
proof (rule nth_equalityI)
  fix k assume "k < length ((slots mp c v)[nat (mp ! c) := v c])"
  then have k: "k < 9" by (simp add: slots_def)
  have m: "0 \<le> mp ! c" "mp ! c \<le> 8" using assms by (auto simp: map_ok_def)
  have "mp ! d \<noteq> mp ! c" if "d < c" for d
    using assms that nth_eq_iff_index_eq [of "take n mp" d c] by (simp add: map_ok_def)
  then have "speakers mp c v {mp ! c} = 0" by (simp add: speakers_def)
  then show "(slots mp c v)[nat (mp ! c) := v c] ! k = slots mp (Suc c) v ! k"
    using k m by (auto simp: slots_def nth_list_update speakers_def)
qed (simp add: slots_def)

lemma load_frame_slots:
  assumes mp: "map_ok mp n" and v: "\<forall>c<n. val src (p + int c * step) = Some (Some (v c))" and "c \<le> n"
  shows "load_frame val step src mp (int n) (int c) (slots mp c v) (p + int c * step) = Some (slots mp n v, p + int n * step)"
  using assms(3)
proof (induction "n - c" arbitrary: c)
  case 0
  then show ?case by (subst load_frame.simps) simp
next
  case (Suc k)
  then have c: "c < n" by simp
  have "set_slot mp (int c) (slots mp c v) (Some (v c)) = Some (slots mp (Suc c) v)"
    using mp c slots_Suc [OF mp c, of v] by (auto simp: set_slot_def map_ok_def mem slots_def)
  moreover have "val src (p + int c * step) = Some (Some (v c))" using v c by blast
  moreover have "p + int c * step + step = p + int (Suc c) * step" "int c + 1 = int (Suc c)" by (simp_all add: algebra_simps)
  moreover have "load_frame val step src mp (int n) (int (Suc c)) (slots mp (Suc c) v) (p + int (Suc c) * step) =
      Some (slots mp n v, p + int n * step)"
    by (rule Suc.hyps(1)) (use c Suc.hyps(2) in auto)
  ultimately show ?case using c
    by (subst load_frame.simps) (simp only: of_nat_less_iff if_True bind.bind_lunit)
qed

lemma slots_sum:
  assumes "map_ok mp n"
  shows "slots mp n v ! 1 + slots mp n v ! 3 + slots mp n v ! 4 + slots mp n v ! 5 + slots mp n v ! 7 = speakers mp n v left_speakers"
    "slots mp n v ! 2 + slots mp n v ! 3 + slots mp n v ! 4 + slots mp n v ! 6 + slots mp n v ! 8 = speakers mp n v right_speakers"
  by (auto simp: slots_def speakers_def left_speakers_def right_speakers_def simp flip: sum.distrib intro!: sum.cong)

text \<open>The sum that the 32 bits of an int hold.\<close>

definition fits :: "int \<Rightarrow> bool" where "fits x \<longleftrightarrow> -2147483648 \<le> x \<and> x < 2147483648"

definition mixed :: "nat \<Rightarrow> int list \<Rightarrow> nat \<Rightarrow> (nat \<Rightarrow> int) \<Rightarrow> int set \<Rightarrow> u16" where
  "mixed sh mp n v S = word_of_int (clamp (speakers mp n v S div 2 ^ sh))"

lemma mix_frame_value:
  assumes "map_ok mp n" "n \<noteq> 1" "fits (speakers mp n v left_speakers)" "fits (speakers mp n v right_speakers)"
  shows "word_of_int (mix_left sh (int n) (slots mp n v)) = mixed sh mp n v left_speakers"
    "word_of_int (mix_right sh (int n) (slots mp n v)) = mixed sh mp n v right_speakers"
  using assms slots_sum [OF assms(1), of v]
  by (simp_all add: mix_left_def mix_right_def mixed_def ch_defs fits_def i32_id drop_bit_eq_div)

lemma mix_frames_spec:
  assumes "map_ok mp n" "n \<noteq> 1"
    and "\<forall>i<k. \<forall>c<n. val src (p + int (i * n + c) * step) = Some (Some (v i c))"
    and "\<forall>i<k. fits (speakers mp n (v i) left_speakers) \<and> fits (speakers mp n (v i) right_speakers)"
    and "j + 2 * k \<le> length pcm"
  shows "\<exists>pcm'. mix_frames val step sh src mp (int n) k p pcm (int j) = Some pcm' \<and> length pcm' = length pcm
    \<and> (\<forall>i<k. pcm' ! (j + 2 * i) = mixed sh mp n (v i) left_speakers \<and> pcm' ! (j + 2 * i + 1) = mixed sh mp n (v i) right_speakers)
    \<and> (\<forall>i<length pcm. i < j \<or> j + 2 * k \<le> i \<longrightarrow> pcm' ! i = pcm ! i)"
  using assms(3-)
proof (induction k arbitrary: p pcm j v)
  case (Suc k)
  have v0: "\<forall>c<n. val src (p + int c * step) = Some (Some (v 0 c))" using Suc.prems(1) by force
  have z: "replicate 9 0 = slots mp 0 (v 0)" by (simp add: slots_def speakers_def map_replicate_const)
  have l: "load_frame val step src mp (int n) 0 (replicate 9 0) p = Some (slots mp n (v 0), p + int n * step)"
    using load_frame_slots [where v = "v 0" and c = 0 and val = val and src = src and p = p and step = step, OF assms(1) v0] z by simp
  let ?l = "mixed sh mp n (v 0) left_speakers" and ?r = "mixed sh mp n (v 0) right_speakers"
  have "put_frame sh (int n) (slots mp n (v 0)) pcm (int j) = Some (pcm[j := ?l, Suc j := ?r])"
    using Suc.prems(2,3) mix_frame_value [OF assms(1,2), of "v 0" sh]
    by (simp add: put_frame_def mem nat_add_distrib)
  moreover have "\<forall>i<k. \<forall>c<n. val src (p + int n * step + int (i * n + c) * step) = Some (Some (v (Suc i) c))"
  proof (intro allI impI)
    fix i c assume "i < k" "c < n"
    then have "val src (p + int (Suc i * n + c) * step) = Some (Some (v (Suc i) c))" using Suc.prems(1) by blast
    moreover have "p + int (Suc i * n + c) * step = p + int n * step + int (i * n + c) * step" by (simp add: algebra_simps)
    ultimately show "val src (p + int n * step + int (i * n + c) * step) = Some (Some (v (Suc i) c))" by (simp only:)
  qed
  moreover have "\<forall>i<k. fits (speakers mp n (v (Suc i)) left_speakers) \<and> fits (speakers mp n (v (Suc i)) right_speakers)"
    using Suc.prems(2) by blast
  moreover have "j + 2 + 2 * k \<le> length (pcm[j := ?l, Suc j := ?r])" using Suc.prems(3) by simp
  ultimately obtain pcm' where
    r: "mix_frames val step sh src mp (int n) (Suc k) p pcm (int j) = Some pcm'" "length pcm' = length pcm"
      "\<forall>i<k. pcm' ! (j + 2 + 2 * i) = mixed sh mp n (v (Suc i)) left_speakers \<and> pcm' ! (j + 2 + 2 * i + 1) = mixed sh mp n (v (Suc i)) right_speakers"
      "\<forall>i<length pcm. i < j + 2 \<or> j + 2 + 2 * k \<le> i \<longrightarrow> pcm' ! i = pcm[j := ?l, Suc j := ?r] ! i"
    using Suc.IH [of "p + int n * step" "\<lambda>i. v (Suc i)" "j + 2" "pcm[j := ?l, Suc j := ?r]"] l
    by (auto simp: algebra_simps)
  have "pcm' ! (j + 2 * i) = mixed sh mp n (v i) left_speakers \<and> pcm' ! (j + 2 * i + 1) = mixed sh mp n (v i) right_speakers" if "i < Suc k" for i
    using r(3) r(4) [rule_format, of j] r(4) [rule_format, of "Suc j"] that Suc.prems(3) by (cases i) auto
  then show ?case using r(1,2,4) Suc.prems(3) by (intro exI [of _ pcm']) auto
qed simp

lemma drop_bit_range: "\<bar>sint (signed_drop_bit 16 (w :: u32))\<bar> \<le> 8388608" "\<bar>sint (signed_drop_bit 8 (w :: u32))\<bar> \<le> 8388608"
  using sint_range_size [of w] by (auto simp: sint_signed_drop_bit_eq drop_bit_eq_div word_size abs_le_iff)

lemma pcm_value_range: "pcm_value bits src p = Some (Some x) \<Longrightarrow> bits \<noteq> 32 \<Longrightarrow> \<bar>x\<bar> \<le> 8388608"
  using drop_bit_range by (auto simp: pcm_value_def getS16LE_def getS24LE_def bind_eq_Some_iff Let_def split: if_splits)

lemma speakers_fit:
  assumes "map_ok mp n" "\<forall>c<n. \<bar>v c\<bar> \<le> 8388608"
  shows "fits (speakers mp n v S)"
proof -
  have "\<bar>speakers mp n v S\<bar> \<le> (\<Sum>c<n. \<bar>if mp ! c \<in> S then v c else 0\<bar>)" unfolding speakers_def by (rule sum_abs)
  also have "\<dots> \<le> (\<Sum>c<n. 8388608)" by (rule sum_mono) (use assms(2) in auto)
  also have "\<dots> \<le> 8 * 8388608" using assms(1) by (simp add: map_ok_def)
  finally show ?thesis unfolding fits_def by linarith
qed

text \<open>
  C33. The mix. For at least two channels, each with a slot of its own, the function writes two samples per frame and
  nothing else: each is the sum of the channels that the map sends to speakers of that side or to the
  middle, scaled to 16 bits and clamped. The sums must fit 32 bits, which those of 16 and 24 bits always do.
\<close>

theorem downmix_mixes:
  assumes "map_ok mp n" "2 \<le> n" "bits \<in> {16, 24, 32}"
    and "\<forall>i<m. \<forall>c<n. pcm_value bits src (int (i * n + c) * pcm_step bits) = Some (Some (v i c))"
    and "bits = 32 \<longrightarrow> (\<forall>i<m. fits (speakers mp n (v i) left_speakers) \<and> fits (speakers mp n (v i) right_speakers))"
    and "2 * m \<le> length pcm"
  shows "\<exists>pcm'. downmix False pcm src (int m) (int n) bits mp = Some pcm' \<and> length pcm' = length pcm
    \<and> (\<forall>i<m. pcm' ! (2 * i) = mixed (shift_of bits) mp n (v i) left_speakers
        \<and> pcm' ! (2 * i + 1) = mixed (shift_of bits) mp n (v i) right_speakers)
    \<and> (\<forall>i<length pcm. 2 * m \<le> i \<longrightarrow> pcm' ! i = pcm ! i)"
proof -
  have "fits (speakers mp n (v i) S)" if "i < m" "bits \<noteq> 32" for i S
  proof (rule speakers_fit [OF assms(1)])
    show "\<forall>c<n. \<bar>v i c\<bar> \<le> 8388608" using assms(3,4) that pcm_value_range by (metis insert_iff empty_iff)
  qed
  then have f: "\<forall>i<m. fits (speakers mp n (v i) left_speakers) \<and> fits (speakers mp n (v i) right_speakers)"
    using assms(5) by blast
  show ?thesis
    using mix_frames_spec [OF assms(1) _ _ f, of "pcm_value bits" src 0 "pcm_step bits" 0 pcm "shift_of bits"] assms
    by (simp add: downmix_def map_ok_def)
qed

theorem downmix_mixes_witness:
  "\<exists>pcm'. downmix False [0, 0, 5] [1, 0, 2, 0, 255, 127] 1 3 16 [1, 2, 3] = Some pcm' \<and> pcm' ! 0 = 32767 \<and> pcm' ! 2 = 5"
proof -
  have v: "\<forall>i<1. \<forall>c<3. pcm_value 16 [1, 0, 2, 0, 255, 127] (int (i * 3 + c) * pcm_step 16) = Some (Some ([1, 2, 32767] ! c))"
    by (auto simp: less_Suc_eq numeral_3_eq_3 pcm_value_def pcm_step_def getS16LE_def)
  have mp: "map_ok [1, 2, 3] 3" by (auto simp: map_ok_def less_Suc_eq numeral_3_eq_3)
  have "speakers [1, 2, 3] 3 (\<lambda>c. [1, 2, 32767] ! c) left_speakers = 32768"
    by (simp add: speakers_def left_speakers_def numeral_3_eq_3)
  then have "mixed (shift_of 16) [1, 2, 3] 3 (\<lambda>c. [1, 2, 32767] ! c) left_speakers = 32767"
    by (simp add: mixed_def shift_of_def clamp_def)
  then show ?thesis
    using downmix_mixes [OF mp _ _ v, of "[0, 0, 5]"] by fastforce
qed

theorem downmix_planar_interleaved_witness:
  "downmix_planar False [0, 0] [[1, 0], [2, 0]] 1 2 16 [1, 2] = downmix False [0, 0] [1, 0, 2, 0] 1 2 16 [1, 2]"
proof -
  have "same_samples (pcm_value 16) (pcm_step 16) [1, 0, 2, 0] [[1, 0], [2, 0]] 2 1"
    by (auto simp: same_samples_def pcm_value_def pcm_step_def getS16LE_def less_Suc_eq numeral_2_eq_2)
  from downmix_planar_interleaved [OF this, of False "[0, 0]" "[1, 2]"] show ?thesis by simp
qed

text \<open>Two channels of 32 bits at full scale overflow the sum before it is scaled: silence instead of a clip.\<close>

lemma downmix_overflow:
  "downmix False [0, 0] [255, 255, 255, 127, 255, 255, 255, 127] 1 2 32 [1, 3] = Some [-1, 32767]"
  by code_simp

end
