(* ===== verification/Realvideo.thy ===== *)
theory Realvideo
  imports Raw_Bits Video_Props Cbe
begin

text \<open>
  RealVideo streams (Source/realvideo.c): the picture sizes of the extra data, the type and the 13-bit time
  of a picture header, and the mangler that gives B pictures the time of their header relative to the
  reference picture before them.
\<close>

definition VIDEO_FORMAT_RV30 :: int where "VIDEO_FORMAT_RV30 = 19"
definition VIDEO_FORMAT_RV40 :: int where "VIDEO_FORMAT_RV40 = 20"

section \<open>Sizes\<close>

text \<open>dims is the array of the caller. Result: the number of sizes besides the coded one.\<close>

fun dimension_loop :: "u8 list \<Rightarrow> int \<Rightarrow> nat \<Rightarrow> int \<Rightarrow> int list \<Rightarrow> int list option" where
  "dimension_loop data p 0 i dims = Some dims"
| "dimension_loop data p (Suc k) i dims = do {
     w \<leftarrow> rd data p;
     dims \<leftarrow> wr dims (2 * i + 2) (uint w * 4);
     h \<leftarrow> rd data (p + 1);
     dims \<leftarrow> wr dims (2 * i + 3) (uint h * 4);
     dimension_loop data (p + 2) k (i + 1) dims }"

definition realvideo_get_dimensions :: "video_props \<Rightarrow> int list \<Rightarrow> (int \<times> int list) option" where
  "realvideo_get_dimensions v dims =
     (if extraDataSize v < 8 then Some (0, dims)
      else do {
        x \<leftarrow> get32BE (extraData v) 0;
        let num_sizes = unat (drop_bit 16 (x AND 0x00070000));
        dims \<leftarrow> wr dims 0 (v_width v);
        dims \<leftarrow> wr dims 1 (v_height v);
        dims \<leftarrow> dimension_loop (extraData v) 8 num_sizes 0 dims;
        Some (int num_sizes, dims) })"

section \<open>Picture headers\<close>

text \<open>Result: the time and the type, -1 for an error.\<close>

definition realvideo40_get_pts :: "u8 list \<Rightarrow> (int \<times> int) option" where
  "realvideo40_get_pts data = (let bits = BITS_init data (16 * 8) in do {
     (e, bits) \<leftarrow> get_int bits 1;
     (if e \<noteq> 0 then Some (-1, -1)
      else do {
        (type, bits) \<leftarrow> get_int bits 2;
        (quant, bits) \<leftarrow> get_int bits 5;
        (e, bits) \<leftarrow> get_int bits 2;
        (if e \<noteq> 0 then Some (-1, type)
         else do {
           (vlc, bits) \<leftarrow> get_int bits 2;
           (x, bits) \<leftarrow> get_int bits 1;
           (pts, bits) \<leftarrow> get_int bits 13;
           Some (pts, type) }) }) })"

definition realvideo30_get_pts :: "u8 list \<Rightarrow> (int \<times> int) option" where
  "realvideo30_get_pts data = (let bits = BITS_init data (16 * 8) in do {
     (e, bits) \<leftarrow> get_int bits 3;
     (if e \<noteq> 0 then Some (-1, -1)
      else do {
        (type, bits) \<leftarrow> get_int bits 2;
        (e, bits) \<leftarrow> get_int bits 1;
        (if e \<noteq> 0 then Some (-1, type)
         else do {
           (quant, bits) \<leftarrow> get_int bits 5;
           (x, bits) \<leftarrow> BITS_get1 bits;
           (pts, bits) \<leftarrow> get_int bits 13;
           Some (pts, type) }) }) })"

section \<open>The mangler\<close>

record real_priv =
  ref1_ts :: int
  ref1_pts :: int
  ref2_ts :: int
  ref2_pts :: int

definition real_init :: "bool \<Rightarrow> real_priv option \<Rightarrow> int \<Rightarrow> real_priv option" where
  "real_init alloc_ok priv t = do {
     p \<leftarrow> (case priv of Some p \<Rightarrow> Some p
          | None \<Rightarrow> if alloc_ok then Some \<lparr>ref1_ts = 0, ref1_pts = 0, ref2_ts = 0, ref2_pts = 0\<rparr> else None);
     Some (p\<lparr>ref1_ts := -1, ref2_ts := -1\<rparr>) }"

text \<open>The time and type of the picture at the read position, by the format of the video.\<close>

definition real_header :: "int \<Rightarrow> u8 list \<Rightarrow> (int \<times> int) option" where
  "real_header fmt data =
     (if fmt = VIDEO_FORMAT_RV40 then realvideo40_get_pts data
      else if fmt = VIDEO_FORMAT_RV30 then realvideo30_get_pts data
      else Some (0, -1))"

definition real_pre :: "int \<Rightarrow> real_priv \<Rightarrow> cbe \<Rightarrow> stream_cdata \<Rightarrow> (real_priv \<times> stream_cdata) option" where
  "real_pre fmt p c cd = do {
     (pts, type) \<leftarrow> real_header fmt (drop (nat (cbe_get_p c)) (cdata c));
     let cd = (if type \<noteq> -1 then cd\<lparr>frm_type := (if type \<noteq> 0 then type - 1 else frame_code I_VOP)\<rparr> else cd);
     (if frm_type cd = frame_code B_VOP
      then Some (p, if ref2_ts p \<noteq> -1
        then cd\<lparr>c_time := i32 (ref2_ts p + ((pts - ref2_pts p + 8192) AND 0x1FFF))\<rparr> else cd)
      else Some (p\<lparr>ref2_ts := ref1_ts p, ref2_pts := ref1_pts p, ref1_pts := pts, ref1_ts := c_time cd\<rparr>, cd)) }"

section \<open>Correctness\<close>

text \<open>The bits of an error-free header with type ty and time pts.\<close>

definition header_bits :: "int \<Rightarrow> u8 list \<Rightarrow> nat \<Rightarrow> nat \<Rightarrow> bool" where
  "header_bits fmt data ty pts \<longleftrightarrow> 4 \<le> length data \<and>
     (if fmt = VIDEO_FORMAT_RV40
      then bval (take 1 (mbits data)) = 0 \<and> bval (take 2 (drop 1 (mbits data))) = ty
        \<and> bval (take 2 (drop 8 (mbits data))) = 0 \<and> bval (take 13 (drop 13 (mbits data))) = pts
      else fmt = VIDEO_FORMAT_RV30 \<and> bval (take 3 (mbits data)) = 0 \<and> bval (take 2 (drop 3 (mbits data))) = ty
        \<and> bval (take 1 (drop 5 (mbits data))) = 0 \<and> bval (take 13 (drop 12 (mbits data))) = pts)"

lemma real_header_decodes:
  assumes "header_bits fmt data ty pts"
  shows "real_header fmt data = Some (int pts, int ty)"
proof -
  have l: "32 \<le> 8 * length data" using assms by (simp add: header_bits_def)
  note g = at_get_int [where m = data]
  show ?thesis
  proof (cases "fmt = VIDEO_FORMAT_RV40")
    case True
    obtain c1 where c1: "get_int (BITS_init data 128) 1 = Some (int (bval (take 1 (drop 0 (mbits data)))), c1)" "at_bit c1 data 1"
      using g [OF at_init, of 1 128] l by auto
    obtain c2 where c2: "get_int c1 2 = Some (int (bval (take 2 (drop 1 (mbits data)))), c2)" "at_bit c2 data 3"
      using g [OF c1(2), of 2] l by (auto simp: numeral_3_eq_3)
    obtain c3 x3 where c3: "get_int c2 5 = Some (x3, c3)" "at_bit c3 data 8" using g [OF c2(2), of 5] l by auto
    obtain c4 where c4: "get_int c3 2 = Some (int (bval (take 2 (drop 8 (mbits data)))), c4)" "at_bit c4 data 10"
      using g [OF c3(2), of 2] l by auto
    obtain c5 x5 where c5: "get_int c4 2 = Some (x5, c5)" "at_bit c5 data 12" using g [OF c4(2), of 2] l by auto
    obtain c6 x6 where c6: "get_int c5 1 = Some (x6, c6)" "at_bit c6 data 13" using g [OF c5(2), of 1] l by auto
    obtain c7 where c7: "get_int c6 13 = Some (int (bval (take 13 (drop 13 (mbits data)))), c7)"
      using g [OF c6(2), of 13] l by auto
    show ?thesis using True assms c1(1) c2(1) c3(1) c4(1) c5(1) c6(1) c7
      by (simp add: real_header_def realvideo40_get_pts_def header_bits_def del: One_nat_def)
  next
    case False
    then have rv30: "fmt = VIDEO_FORMAT_RV30" using assms by (simp add: header_bits_def)
    obtain c1 where c1: "get_int (BITS_init data 128) 3 = Some (int (bval (take 3 (drop 0 (mbits data)))), c1)" "at_bit c1 data 3"
      using g [OF at_init, of 3 128] l by auto
    obtain c2 where c2: "get_int c1 2 = Some (int (bval (take 2 (drop 3 (mbits data)))), c2)" "at_bit c2 data 5"
      using g [OF c1(2), of 2] l by auto
    obtain c3 where c3: "get_int c2 1 = Some (int (bval (take 1 (drop 5 (mbits data)))), c3)" "at_bit c3 data 6"
      using g [OF c2(2), of 1] l by auto
    obtain c4 x4 where c4: "get_int c3 5 = Some (x4, c4)" "at_bit c4 data 11" using g [OF c3(2), of 5] l by auto
    obtain c5 x5 where c5: "BITS_get1 c4 = Some (x5, c5)" "at_bit c5 data 12" using at_get1 [OF c4(2)] l by auto
    obtain c6 where c6: "get_int c5 13 = Some (int (bval (take 13 (drop 12 (mbits data)))), c6)"
      using g [OF c5(2), of 13] l by auto
    show ?thesis using rv30 assms c1(1) c2(1) c3(1) c4(1) c5(1) c6
      by (simp add: real_header_def realvideo30_get_pts_def header_bits_def VIDEO_FORMAT_RV30_def VIDEO_FORMAT_RV40_def del: One_nat_def)
  qed
qed

text \<open>The reference times are those of pictures whose headers hold them modulo 8192.\<close>

definition refs_true :: "real_priv \<Rightarrow> bool" where
  "refs_true p \<longleftrightarrow> (ref1_ts p \<noteq> -1 \<longrightarrow> ref1_pts p = ref1_ts p mod 8192) \<and> (ref2_ts p \<noteq> -1 \<longrightarrow> ref2_pts p = ref2_ts p mod 8192)"

text \<open>
  C39. The times of B pictures. When every header holds the true time of its picture modulo 8192 and the
  container gives the true times of reference pictures, the mangler keeps the reference times right, and a B picture
  that is shown less than 8192 ms after the reference before it leaves with its true time, whatever time the
  container gave it (times are ints: T is below 2 ^ 31). Types 0 and 1 become I, 2 P, 3 B pictures.
\<close>

theorem real_pre_B_time:
  assumes "refs_true p" "header_bits fmt (drop (nat (cbe_get_p c)) (cdata c)) ty (nat (T mod 8192))" "0 \<le> T" "T < 2 ^ 31"
    and "ty \<noteq> 3 \<longrightarrow> c_time cd = T"
  shows "\<exists>p' cd'. real_pre fmt p c cd = Some (p', cd') \<and> refs_true p'
    \<and> frm_type cd' = (if ty = 0 then 0 else int ty - 1)
    \<and> (if ty = 3 then p' = p \<and> (ref2_ts p \<noteq> -1 \<and> ref2_ts p \<le> T \<and> T < ref2_ts p + 8192 \<longrightarrow> c_time cd' = T)
       else c_time cd' = T \<and> ref1_ts p' = T \<and> ref2_ts p' = ref1_ts p)"
proof -
  have h: "real_header fmt (drop (nat (cbe_get_p c)) (cdata c)) = Some (T mod 8192, int ty)"
    using real_header_decodes [OF assms(2)] by simp
  have m: "x AND 8191 = x mod 8192" for x :: int using take_bit_eq_mask [of 13 x] by (simp add: take_bit_eq_mod mask_eq_exp_minus_1)
  have d: "r + (T mod 8192 - r mod 8192 + 8192) mod 8192 = T" if "r \<le> T" "T < r + 8192" for r
  proof -
    have "(T mod 8192 - r mod 8192 + 8192) mod 8192 = (T - r) mod 8192" by (simp add: mod_simps)
    then show ?thesis using that by simp
  qed
  show ?thesis
  proof (cases "ty = 3")
    case True
    then show ?thesis using assms(1,3,4) h d by (auto simp: real_pre_def refs_true_def m Let_def i32_id)
  next
    case False
    then show ?thesis using assms(1,5) h by (auto simp: real_pre_def refs_true_def Let_def)
  qed
qed

theorem real_pre_B_time_witness:
  "\<exists>p' cd'. real_pre VIDEO_FORMAT_RV40 \<lparr>ref1_ts = 9000, ref1_pts = 808, ref2_ts = 8000, ref2_pts = 8000\<rparr>
     \<lparr>cdata = [0x60, 0, 0x0A, 0x40, 0, 0, 0, 0], csize = 4, overlap = 4, dma = False, wpos = 3, rpos = 0\<rparr>
     \<lparr>c_size = 4, frm_type = 0, c_time = 8080, c_valid = 1, c_user_ID = 0\<rparr> = Some (p', cd') \<and> c_time cd' = 8233"
proof -
  let ?c = "\<lparr>cdata = [0x60, 0, 0x0A, 0x40, 0, 0, 0, 0], csize = 4, overlap = 4, dma = False, wpos = 3, rpos = 0\<rparr>"
  have "header_bits VIDEO_FORMAT_RV40 (drop (nat (cbe_get_p ?c)) (cdata ?c)) 3 (nat (8233 mod 8192))"
    by (simp add: header_bits_def cbe_get_p_def mbits_def byte_bits_code bval_def)
  moreover have "refs_true \<lparr>ref1_ts = 9000, ref1_pts = 808, ref2_ts = 8000, ref2_pts = 8000\<rparr>" by (simp add: refs_true_def)
  ultimately show ?thesis
    using real_pre_B_time [of "\<lparr>ref1_ts = 9000, ref1_pts = 808, ref2_ts = 8000, ref2_pts = 8000\<rparr>" VIDEO_FORMAT_RV40 ?c 3 8233
      "\<lparr>c_size = 4, frm_type = 0, c_time = 8080, c_valid = 1, c_user_ID = 0\<rparr>"] by auto
qed

text \<open>The number of sizes comes from the first word, the size of the extra data is not compared with it.\<close>

lemma realvideo_get_dimensions_over_read:
  assumes "extraDataSize v = 8" "extraData v = [0, 1, 0, 0, 0, 0, 0, 0]"
  shows "realvideo_get_dimensions v (replicate 16 0) = None"
  using assms by (simp add: realvideo_get_dimensions_def get32BE_def rd_def wr_def)

end
