(* ===== verification/Wmv.thy ===== *)
theory Wmv
  imports Raw_Bits Video_Props Cbe
begin

definition VIDEO_FORMAT_VC1 :: int where "VIDEO_FORMAT_VC1 = 7"



section \<open>The sequence header\<close>

text \<open>The first sequence start code; the offset d is added to its position, 0 stands for none.\<close>

function seq_header_loop :: "u8 list \<Rightarrow> int \<Rightarrow> int \<Rightarrow> int \<Rightarrow> int option" where
  "seq_header_loop m sz d i =
     (if i < sz - 16 then do {
        x \<leftarrow> get32BE m i;
        (if x = 0x0000010F then Some (i + d) else seq_header_loop m sz d (i + 1)) }
      else Some 0)"
  by pat_completeness auto
termination by (relation "measure (\<lambda>(m, sz, d, i). nat (sz - 16 - i))") auto

declare seq_header_loop.simps [simp del]





section \<open>The RCV header and the frame start code\<close>

text \<open>The packed structure, on a little-endian machine; ok says whether there is memory.\<close>

definition rcv_v2 :: "video_props \<Rightarrow> u8 list \<Rightarrow> u8 list" where
  "rcv_v2 v extra = [0xFF, 0xFF, 0xFF, 0xC5] @ le_bytes 4 (4 :: u32) @ extra
     @ le_bytes 4 (word_of_int (v_height v) :: u32) @ le_bytes 4 (word_of_int (v_width v) :: u32) @ le_bytes 4 (0xC :: u32)
     @ [0, 0, 0, word_of_int (level v * 16)] @ le_bytes 4 (0 :: u32) @ le_bytes 4 (0xFFFFFFFF :: u32)"

definition WMV_get_rcv_header :: "video_props \<Rightarrow> (u8 list \<times> int) option" where
  "WMV_get_rcv_header v =
     (if format v = VIDEO_FORMAT_VC1 then do {
        ofs \<leftarrow> seq_header_loop (extraData v) (extraDataSize v) 0 0;
        let n = extraDataSize v - ofs;
        xs \<leftarrow> rd_blk (extraData v) ofs n;
        Some (xs, n) }
      else do {
        xs \<leftarrow> rd_blk (extraData v) 0 4;
        Some (rcv_v2 v xs, 36) })"

definition VC1_add_sync :: "cbe \<Rightarrow> int \<Rightarrow> (cbe \<times> int) option" where
  "VC1_add_sync c out_size = do {
     (_, c) \<leftarrow> cbe_write c [0x00, 0x00, 0x01, 0x0D] 4;
     Some (c, out_size + 4) }"

section \<open>Searching\<close>








section \<open>Decoding\<close>










text \<open>The RCV header: the first four bytes of the extra data, then height and width.\<close>

lemma WMV_get_rcv_header_layout:
  assumes "format v \<noteq> VIDEO_FORMAT_VC1" "extraData v = a @ r" "length a = 4"
  shows "\<exists>bs. WMV_get_rcv_header v = Some (bs, 36) \<and> length bs = 36 \<and> take 4 (drop 8 bs) = a
    \<and> get32LE bs 12 = Some (word_of_int (v_height v)) \<and> get32LE bs 16 = Some (word_of_int (v_width v))"
proof -
  let ?bs = "rcv_v2 v a"
  let ?pre = "[0xFF, 0xFF, 0xFF, 0xC5] @ le_bytes 4 (4 :: u32) @ a" and ?h = "le_bytes 4 (word_of_int (v_height v) :: u32)"
  let ?w = "le_bytes 4 (word_of_int (v_width v) :: u32)"
  let ?post = "le_bytes 4 (0xC :: u32) @ [0, 0, 0, word_of_int (level v * 16)] @ le_bytes 4 (0 :: u32) @ le_bytes 4 (0xFFFFFFFF :: u32)"
  have bs: "?bs = ?pre @ ?h @ ?w @ ?post" "?bs = (?pre @ ?h) @ ?w @ ?post" by (simp_all add: rcv_v2_def)
  have l: "int (length ?pre) = 12" "int (length (?pre @ ?h)) = 16" using assms(3) by simp_all
  have "get32LE (?pre @ ?h @ ?w @ ?post) (int (length ?pre)) = Some (word_of_int (v_height v))"
    "get32LE ((?pre @ ?h) @ ?w @ ?post) (int (length (?pre @ ?h))) = Some (word_of_int (v_width v))"
    using little_endian_readers by blast+
  then have "get32LE ?bs 12 = Some (word_of_int (v_height v))" "get32LE ?bs 16 = Some (word_of_int (v_width v))"
    unfolding bs(1) [symmetric] bs(2) [symmetric] l by simp_all
  moreover have "WMV_get_rcv_header v = Some (?bs, 36)" using assms by (simp add: WMV_get_rcv_header_def rd_blk_def)
  moreover have "length ?bs = 36" "take 4 (drop 8 ?bs) = a" using assms(3) by (simp_all add: rcv_v2_def)
  ultimately show ?thesis by blast
qed

end
