(* ===== verification/Spec2Isabelle.thy ===== *)
theory Spec2Isabelle
  imports Byte_Access Bits Circular_Buffer Stream_Queue Cbe Linked_List Frame_Queue Pts_Reorder
    Golomb H264_Params Video_Props H264_Nal Hevc Timers
    Rect Util Wide_String Mp3
    Raw_Bits Mpg4 Mpeg2
    Stream_Buffer Stream_Fill Stream_Io_File Stream_Chunks
    Stream_Playback Stream_Sync
    Downmix Realvideo Wmv
begin

text \<open>
  The root of a verification library for the core of libavos, the media engine of the Nova video
  player (C sources under Source/ and Include/).

  The program. A stream (struct STREAM, Include/stream.h) is opened on an input (struct STREAM_IO).
  A buffer thread fills the STREAM_BUFFER, a ring of bytes with a repeated start; a parser reads
  it at the scan position and puts chunks, which only name a range of the buffer, into chunk
  stores for audio, video and subtitles. The audio and video engines take chunks, copy or convert
  their bytes into a CBE or a queue (start codes, parameter sets, stuffing), hand them to codecs,
  put the decoded frames into frame queues, give them their time (PTS reordering, the MPEG
  manglers) and pass them to the sinks. Timers, lists, rectangles and strings serve all parts.

  How the code is modelled. One theory per component. A struct is a record with the fields the
  modelled code uses, a C array or a block of memory is a list and a pointer an offset into it;
  an access outside it makes the result None, so a result Some is memory safety (Prelude). An int
  is an int; i32, uw32 and words appear where the 32-bit width is visible. A C function that changes a
  structure returns the changed record. A loop is a fun or function with its measure, by the
  name of the C function with a suffix; a loop that may not end is a partial_function (option), whose None
  also covers not returning. Locks are not modelled: an operation is one step, and where two
  threads interleave inside one operation (Timers) the step is cut at the unlock. Debug output and
  assertions that are compiled out are left out; assertions of the list code are kept, as None.

  The theories and the code.
  Prelude: C integers, memory, block copies, shared lemmas on them.
  Byte_Access (Include/get.h): the little- and big-endian readers.
  Bits (Source/bits.c, Include/bits.h): the bit reader, with and without emulation prevention;
    the locale bit_source says what decoders use of it, with two interpretations: br on the
    stream of readable bits and rw (Raw_Bits) on the position in a plain buffer.
  Ring: circular storage, the overlap behind a ring, and the locale byte_fifo of a bounded byte
    queue; Pipe (Include/pipe.h) and Circular_Buffer (Include/cb.h) interpret it, and
    Stream_Queue (Source/stream_queue.c, fixed-size entries and the wait with a deadline) is proved
    from the laws of the pipe.
  Cbe (Source/cbe.c): the ring with overlap, contiguous reads and writes.
  Linked_List (Source/linked_list.c, Source/object.c) and Frame_Queue (Source/frame_q.c): lists
    linked through a heap; the lemmas relate the heap to the list of nodes it represents.
  Pts_Reorder (Source/pts_reorder.c): the sorted array of time stamps as a priority queue.
  Timers (Source/timers.c): the pool and the sorted ring of timers, all interleavings of adds,
    removals and trigger rounds, the callbacks a round makes and when it returns.
  Golomb, H264_Params, H264_Nal (Source/h264.c): exp-Golomb codes, parameter sets and slice
    headers, units and start codes, the conversion of extra data and of packets, the mangler.
  Hevc (Source/hevc.c): the same for H.265.
  Mpg4 (Source/mpg4.c), Mpeg2 (Source/mpeg2.c): start codes, headers, the patch of the low delay bit, the
    fields of a picture and its time.
  Mp3 (Source/mp3.c): MPEG audio headers and the search for a frame.
  Video_Props (Include/av.h, Include/stream.h): the properties the parsers fill in.
  Rect (Source/rect.c), Util (Source/util.c), Wide_String (Source/awchar.c): rectangles as sets
    of pixels, conversions between UTF-8 and UTF-16, searches, bounded copies.
  Stream_Buffer (Source/stream_buffer.c): the ring between the input and the parser, its
    positions and the bytes it releases.
  Stream_Fill (Source/stream_buffer_raw.c): the methods that fill the buffer and move its position.
    A step relation (fill_step) is the contract of a filling method, a locale (buffer_method)
    what moving needs of it, another (stream_input) what filling needs of the input; the second
    gives the first (sublocale). An extension (stream_input_total) adds that reads return, and
    gives that the loops of a seek end.
  Stream_Io_File (Source/stream_io_file.c): the input from a file over the functions of the
    operating system, which are a parameter; the interpretations of the input locales and the
    properties of the buffer over a file.
  Stream_Chunks (Source/stream_parser.c, Source/stream_alloc.c): the stores of parsed chunks as
    queues, the loops that fill them from a format parser (an argument), the rates, the bytes
    that the decoders take, dropping and key frames.
  Stream_Playback: the three together, a step relation (play) over filling, finding, taking and
    seeking in any order, and its invariant (playing): what reaches a decoder is the file.
  Stream_Sync (Source/stream_sync.c): the gates that start audio and video together, the control
    loop that keeps them so, and the dropping of late video up to a key frame.
  Downmix (Source/downmix.c): mixing audio down to stereo, interleaved or planar.
  Realvideo (Source/realvideo.c), Wmv (Source/wmv.c): the headers of RealVideo, Windows Media and
    VC-1 streams, and the RealVideo mangler that restores the times of B pictures.
  What the lemmas show. For every component there is a well-formedness predicate (or a
  representation relation) and lemmas that each operation keeps it and does what the
  contract says on every branch, the refusals included; decoders are proved against encoders written for
  the purpose (round trips and decoding of every encoded header); searches return the first
  occurrence; the converters are memory safe on every input. The properties of the manifest are
  marked C1 to C40, in the theory of their component.

  Bounds and fuel. No model function has fuel: the loops have measures, or are partial functions
  whose return is proved (Timers_trigger, the wrap of the scan position). Hypotheses such as a size below
  2^31 are those under which the int arithmetic of the code does not overflow.

  What is not modelled. Threads, files, devices, sockets and the drivers around them; ffmpeg,
  OpenMAX, MediaCodec and stagefright, whose code is not in the repository; the generated code
  page tables; allocation (the allocator's result is an argument); debug commands; floating
  point (a quotient by the playback speed is a parameter).
\<close>

end
